(* ===== verification/Prelude.thy ===== *)
theory Prelude
  imports Main "HOL-Library.AList" "HOL-Library.Multiset"
begin

text \<open>
  Shared vocabulary of the development.

  \<^item> The ways a C function can go wrong (\<open>crash\<close>): the model never continues past a null
    dereference, an out-of-range access, a signed overflow, a failed assertion or an
    \<open>exit\<close>; running out of fuel is a value of the same type.
  \<^item> The C library functions the sources call, over byte strings without the final NUL:
    \<open>snprintf\<close> with \<open>%s\<close> and \<open>%d\<close>, \<open>atoi\<close>, \<open>strchr\<close>, \<open>strstr\<close>, \<open>strncmp\<close>,
    \<open>sscanf\<close> with the format \<open>%d,%d\<close>, \<open>fgets\<close> over a file held as a string, and
    \<open>qsort\<close> (as a stable insertion sort: for keys whose comparison is never zero the
    order is the only one that C permits).
  \<^item> Generic lemmas on decimal notation, association lists and insertion sort.
\<close>

named_theorems clib \<open>evaluation of C library functions\<close>

section \<open>Ways to stop\<close>

datatype crash =
    NullDeref        \<comment> \<open>a null pointer is dereferenced or passed to a string function\<close>
  | OutOfBounds      \<comment> \<open>an array is read or written outside its elements\<close>
  | SignedOverflow   \<comment> \<open>signed arithmetic leaves the range of its type\<close>
  | AssertFailed     \<comment> \<open>\<open>serverAssert\<close> or \<open>serverPanic\<close> aborts the server\<close>
  | ExitFailure      \<comment> \<open>\<open>exit(EXIT_FAILURE)\<close>\<close>
  | OutOfFuel        \<comment> \<open>a waiting loop was cut off by the model\<close>

section \<open>32-bit signed integers\<close>

definition INT_MAX :: int where "INT_MAX = 2147483647"
definition INT_MIN :: int where "INT_MIN = - 2147483648"

definition in_int :: "int \<Rightarrow> bool" where
  "in_int x \<longleftrightarrow> INT_MIN \<le> x \<and> x \<le> INT_MAX"

text \<open>The conversion \<open>(int) x\<close> of a wider integer: the low 32 bits, read as two's complement.\<close>

definition int_cast :: "int \<Rightarrow> int" where
  "int_cast x = (x + 2147483648) mod 4294967296 - 2147483648"

lemma int_cast_id [simp]: "in_int x \<Longrightarrow> int_cast x = x"
  by (simp add: in_int_def int_cast_def INT_MAX_def INT_MIN_def)

lemma in_int_cast [simp]: "in_int (int_cast x)"
proof -
  have "0 \<le> (x + 2147483648) mod 4294967296 \<and> (x + 2147483648) mod 4294967296 < 4294967296"
    by simp
  then show ?thesis
    by (simp add: in_int_def int_cast_def INT_MAX_def INT_MIN_def)
qed

section \<open>Decimal notation\<close>

definition is_digit :: "char \<Rightarrow> bool" where
  "is_digit c \<longleftrightarrow> 48 \<le> (of_char c :: nat) \<and> (of_char c :: nat) \<le> 57"

definition digit_val :: "char \<Rightarrow> nat" where
  "digit_val c = of_char c - 48"

definition digit_char :: "nat \<Rightarrow> char" where
  "digit_char d = char_of (48 + d)"

lemma digit_char [simp]:
  assumes "d < 10"
  shows "is_digit (digit_char d)" and "digit_val (digit_char d) = d"
  using assms by (auto simp: is_digit_def digit_val_def digit_char_def of_char_of)

fun decimal :: "nat \<Rightarrow> string" where
  "decimal n = (if n < 10 then [digit_char n] else decimal (n div 10) @ [digit_char (n mod 10)])"

declare decimal.simps [simp del]

text \<open>The value that a digit string adds to an accumulator, most significant digit first.\<close>

fun dec_value :: "nat \<Rightarrow> string \<Rightarrow> nat" where
  "dec_value acc [] = acc"
| "dec_value acc (c # cs) = dec_value (10 * acc + digit_val c) cs"

lemma dec_value_append: "dec_value acc (xs @ ys) = dec_value (dec_value acc xs) ys"
  by (induction xs arbitrary: acc) auto

lemma decimal_digits: "\<forall>c \<in> set (decimal n). is_digit c"
proof (induction n rule: decimal.induct)
  case (1 n)
  then show ?case
    by (cases "n < 10") (auto simp: decimal.simps [of n])
qed

lemma decimal_not_Nil [simp]: "decimal n \<noteq> []"
  by (simp add: decimal.simps [of n])

lemma dec_value_decimal [simp]: "dec_value 0 (decimal n) = n"
proof (induction n rule: decimal.induct)
  case (1 n)
  show ?case
  proof (cases "n < 10")
    case True
    then show ?thesis by (simp add: decimal.simps [of n])
  next
    case False
    with "1.IH" show ?thesis
      by (simp add: decimal.simps [of n] dec_value_append)
  qed
qed

lemma decimal_inject [simp]: "decimal m = decimal n \<longleftrightarrow> m = n"
  by (metis dec_value_decimal)

lemma length_decimal: "n < 10 ^ k \<Longrightarrow> 0 < k \<Longrightarrow> length (decimal n) \<le> k"
proof (induction n arbitrary: k rule: decimal.induct)
  case (1 n)
  show ?case
  proof (cases "n < 10")
    case True
    with "1.prems" show ?thesis by (simp add: decimal.simps [of n])
  next
    case False
    then obtain k' where k: "k = Suc k'" and "0 < k'"
      using "1.prems" by (cases k; cases "k - 1") auto
    moreover have "n div 10 < 10 ^ k'"
      using "1.prems" k by (simp add: less_mult_imp_div_less mult.commute)
    ultimately show ?thesis
      using "1.IH" [OF False, of k'] False by (simp add: decimal.simps [of n])
  qed
qed

text \<open>\<open>%d\<close>\<close>

definition fmt_d :: "int \<Rightarrow> string" where
  "fmt_d i = (if i < 0 then CHR ''-'' # decimal (nat (- i)) else decimal (nat i))"

section \<open>String functions of the C library\<close>

text \<open>\<open>snprintf(buf, n, ...)\<close> stores at most \<open>n - 1\<close> bytes of the formatted text.\<close>

definition snprintf :: "nat \<Rightarrow> string \<Rightarrow> string" where
  "snprintf n s = take (n - 1) s"

lemma snprintf_fits [simp]: "length s < n \<Longrightarrow> snprintf n s = s"
  by (simp add: snprintf_def)

text \<open>A null pointer printed with \<open>%s\<close> appears as \<open>(null)\<close> in glibc.\<close>

definition fmt_s :: "string option \<Rightarrow> string" where
  "fmt_s p = (case p of None \<Rightarrow> ''(null)'' | Some s \<Rightarrow> s)"

lemma fmt_s_Some [simp]: "fmt_s (Some s) = s"
  by (simp add: fmt_s_def)

definition is_space :: "char \<Rightarrow> bool" where
  "is_space c \<longleftrightarrow> c = CHR '' '' \<or> (9 \<le> (of_char c :: nat) \<and> (of_char c :: nat) \<le> 13)"

text \<open>
  \<open>strtol(s, NULL, 10)\<close> for a 64-bit \<open>long\<close>: white space, an optional sign, digits; values
  outside the range of \<open>long\<close> saturate. \<open>strtol_end\<close> is the rest of the string and is
  \<open>None\<close> when no digit was found.
\<close>

definition LONG_MAX :: int where "LONG_MAX = 9223372036854775807"
definition LONG_MIN :: int where "LONG_MIN = - 9223372036854775808"

definition strtol_clamp :: "int \<Rightarrow> int" where
  "strtol_clamp v = max LONG_MIN (min LONG_MAX v)"

definition strtol_sign :: "string \<Rightarrow> bool \<times> string" where
  "strtol_sign s =
     (case dropWhile is_space s of
        [] \<Rightarrow> (False, [])
      | c # cs \<Rightarrow> if c = CHR ''-'' then (True, cs)
                  else if c = CHR ''+'' then (False, cs) else (False, c # cs))"

definition strtol :: "string \<Rightarrow> int" where
  "strtol s = (let (neg, ds) = strtol_sign s; v = int (dec_value 0 (takeWhile is_digit ds))
               in strtol_clamp (if neg then - v else v))"

definition strtol_end :: "string \<Rightarrow> string option" where
  "strtol_end s = (let (neg, ds) = strtol_sign s
                   in if takeWhile is_digit ds = [] then None else Some (dropWhile is_digit ds))"

text \<open>\<open>atoi(s)\<close> is \<open>(int) strtol(s, NULL, 10)\<close> in glibc.\<close>

definition atoi :: "string \<Rightarrow> int" where
  "atoi s = int_cast (strtol s)"

text \<open>\<open>strchr(s, c)\<close>: the suffix that starts at the first \<open>c\<close>.\<close>

definition strchr :: "string \<Rightarrow> char \<Rightarrow> string option" where
  "strchr s c = (case dropWhile (\<lambda>x. x \<noteq> c) s of [] \<Rightarrow> None | r \<Rightarrow> Some r)"

text \<open>\<open>*strstr(s, pat) = 0\<close>: the part of \<open>s\<close> before the first occurrence of \<open>pat\<close>,
  or all of \<open>s\<close> when there is none.\<close>

fun cut_at :: "string \<Rightarrow> string \<Rightarrow> string" where
  "cut_at pat [] = []"
| "cut_at pat (c # cs) = (if take (length pat) (c # cs) = pat then [] else c # cut_at pat cs)"

text \<open>\<open>strncmp(s, prefix, strlen(prefix)) == 0\<close>\<close>

definition starts_with :: "string \<Rightarrow> string \<Rightarrow> bool" where
  "starts_with s prefix \<longleftrightarrow> take (length prefix) s = prefix"

text \<open>\<open>sscanf(line, "%d,%d", &a, &b) == 2\<close>\<close>

definition sscanf_d_d :: "string \<Rightarrow> (int \<times> int) option" where
  "sscanf_d_d line =
     (case strtol_end line of
        Some (c # rest) \<Rightarrow>
          if c = CHR '','' then
            (case strtol_end rest of
               Some _ \<Rightarrow> Some (atoi line, atoi rest)
             | None \<Rightarrow> None)
          else None
      | _ \<Rightarrow> None)"

text \<open>
  Reading a file with \<open>fgets(line, n, file)\<close> until the end: each piece ends after a
  newline or holds \<open>n - 1\<close> bytes.
\<close>

definition newline :: char where "newline = CHR 0x0A"

definition fgets :: "nat \<Rightarrow> string \<Rightarrow> string \<times> string" where
  "fgets n file =
     (let body = takeWhile (\<lambda>c. c \<noteq> newline) file;
          k = min (n - 1) (min (length file) (Suc (length body)))
      in (take k file, drop k file))"

function fgets_all :: "nat \<Rightarrow> string \<Rightarrow> string list" where
  "fgets_all n file =
     (if n < 2 \<or> file = [] then []
      else (let (line, rest) = fgets n file in line # fgets_all n rest))"
  by pat_completeness auto
termination
proof (relation "measure (\<lambda>(n, file). length file)", goal_cases)
  case (2 n fl x line rest)
  have "length (snd (fgets n fl)) < length fl"
    using 2(1) by (auto simp: fgets_def Let_def)
  with 2(2,3) show ?case by (metis snd_conv in_measure case_prod_conv)
qed simp

declare fgets_all.simps [simp del]

section \<open>\<open>qsort\<close>\<close>

fun qsort_insert :: "('a \<Rightarrow> 'a \<Rightarrow> int) \<Rightarrow> 'a \<Rightarrow> 'a list \<Rightarrow> 'a list" where
  "qsort_insert cmp x [] = [x]"
| "qsort_insert cmp x (y # ys) =
     (if cmp x y \<le> 0 then x # y # ys else y # qsort_insert cmp x ys)"

definition qsort :: "('a \<Rightarrow> 'a \<Rightarrow> int) \<Rightarrow> 'a list \<Rightarrow> 'a list" where
  "qsort cmp xs = foldr (qsort_insert cmp) xs []"

lemma mset_qsort_insert: "mset (qsort_insert cmp x ys) = add_mset x (mset ys)"
  by (induction ys) auto

lemma mset_qsort [simp]: "mset (qsort cmp xs) = mset xs"
  by (induction xs) (simp_all add: qsort_def mset_qsort_insert)

lemma set_qsort [simp]: "set (qsort cmp xs) = set xs"
  by (metis mset_qsort set_mset_mset)

lemma length_qsort [simp]: "length (qsort cmp xs) = length xs"
  by (metis mset_qsort size_mset)

lemma distinct_qsort [simp]: "distinct (qsort cmp xs) = distinct xs"
  by (metis mset_qsort mset_eq_imp_distinct_iff)

lemma qsort_Nil [simp]: "qsort cmp [] = []"
  by (simp add: qsort_def)

text \<open>A comparison by a key: the result is sorted by that key.\<close>

lemma sorted_qsort_insert:
  assumes "\<And>a b. a \<in> insert x (set ys) \<Longrightarrow> b \<in> insert x (set ys) \<Longrightarrow> cmp a b \<le> 0 \<longleftrightarrow> f a \<le> (f b :: int)"
    and "sorted (map f ys)"
  shows "sorted (map f (qsort_insert cmp x ys))"
  using assms
proof (induction ys)
  case (Cons y ys)
  have "set (qsort_insert cmp x ys) = insert x (set ys)"
    by (metis mset_qsort_insert set_mset_add_mset_insert set_mset_mset)
  with Cons show ?case by auto
qed simp

lemma sorted_qsort:
  assumes "\<And>a b. a \<in> set xs \<Longrightarrow> b \<in> set xs \<Longrightarrow> cmp a b \<le> 0 \<longleftrightarrow> f a \<le> (f b :: int)"
  shows "sorted (map f (qsort cmp xs))"
  using assms
proof (induction xs)
  case (Cons x xs)
  then show ?case
    using sorted_qsort_insert [of x "qsort cmp xs" cmp f] set_qsort [of cmp xs]
    by (simp add: qsort_def)
qed (simp add: qsort_def)

section \<open>Association lists\<close>

lemma map_of_update [simp]: "map_of (AList.update k v al) = (map_of al)(k \<mapsto> v)"
  by (rule update_conv')

section \<open>Parsing printed numbers\<close>

lemma digit_not_space: "is_digit c \<Longrightarrow> \<not> is_space c"
  by (auto simp: is_digit_def is_space_def)

lemma digit_not_sign: "is_digit c \<Longrightarrow> c \<noteq> CHR ''-'' \<and> c \<noteq> CHR ''+'' \<and> c \<noteq> CHR ''_'' \<and> c \<noteq> CHR '',''"
  by (auto simp: is_digit_def)

lemma takeWhile_digits:
  assumes "\<forall>c \<in> set ds. is_digit c" and "rest = [] \<or> \<not> is_digit (hd rest)"
  shows "takeWhile is_digit (ds @ rest) = ds" and "dropWhile is_digit (ds @ rest) = rest"
  using assms by (induction ds) (cases rest; auto)+

lemma strtol_sign_digits:
  assumes "\<forall>c \<in> set ds. is_digit c" and "ds \<noteq> []"
  shows "strtol_sign (ds @ rest) = (False, ds @ rest)"
  using assms digit_not_space [of "hd ds"] digit_not_sign [of "hd ds"]
  by (cases ds) (auto simp: strtol_sign_def)

lemma strtol_decimal [clib]:
  assumes "rest = [] \<or> \<not> is_digit (hd rest)"
  shows "strtol (decimal n @ rest) = min LONG_MAX (int n)"
    and "strtol_end (decimal n @ rest) = Some rest"
proof -
  note tw = takeWhile_digits [OF decimal_digits assms, of n]
  have sign: "strtol_sign (decimal n @ rest) = (False, decimal n @ rest)"
    by (rule strtol_sign_digits [OF decimal_digits decimal_not_Nil])
  show "strtol (decimal n @ rest) = min LONG_MAX (int n)"
    unfolding strtol_def sign by (simp add: tw strtol_clamp_def LONG_MIN_def LONG_MAX_def
        del: takeWhile_append dropWhile_append)
  show "strtol_end (decimal n @ rest) = Some rest"
    unfolding strtol_end_def sign by (simp add: tw del: takeWhile_append dropWhile_append)
qed

lemma atoi_decimal [simp]: "int n \<le> INT_MAX \<Longrightarrow> atoi (decimal n) = int n"
  using strtol_decimal(1) [of "[]" n]
  by (simp add: atoi_def LONG_MAX_def INT_MAX_def in_int_def INT_MIN_def)

lemma atoi_fmt_d [simp]: "0 \<le> i \<Longrightarrow> i \<le> INT_MAX \<Longrightarrow> atoi (fmt_d i) = i"
  by (simp add: fmt_d_def)

lemma sscanf_d_d_printed:
  assumes "int a \<le> INT_MAX" "int b \<le> INT_MAX" "rest = [] \<or> \<not> is_digit (hd rest)"
  shows "sscanf_d_d (decimal a @ '','' @ decimal b @ rest) = Some (int a, int b)"
proof -
  have comma: "\<not> is_digit CHR '',''" by (simp add: is_digit_def)
  have "atoi (decimal b @ rest) = int b" "atoi (decimal a @ '','' @ decimal b @ rest) = int a"
    using assms comma by (simp_all add: atoi_def strtol_decimal LONG_MAX_def INT_MAX_def in_int_def INT_MIN_def)
  then show ?thesis
    using assms comma by (simp add: sscanf_d_d_def strtol_decimal)
qed

lemma underscore_not_decimal [simp]: "CHR ''_'' \<notin> set (decimal n)"
  using decimal_digits [of n] digit_not_sign by auto

lemma strchr_prefix: "c \<notin> set p \<Longrightarrow> strchr (p @ c # s) c = Some (c # s)"
  by (induction p) (auto simp: strchr_def)

text \<open>Text up to a separator that does not occur before it is determined by the whole.\<close>

lemma split_unique:
  assumes "p @ c # s = q @ c # t" "c \<notin> set p" "c \<notin> set q"
  shows "p = q \<and> s = t"
  using assms by (auto simp: append_eq_append_conv2 append_eq_Cons_conv Cons_eq_append_conv)

end
