(* ===== verification/Glob.thy ===== *)
theory Glob
  imports Prelude
begin

text \<open>
  Glob-style pattern matching of \<open>redis/src/util.c\<close> (\<open>stringmatchlen_impl\<close>,
  \<open>stringmatchlen\<close>, \<open>stringmatch\<close>), which the \<open>KEYS\<close> command applies to every key.

  The pattern and the string are the bytes from the current pointer to the end, so
  \<open>patternLen\<close> and \<open>stringLen\<close> are list lengths. The C code reads \<open>pattern[0]\<close> and
  \<open>pattern[1]\<close> one byte past the end; for the strings Redis passes (\<open>sds\<close>) that byte is
  the terminating NUL, which is what \<open>byte_at\<close> returns there.
\<close>

section \<open>The matcher of util.c\<close>

definition byte_at :: "string \<Rightarrow> nat \<Rightarrow> char" where
  "byte_at p i = (if i < length p then p ! i else CHR 0x00)"

text \<open>A \<open>char\<close> is signed on the platforms Redis is built for.\<close>

definition schar :: "char \<Rightarrow> int" where
  "schar c = (if (of_char c :: int) < 128 then of_char c else of_char c - 256)"

definition tolower :: "int \<Rightarrow> int" where
  "tolower x = (if 65 \<le> x \<and> x \<le> 90 then x + 32 else x)"

definition char_matches :: "bool \<Rightarrow> char \<Rightarrow> char \<Rightarrow> bool" where
  "char_matches nocase a b =
     (if nocase then tolower (schar a) = tolower (schar b) else a = b)"

definition range_matches :: "bool \<Rightarrow> char \<Rightarrow> char \<Rightarrow> char \<Rightarrow> bool" where
  "range_matches nocase lo hi ch =
     (let start = schar lo; stop = schar hi; c = schar ch;
          (start, stop) = (if start > stop then (stop, start) else (start, stop));
          f = (if nocase then tolower else (\<lambda>x. x))
      in f c \<ge> f start \<and> f c \<le> f stop)"

text \<open>
  The body of a bracket expression: whether the byte \<open>ch\<close> matches one of its members, and
  the pattern after the closing bracket (empty when there is none).
\<close>

function (sequential) bracket_loop :: "bool \<Rightarrow> string \<Rightarrow> char \<Rightarrow> bool \<Rightarrow> bool \<times> string" where
  "bracket_loop nocase p ch m =
     (if byte_at p 0 = CHR 0x5C \<and> length p \<ge> 2
      then bracket_loop nocase (drop 2 p) ch (m \<or> byte_at p 1 = ch)
      else if byte_at p 0 = CHR '']'' then (m, drop 1 p)
      else if p = [] then (m, [])
      else if length p \<ge> 3 \<and> byte_at p 1 = CHR ''-''
      then bracket_loop nocase (drop 3 p) ch (m \<or> range_matches nocase (byte_at p 0) (byte_at p 2) ch)
      else bracket_loop nocase (drop 1 p) ch (m \<or> char_matches nocase (byte_at p 0) ch))"
  by pat_completeness auto
termination
  by (relation "measure (\<lambda>(nocase, p, ch, m). length p)") auto

declare bracket_loop.simps [simp del]

lemma bracket_loop_length: "length (snd (bracket_loop nocase p ch m)) \<le> length p"
proof (induction nocase p ch m rule: bracket_loop.induct)
  case (1 nocase p ch m)
  then show ?case by (subst bracket_loop.simps) (auto simp: le_diff_conv)
qed

definition bracket :: "bool \<Rightarrow> string \<Rightarrow> char \<Rightarrow> bool \<times> string" where
  "bracket nocase p ch =
     (let neg = (byte_at p 0 = CHR ''^'');
          (m, rest) = bracket_loop nocase (if neg then drop 1 p else p) ch False
      in (if neg then \<not> m else m, rest))"

lemma bracket_length: "bracket nocase p ch = (m, rest) \<Longrightarrow> length rest \<le> length p"
  using bracket_loop_length [of nocase "drop 1 p" ch False] bracket_loop_length [of nocase p ch False]
  by (auto simp: bracket_def Let_def split: prod.splits if_splits)

definition skip_stars :: "string \<Rightarrow> string" where
  "skip_stars p = dropWhile (\<lambda>c. c = CHR ''*'') p"

lemma length_skip_stars: "length (skip_stars p) \<le> length p"
  by (simp add: skip_stars_def length_dropWhile_le)

lemma skip_stars_shorter:
  assumes "p \<noteq> []" "hd p = CHR ''*''"
  shows "length (skip_stars p) < length p"
proof -
  have "skip_stars p = skip_stars (tl p)" using assms by (cases p) (auto simp: skip_stars_def)
  moreover have "length (skip_stars (tl p)) \<le> length (tl p)" by (rule length_skip_stars)
  ultimately show ?thesis using assms by (cases p) auto
qed

text \<open>
  The recursion of \<open>stringmatchlen_impl\<close>. The result pairs the return value with the flag
  behind the pointer \<open>skipLongerMatches\<close>. \<open>star_loop\<close> is the inner \<open>while(stringLen)\<close> loop
  of the \<open>'*'\<close> case, for the pattern after the stars.
\<close>

function (sequential) stringmatchlen_impl ::
    "string \<Rightarrow> string \<Rightarrow> bool \<Rightarrow> bool \<Rightarrow> nat \<Rightarrow> bool \<times> bool"
  and star_loop :: "string \<Rightarrow> string \<Rightarrow> bool \<Rightarrow> bool \<Rightarrow> nat \<Rightarrow> bool \<times> bool"
  and advance :: "string \<Rightarrow> string \<Rightarrow> bool \<Rightarrow> bool \<Rightarrow> nat \<Rightarrow> bool \<times> bool" where
  "stringmatchlen_impl p s nocase skip nesting =
     (if nesting > 1000 then (False, skip)
      else if p = [] \<or> s = [] then (p = [] \<and> s = [], skip)
      else if hd p = CHR ''*'' then
        (let q = skip_stars p
         in if q = [] then (True, skip) else star_loop q s nocase skip nesting)
      else if hd p = CHR ''?'' then advance (tl p) (tl s) nocase skip nesting
      else if hd p = CHR ''['' then
        (case bracket nocase (tl p) (hd s) of
           (m, rest) \<Rightarrow> if m then advance rest (tl s) nocase skip nesting else (False, skip))
      else
        (let q = (if hd p = CHR 0x5C \<and> length p \<ge> 2 then tl p else p)
         in if char_matches nocase (hd q) (hd s)
            then advance (tl q) (tl s) nocase skip nesting
            else (False, skip)))"
| "star_loop q s nocase skip nesting =
     (if s = [] then (False, True)
      else (case stringmatchlen_impl q s nocase skip (Suc nesting) of
              (m, skip') \<Rightarrow>
                if m then (True, skip')
                else if skip' then (False, skip')
                else star_loop q (tl s) nocase skip' nesting))"
| "advance p s nocase skip nesting =
     (if s = [] then (skip_stars p = [], skip)
      else if p = [] then (False, skip)
      else stringmatchlen_impl p s nocase skip nesting)"
  by pat_completeness auto
termination
proof (relation "measures
    [\<lambda>x. case x of Inl (p, s, _) \<Rightarrow> 3 * length p
               | Inr (Inl (q, s, _)) \<Rightarrow> 3 * length q + 2
               | Inr (Inr (p, s, _)) \<Rightarrow> 3 * length p + 1,
     \<lambda>x. case x of Inl (p, s, _) \<Rightarrow> length s
               | Inr (Inl (q, s, _)) \<Rightarrow> length s
               | Inr (Inr (p, s, _)) \<Rightarrow> length s]", goal_cases)
  case (2 p s nocase skip nesting q)
  then have "length q < length p" using skip_stars_shorter by auto
  then show ?case by simp
next
  case (3 p s nocase skip nesting)
  then show ?case by (cases p) auto
next
  case (4 p s nocase skip nesting m rest)
  then have "length rest \<le> length (tl p)" using bracket_length by metis
  with 4 show ?case by (cases p) auto
next
  case (5 p s nocase skip nesting q)
  then have "q \<noteq> []" "length q \<le> length p" by (cases p; cases "tl p"; auto split: if_splits)+
  then have "length (tl q) < length p" by (cases q) auto
  then show ?case by simp
qed auto

declare stringmatchlen_impl.simps [simp del] star_loop.simps [simp del] advance.simps [simp del]

definition stringmatchlen :: "string \<Rightarrow> string \<Rightarrow> bool \<Rightarrow> bool" where
  "stringmatchlen pattern string nocase = fst (stringmatchlen_impl pattern string nocase False 0)"

section \<open>Reference semantics\<close>

text \<open>
  A pattern is a list of tokens: a star, or a test of one byte. \<open>gmatch\<close> is the usual
  meaning: a star stands for any bytes, a test for one byte that passes it.
\<close>

datatype token = TStar | TOne "char \<Rightarrow> bool"

function (sequential) tokens :: "bool \<Rightarrow> string \<Rightarrow> token list" where
  "tokens nocase [] = []"
| "tokens nocase (c # p) =
     (if c = CHR ''*'' then TStar # tokens nocase p
      else if c = CHR ''?'' then TOne (\<lambda>_. True) # tokens nocase p
      else if c = CHR ''['' then
        TOne (\<lambda>ch. fst (bracket nocase p ch)) # tokens nocase (snd (bracket nocase p CHR 0x00))
      else if c = CHR 0x5C \<and> p \<noteq> [] then
        TOne (\<lambda>ch. char_matches nocase (hd p) ch) # tokens nocase (tl p)
      else TOne (\<lambda>ch. char_matches nocase c ch) # tokens nocase p)"
  by pat_completeness auto
termination
proof (relation "measure (\<lambda>(nocase, p). length p)", goal_cases)
  case (4 nocase c p)
  have "length (snd (bracket nocase p CHR 0x00)) \<le> length p"
    using bracket_length by (metis prod.collapse)
  then show ?case by simp
qed auto

fun gmatch :: "token list \<Rightarrow> string \<Rightarrow> bool" where
  "gmatch [] s = (s = [])"
| "gmatch (TStar # ts) s = (\<exists>k \<le> length s. gmatch ts (drop k s))"
| "gmatch (TOne f # ts) s = (s \<noteq> [] \<and> f (hd s) \<and> gmatch ts (tl s))"

definition stars :: "bool \<Rightarrow> string \<Rightarrow> nat" where
  "stars nocase p = length (filter (\<lambda>t. t = TStar) (tokens nocase p))"

abbreviation glob :: "bool \<Rightarrow> string \<Rightarrow> string \<Rightarrow> bool" where
  "glob nocase p s \<equiv> gmatch (tokens nocase p) s"

lemma bracket_loop_rest: "snd (bracket_loop nocase p ch m) = snd (bracket_loop nocase p ch' m')"
proof (induction nocase p ch m arbitrary: ch' m' rule: bracket_loop.induct)
  case (1 nocase p ch m)
  let ?esc = "byte_at p 0 = CHR 0x5C \<and> length p \<ge> 2"
  let ?close = "byte_at p 0 = CHR '']''"
  let ?range = "length p \<ge> 3 \<and> byte_at p 1 = CHR ''-''"
  note unf = bracket_loop.simps [of nocase p]
  consider (esc) ?esc | (close) "\<not> ?esc" ?close | (empty) "\<not> ?esc" "\<not> ?close" "p = []"
    | (range) "\<not> ?esc" "\<not> ?close" "p \<noteq> []" ?range
    | (one) "\<not> ?esc" "\<not> ?close" "p \<noteq> []" "\<not> ?range" by blast
  then show ?case
  proof cases
    case esc
    from "1.IH"(1) [OF this] esc show ?thesis by (simp only: unf if_True simp_thms)
  next
    case range
    from "1.IH"(2) [OF this] range show ?thesis by (simp only: unf if_True if_False simp_thms)
  next
    case one
    from "1.IH"(3) [OF this] one show ?thesis by (simp only: unf if_True if_False simp_thms)
  next
    case empty
    then show ?thesis by (simp add: bracket_loop.simps [of nocase "[]"])
  qed (simp add: unf)
qed

lemma bracket_rest: "snd (bracket nocase p ch) = snd (bracket nocase p ch')"
  using bracket_loop_rest by (simp add: bracket_def Let_def split_beta)

lemma gmatch_star_drop: "gmatch (TStar # ts) (drop i s) \<Longrightarrow> gmatch (TStar # ts) s"
proof -
  assume "gmatch (TStar # ts) (drop i s)"
  then obtain k where "k \<le> length s - i" "gmatch ts (drop (k + i) s)" by auto
  then show ?thesis
    by (cases "k + i \<le> length s") (auto intro: exI [of _ "k + i"] exI [of _ "length s"])
qed

lemma gmatch_star_iff: "gmatch (TStar # ts) s \<longleftrightarrow> (\<exists>k. gmatch ts (drop k s))"
proof
  assume "\<exists>k. gmatch ts (drop k s)"
  then obtain k where "gmatch ts (drop k s)" ..
  then show "gmatch (TStar # ts) s"
    by (cases "k \<le> length s") (auto intro: exI [of _ k] exI [of _ "length s"])
qed auto

lemma tokens_skip_stars:
  "\<exists>n. tokens nocase p = replicate n TStar @ tokens nocase (skip_stars p)
      \<and> (n = 0 \<longleftrightarrow> p = skip_stars p)"
proof (induction p)
  case (Cons c p)
  show ?case
  proof (cases "c = CHR ''*''")
    case True
    with Cons obtain n where "tokens nocase p = replicate n TStar @ tokens nocase (skip_stars p)"
      by blast
    moreover have "skip_stars (c # p) \<noteq> c # p"
      using skip_stars_shorter [of "c # p"] True by auto
    moreover have "skip_stars (c # p) = skip_stars p" using True by (simp add: skip_stars_def)
    ultimately show ?thesis
      using True by (intro exI [of _ "Suc n"]) auto
  qed (auto simp: skip_stars_def)
qed (simp add: skip_stars_def)

lemma gmatch_stars: "gmatch (replicate (Suc n) TStar @ ts) s \<longleftrightarrow> (\<exists>k. gmatch ts (drop k s))"
proof (induction n arbitrary: s)
  case 0
  then show ?case using gmatch_star_iff [of ts s] by simp
next
  case (Suc n)
  have "gmatch (replicate (Suc (Suc n)) TStar @ ts) s
      \<longleftrightarrow> (\<exists>k. gmatch (replicate (Suc n) TStar @ ts) (drop k s))"
    using gmatch_star_iff [of "replicate (Suc n) TStar @ ts" s] by simp
  also have "\<dots> \<longleftrightarrow> (\<exists>k. gmatch ts (drop k s))"
    unfolding Suc.IH by (metis drop0 drop_drop)
  finally show ?case .
qed

lemma glob_star:
  assumes "p \<noteq> []" "hd p = CHR ''*''"
  shows "glob nocase p s \<longleftrightarrow> (\<exists>k. glob nocase (skip_stars p) (drop k s))"
    and "stars nocase p \<ge> Suc (stars nocase (skip_stars p))"
proof -
  have "p \<noteq> skip_stars p"
    using skip_stars_shorter [OF assms] by auto
  then obtain n where n: "tokens nocase p = replicate (Suc n) TStar @ tokens nocase (skip_stars p)"
    using tokens_skip_stars [of nocase p] by (metis not0_implies_Suc)
  show "glob nocase p s \<longleftrightarrow> (\<exists>k. glob nocase (skip_stars p) (drop k s))"
    unfolding n by (rule gmatch_stars)
  show "stars nocase p \<ge> Suc (stars nocase (skip_stars p))"
    unfolding stars_def n by simp
qed

lemma glob_nonstar:
  assumes "p \<noteq> []" "hd p \<noteq> CHR ''*''"
  obtains f ts where "tokens nocase p = TOne f # ts"
proof -
  obtain c q where "p = c # q" using assms by (cases p) auto
  with assms that show ?thesis
    by (cases "c = CHR ''?''"; cases "c = CHR ''[''"; cases "c = CHR 0x5C \<and> q \<noteq> []") auto
qed

lemma glob_Nil: "glob nocase p [] \<longleftrightarrow> skip_stars p = []"
proof (cases "skip_stars p = []")
  case True
  then obtain n where "tokens nocase p = replicate n TStar"
    using tokens_skip_stars [of nocase p] by auto
  moreover have "gmatch (replicate n TStar) []" by (induction n) auto
  ultimately show ?thesis using True by simp
next
  case False
  then have "hd (skip_stars p) \<noteq> CHR ''*''"
    unfolding skip_stars_def by (rule hd_dropWhile)
  then obtain f ts where "tokens nocase (skip_stars p) = TOne f # ts"
    using False glob_nonstar by blast
  moreover obtain n where "tokens nocase p = replicate n TStar @ tokens nocase (skip_stars p)"
    using tokens_skip_stars by blast
  moreover have "\<not> gmatch (replicate n TStar @ TOne f # ts) []" by (induction n) auto
  ultimately show ?thesis using False by simp
qed

section \<open>The matcher computes the reference semantics\<close>

text \<open>
  \<open>no_later\<close> is what a set \<open>skipLongerMatches\<close> flag promises: the pattern matches no
  suffix of the string, so an enclosing star need not try longer prefixes.
\<close>

abbreviation no_later :: "bool \<Rightarrow> string \<Rightarrow> string \<Rightarrow> bool" where
  "no_later nocase p s \<equiv> \<forall>i. \<not> glob nocase p (drop i s)"

definition impl_ok :: "bool \<Rightarrow> string \<Rightarrow> string \<Rightarrow> bool \<times> bool \<Rightarrow> bool" where
  "impl_ok nocase p s r \<longleftrightarrow>
     (fst r \<longleftrightarrow> glob nocase p s) \<and> (snd r \<longrightarrow> \<not> fst r \<and> no_later nocase p s)"

lemma no_later_step:
  assumes "tokens nocase p = TOne f # tokens nocase q" "no_later nocase q (tl s)"
  shows "no_later nocase p s"
proof (intro allI notI)
  fix i
  assume "glob nocase p (drop i s)"
  then have "glob nocase q (tl (drop i s))" using assms(1) by simp
  then have "glob nocase q (drop i (tl s))" by (simp add: tl_drop drop_Suc)
  with assms(2) show False by blast
qed

lemma impl_ok_one:
  assumes "tokens nocase p = TOne f # tokens nocase q" "s \<noteq> []"
    "f (hd s) \<Longrightarrow> impl_ok nocase q (tl s) r"
  shows "impl_ok nocase p s (if f (hd s) then r else (False, False))"
  using assms no_later_step [OF assms(1)] by (auto simp: impl_ok_def)

lemma nonstar_no_empty:
  "p \<noteq> [] \<Longrightarrow> hd p \<noteq> CHR ''*'' \<Longrightarrow> \<not> glob nocase p []"
  by (erule (1) glob_nonstar [where nocase = nocase]) simp

text \<open>One iteration of the main loop on a pattern that does not start with a star.\<close>

lemma impl_nonstar:
  assumes "p \<noteq> []" "hd p \<noteq> CHR ''*''"
  obtains f q where "tokens nocase p = TOne f # tokens nocase q" "length q < length p"
    "\<And>s skip nesting. s \<noteq> [] \<Longrightarrow> nesting \<le> 1000 \<Longrightarrow>
       stringmatchlen_impl p s nocase skip nesting
         = (if f (hd s) then advance q (tl s) nocase skip nesting else (False, skip))"
proof -
  obtain c cs where pc: "p = c # cs" using assms by (cases p) auto
  note unf = stringmatchlen_impl.simps [of "x # cs" for x]
  consider (any) "c = CHR ''?''" | (br) "c = CHR ''[''"
    | (esc) "c = CHR 0x5C" "cs \<noteq> []"
    | (lit) "c \<noteq> CHR ''?''" "c \<noteq> CHR ''[''" "c \<noteq> CHR 0x5C \<or> cs = []" by blast
  then show thesis
  proof cases
    case any
    then show ?thesis by (intro that [of "\<lambda>_. True" cs]) (simp_all add: pc unf)
  next
    case br
    let ?rest = "snd (bracket nocase cs CHR 0x00)"
    have "length ?rest \<le> length cs" by (metis bracket_length prod.collapse)
    with br bracket_rest [of nocase cs "hd s" "CHR 0x00" for s] show ?thesis
      by (intro that [of "\<lambda>ch. fst (bracket nocase cs ch)" ?rest])
        (simp_all add: pc unf split_beta)
  next
    case esc
    then show ?thesis
      by (intro that [of "\<lambda>ch. char_matches nocase (hd cs) ch" "tl cs"])
        (simp_all add: pc unf Suc_le_eq Let_def)
  next
    case lit
    with assms pc show ?thesis
      by (intro that [of "\<lambda>ch. char_matches nocase c ch" cs])
        (auto simp: pc unf Suc_le_eq Let_def)
  qed
qed

lemma advance_correct:
  assumes "s \<noteq> [] \<Longrightarrow> impl_ok nocase p s (stringmatchlen_impl p s nocase False nesting)"
  shows "impl_ok nocase p s (advance p s nocase False nesting)"
  using assms glob_Nil [of nocase p]
  by (cases "s = [] \<or> p = []") (auto simp: advance.simps [of p s] impl_ok_def)

lemma no_later_Cons: "no_later nocase q (c # s) \<longleftrightarrow> \<not> glob nocase q (c # s) \<and> no_later nocase q s"
  by (metis drop0 drop_Suc_Cons not0_implies_Suc)

lemma star_loop_correct:
  assumes "q \<noteq> []" "hd q \<noteq> CHR ''*''"
    and ok: "\<And>s. s \<noteq> [] \<Longrightarrow> impl_ok nocase q s (stringmatchlen_impl q s nocase False (Suc nesting))"
  shows "(fst (star_loop q s nocase False nesting) \<longleftrightarrow> \<not> no_later nocase q s)
      \<and> (snd (star_loop q s nocase False nesting) \<longrightarrow> no_later nocase q s)"
proof (induction s)
  case Nil
  with nonstar_no_empty [OF assms(1,2)] show ?case by (simp add: star_loop.simps)
next
  case (Cons c s)
  obtain m k where "stringmatchlen_impl q (c # s) nocase False (Suc nesting) = (m, k)"
    by (metis prod.collapse)
  with ok [of "c # s"] Cons.IH show ?case
    by (auto simp: star_loop.simps [of q "c # s"] impl_ok_def no_later_Cons)
qed

lemma impl_correct:
  "\<lbrakk>nesting + stars nocase p \<le> 1000; s \<noteq> []\<rbrakk> \<Longrightarrow>
     impl_ok nocase p s (stringmatchlen_impl p s nocase False nesting)"
proof (induction "length p" arbitrary: p s nesting rule: less_induct)
  case less
  note unf = stringmatchlen_impl.simps [of p s nocase False nesting]
  consider (nil) "p = []" | (star) "p \<noteq> []" "hd p = CHR ''*''" | (one) "p \<noteq> []" "hd p \<noteq> CHR ''*''"
    by blast
  then show ?case
  proof cases
    case nil
    with less.prems show ?thesis by (auto simp: stringmatchlen_impl.simps [of "[]"] impl_ok_def)
  next
    case star
    let ?q = "skip_stars p"
    note gl = glob_star [OF star, of nocase]
    have impl: "stringmatchlen_impl p s nocase False nesting
        = (if ?q = [] then (True, False) else star_loop ?q s nocase False nesting)"
      using star less.prems by (simp add: unf)
    show ?thesis
    proof (cases "?q = []")
      case True
      then have "glob nocase p s" unfolding gl(1) by (auto intro: exI [of _ "length s"])
      with True show ?thesis by (simp add: impl impl_ok_def)
    next
      case False
      then have "hd ?q \<noteq> CHR ''*''" unfolding skip_stars_def by (rule hd_dropWhile)
      with False less.hyps [OF skip_stars_shorter [OF star]] less.prems(1) gl(2)
      have "(fst (star_loop ?q s nocase False nesting) \<longleftrightarrow> \<not> no_later nocase ?q s)
          \<and> (snd (star_loop ?q s nocase False nesting) \<longrightarrow> no_later nocase ?q s)"
        by (intro star_loop_correct) simp_all
      moreover have "no_later nocase ?q s \<Longrightarrow> no_later nocase p s"
        unfolding gl(1) by (metis drop_drop)
      ultimately show ?thesis using False gl(1) by (auto simp: impl impl_ok_def)
    qed
  next
    case one
    obtain f q where t: "tokens nocase p = TOne f # tokens nocase q" and q: "length q < length p"
      and st: "\<And>s skip nesting. s \<noteq> [] \<Longrightarrow> nesting \<le> 1000 \<Longrightarrow>
         stringmatchlen_impl p s nocase skip nesting
           = (if f (hd s) then advance q (tl s) nocase skip nesting else (False, skip))"
      by (rule impl_nonstar [OF one, where nocase = nocase]) blast
    have step: "stringmatchlen_impl p s nocase False nesting
        = (if f (hd s) then advance q (tl s) nocase False nesting else (False, False))"
      using less.prems by (intro st) simp_all
    have "nesting + stars nocase q \<le> 1000" using less.prems(1) t by (simp add: stars_def)
    then have "impl_ok nocase q (tl s) (advance q (tl s) nocase False nesting)"
      using less.hyps [OF q] by (intro advance_correct) blast
    then show ?thesis unfolding step by (intro impl_ok_one [OF t less.prems(2)])
  qed
qed

lemma stringmatchlen_glob:
  assumes "stars nocase p \<le> 1000"
  shows "stringmatchlen p s nocase \<longleftrightarrow> (if s = [] then p = [] else glob nocase p s)"
  using impl_correct [of 0 nocase p s] assms
  by (cases "s = []") (simp_all add: stringmatchlen_def impl_ok_def stringmatchlen_impl.simps [of p "[]"])

section \<open>Patterns with one star\<close>

definition plain_char :: "char \<Rightarrow> bool" where
  "plain_char c \<longleftrightarrow> c \<noteq> CHR ''*'' \<and> c \<noteq> CHR ''?'' \<and> c \<noteq> CHR ''['' \<and> c \<noteq> CHR 0x5C"

lemma tokens_plain:
  "list_all plain_char cs \<Longrightarrow>
     tokens False (cs @ p) = map (\<lambda>c. TOne (\<lambda>ch. c = ch)) cs @ tokens False p"
  by (induction cs) (auto simp: plain_char_def char_matches_def)

lemma gmatch_plain:
  "gmatch (map (\<lambda>c. TOne (\<lambda>ch. c = ch)) cs @ ts) s \<longleftrightarrow> (\<exists>r. s = cs @ r \<and> gmatch ts r)"
proof (induction cs arbitrary: s)
  case (Cons c cs)
  then show ?case by (cases s) auto
qed simp

lemma glob_one_star:
  assumes "list_all plain_char xs" "list_all plain_char ys" "xs \<noteq> []"
  shows "stringmatchlen (xs @ ''*'' @ ys) s False \<longleftrightarrow> (\<exists>m. s = xs @ m @ ys)"
proof -
  have t: "tokens False (xs @ ''*'' @ ys)
      = map (\<lambda>c. TOne (\<lambda>ch. c = ch)) xs @ TStar # map (\<lambda>c. TOne (\<lambda>ch. c = ch)) ys"
    using assms tokens_plain [of ys "[]"] by (simp add: tokens_plain)
  have ys: "gmatch (map (\<lambda>c. TOne (\<lambda>ch. c = ch)) ys) r \<longleftrightarrow> r = ys" for r
    using gmatch_plain [of ys "[]" r] by simp
  have "stars False (xs @ ''*'' @ ys) = 1"
    unfolding stars_def t by (simp add: filter_empty_conv)
  then have "stringmatchlen (xs @ ''*'' @ ys) s False \<longleftrightarrow> s \<noteq> [] \<and> glob False (xs @ ''*'' @ ys) s"
    using assms(3) by (simp add: stringmatchlen_glob)
  also have "\<dots> \<longleftrightarrow> (\<exists>r. s = xs @ r \<and> (\<exists>k. drop k r = ys))"
    using assms(3) unfolding t gmatch_plain gmatch_star_iff ys by auto
  also have "\<dots> \<longleftrightarrow> (\<exists>m. s = xs @ m @ ys)"
    by (metis append_eq_conv_conj append_take_drop_id)
  finally show ?thesis .
qed

section \<open>The matcher and its reference\<close>



end
