(* ===== verification/Client.thy ===== *)
theory Client
  imports Glob
begin

text \<open>
  The boundary between the colouring clients and the server.

  \<^item> \<open>redis_cmd\<close> and \<open>redisReply\<close>: the commands the clients send with \<open>redisCommand\<close> and the
    reply objects hiredis hands back, with the fields the clients read (\<open>type\<close>, \<open>str\<close>,
    \<open>integer\<close>, \<open>elements\<close>).
  \<^item> \<open>exec_cmd\<close>: what the server promises for each command, over an abstract keyspace.
  \<^item> \<open>prog\<close>: a C function that talks to servers, as a tree of its interactions: it returns,
    stops with a crash, opens a connection, or sends a command and continues with the
    reply (\<open>None\<close> is the null pointer hiredis returns on a connection error). The same
    tree is run alone (\<open>run\<close>) or interleaved with others (theory \<open>Interleaving\<close>).
\<close>

section \<open>Commands and replies\<close>

datatype redis_cmd =
    GET string
  | SET string string
  | SMEMBERS string
  | KEYS string
  | WAIT string string
  | OTHER "string list"

datatype redisReply =
    RString string
  | RArray "redisReply list"
  | RInteger int
  | RNil
  | RStatus string
  | RError string

text \<open>The C string behind a \<open>char *\<close> that points into a reply ends at the first NUL.\<close>

definition cstr :: "string \<Rightarrow> string" where
  "cstr s = takeWhile (\<lambda>c. c \<noteq> CHR 0x00) s"

fun reply_str :: "redisReply \<Rightarrow> string option" where
  "reply_str (RString s) = Some (cstr s)"
| "reply_str (RStatus s) = Some (cstr s)"
| "reply_str (RError s) = Some (cstr s)"
| "reply_str _ = None"

fun reply_elements :: "redisReply \<Rightarrow> redisReply list" where
  "reply_elements (RArray xs) = xs"
| "reply_elements _ = []"

fun reply_integer :: "redisReply \<Rightarrow> int" where
  "reply_integer (RInteger i) = i"
| "reply_integer _ = 0"

text \<open>\<open>strdup(reply->element[i]->str)\<close> for every element: \<open>None\<close> when a \<open>str\<close> is null.\<close>

fun strdup_all :: "redisReply list \<Rightarrow> string list option" where
  "strdup_all [] = Some []"
| "strdup_all (r # rs) =
     (case reply_str r of None \<Rightarrow> None | Some s \<Rightarrow> map_option ((#) s) (strdup_all rs))"

lemma cstr_id [simp]: "CHR 0x00 \<notin> set s \<Longrightarrow> cstr s = s"
  by (auto simp: cstr_def takeWhile_eq_all_conv)

lemma strdup_all_RString [simp]:
  "list_all (\<lambda>s. CHR 0x00 \<notin> set s) xs \<Longrightarrow> strdup_all (map RString xs) = Some xs"
  by (induction xs) auto

section \<open>What the server promises\<close>

datatype obj = StrObj string | SetObj "string list" | OtherObj

type_synonym keyspace = "(string \<times> obj) list"

definition wrongtype :: redisReply where
  "wrongtype = RError ''WRONGTYPE Operation against a key holding the wrong kind of value''"

fun exec_cmd :: "redis_cmd \<Rightarrow> keyspace \<Rightarrow> redisReply \<times> keyspace" where
  "exec_cmd (GET k) db =
     (case map_of db k of None \<Rightarrow> RNil | Some (StrObj s) \<Rightarrow> RString s | Some _ \<Rightarrow> wrongtype, db)"
| "exec_cmd (SET k v) db = (RStatus ''OK'', AList.update k (StrObj v) db)"
| "exec_cmd (SMEMBERS k) db =
     (case map_of db k of None \<Rightarrow> RArray [] | Some (SetObj xs) \<Rightarrow> RArray (map RString xs)
        | Some _ \<Rightarrow> wrongtype, db)"
| "exec_cmd (KEYS p) db = (RArray (map RString (filter (\<lambda>k. stringmatchlen p k False) (map fst db))), db)"
| "exec_cmd (WAIT n t) db = (RInteger 0, db)"
| "exec_cmd (OTHER argv) db = (RError ''ERR unknown command'', db)"

section \<open>Programs that talk to servers\<close>

datatype 'a prog =
    Ret 'a
  | Crash crash
  | Connect string "bool \<Rightarrow> 'a prog"
  | Cmd redis_cmd "redisReply option \<Rightarrow> 'a prog"

primrec bindp :: "'a prog \<Rightarrow> ('a \<Rightarrow> 'b prog) \<Rightarrow> 'b prog" where
  "bindp (Ret x) f = f x"
| "bindp (Crash e) f = Crash e"
| "bindp (Connect h k) f = Connect h (\<lambda>b. bindp (k b) f)"
| "bindp (Cmd c k) f = Cmd c (\<lambda>r. bindp (k r) f)"

lemma bindp_assoc: "bindp (bindp m f) g = bindp m (\<lambda>x. bindp (f x) g)"
  by (induction m) auto

lemma bindp_Ret [simp]: "bindp m Ret = m"
  by (induction m) auto

definition lift_result :: "crash + 'a \<Rightarrow> 'a prog" where
  "lift_result r = (case r of Inl e \<Rightarrow> Crash e | Inr x \<Rightarrow> Ret x)"

section \<open>Running a program alone\<close>

text \<open>
  \<open>servers\<close>: the reachable hosts and their keyspaces; \<open>conn\<close>: the host of the current
  connection, \<open>None\<close> after a failed connect; \<open>answers\<close>: how many more commands the
  connection will answer, \<open>None\<close> for a connection that never breaks. A broken
  connection stays broken, as \<open>context->err\<close> does in hiredis.
\<close>

record world =
  servers :: "(string \<times> keyspace) list"
  conn :: "string option"
  answers :: "nat option"

definition redisConnect :: "string \<Rightarrow> world \<Rightarrow> bool \<times> world" where
  "redisConnect h w =
     (if h \<in> set (map fst (servers w)) then (True, w\<lparr>conn := Some h\<rparr>)
      else (False, w\<lparr>conn := None\<rparr>))"

definition redisCommand :: "redis_cmd \<Rightarrow> world \<Rightarrow> redisReply option \<times> world" where
  "redisCommand c w =
     (case conn w of
        None \<Rightarrow> (None, w)
      | Some h \<Rightarrow>
          (case map_of (servers w) h of
             None \<Rightarrow> (None, w)
           | Some db \<Rightarrow>
               if answers w = Some 0 then (None, w)
               else (case exec_cmd c db of
                       (r, db') \<Rightarrow>
                         (Some r, w\<lparr>servers := AList.update h db' (servers w),
                                    answers := map_option (\<lambda>n. n - 1) (answers w)\<rparr>))))"

primrec run :: "'a prog \<Rightarrow> world \<Rightarrow> (crash + 'a) \<times> world" where
  "run (Ret x) w = (Inr x, w)"
| "run (Crash e) w = (Inl e, w)"
| "run (Connect h k) w = (let r = redisConnect h w in run (k (fst r)) (snd r))"
| "run (Cmd c k) w = (let r = redisCommand c w in run (k (fst r)) (snd r))"

lemma run_bindp:
  "run (bindp m f) w = (case run m w of (Inl e, w') \<Rightarrow> (Inl e, w') | (Inr x, w') \<Rightarrow> run (f x) w')"
  by (induction m arbitrary: w) (auto simp: Let_def)

text \<open>Running against one server that always answers.\<close>

primrec exec :: "'a prog \<Rightarrow> keyspace \<Rightarrow> (crash + 'a) \<times> keyspace" where
  "exec (Ret x) db = (Inr x, db)"
| "exec (Crash e) db = (Inl e, db)"
| "exec (Connect h k) db = exec (k True) db"
| "exec (Cmd c k) db = (let r = exec_cmd c db in exec (k (Some (fst r))) (snd r))"

lemma exec_bindp:
  "exec (bindp m f) db =
     (case exec m db of (Inl e, db') \<Rightarrow> (Inl e, db') | (Inr x, db') \<Rightarrow> exec (f x) db')"
  by (induction m arbitrary: db) (auto simp: Let_def)

text \<open>Programs without reconnects: \<open>run\<close> on a healthy connection is \<open>exec\<close>.\<close>

primrec no_connect :: "'a prog \<Rightarrow> bool" where
  "no_connect (Ret x) = True"
| "no_connect (Crash e) = True"
| "no_connect (Connect h k) = False"
| "no_connect (Cmd c k) = (\<forall>r. no_connect (k r))"

lemma no_connect_bindp: "no_connect m \<Longrightarrow> (\<And>x. no_connect (f x)) \<Longrightarrow> no_connect (bindp m f)"
  by (induction m) auto

lemma run_exec:
  assumes "no_connect m" "conn w = Some h" "map_of (servers w) h = Some db" "answers w = None"
  shows "fst (run m w) = fst (exec m db)
    \<and> map_of (servers (snd (run m w))) h = Some (snd (exec m db))
    \<and> (\<forall>h'. h' \<noteq> h \<longrightarrow> map_of (servers (snd (run m w))) h' = map_of (servers w) h')
    \<and> conn (snd (run m w)) = Some h \<and> answers (snd (run m w)) = None"
  using assms
proof (induction m arbitrary: w db)
  case (Cmd c k)
  obtain r db' where r: "exec_cmd c db = (r, db')" by fastforce
  let ?w = "w\<lparr>servers := AList.update h db' (servers w), answers := None\<rparr>"
  have "redisCommand c w = (Some r, ?w)"
    using Cmd.prems r by (simp add: redisCommand_def)
  moreover have "map_of (servers ?w) h = Some db'" by simp
  ultimately show ?case
    using Cmd.IH [OF rangeI, of "Some r" ?w db'] Cmd.prems r by (simp add: Let_def)
qed auto

end
