(* ===== verification/Color_1server.thy ===== *)
theory Color_1server
  imports Client
begin

text \<open>
  \<open>color/1server/color.c\<close>: the colouring client for one server. Every function of the file
  that computes or talks to the server is a definition here, in the order of the file;
  text written to \<open>stdout\<close> and \<open>stderr\<close> is left out. Allocation is taken to succeed for
  every size that the types can express.

  A neighbour list, a colour list and the array of locks are lists; \<open>malloc\<close> leaves the
  array of locks with arbitrary contents, which is the argument \<open>fresh_locks\<close>. The waiting
  loop of \<open>acquire_lock\<close> may spin for ever and takes a bound on its iterations.
\<close>

section \<open>Choosing a colour\<close>

record ClientGraphPetersonLock =
  lock_key_1 :: string
  lock_key_2 :: string
  turn_key :: string
  node_name :: string

text \<open>The two loops over \<open>usedValues\<close>.\<close>

fun mark_used :: "int list \<Rightarrow> int \<Rightarrow> int \<Rightarrow> int list \<Rightarrow> int list" where
  "mark_used [] lowerBound upperBound usedValues = usedValues"
| "mark_used (a # arr) lowerBound upperBound usedValues =
     mark_used arr lowerBound upperBound
       (if a \<ge> lowerBound \<and> a \<le> upperBound then usedValues[nat (a - lowerBound) := 1] else usedValues)"

function first_unused :: "int list \<Rightarrow> int \<Rightarrow> int \<Rightarrow> int \<Rightarrow> int option" where
  "first_unused usedValues lowerBound upperBound i =
     (if i \<le> upperBound
      then if usedValues ! nat (i - lowerBound) = 0 then Some i
           else first_unused usedValues lowerBound upperBound (i + 1)
      else None)"
  by pat_completeness auto
termination
  by (relation "measure (\<lambda>(u, l, h, i). nat (h + 1 - i))") auto

declare first_unused.simps [simp del]

text \<open>
  The array length argument of the C function is the length of the list. \<open>calloc\<close> of a
  negative range asks for more bytes than exist and returns null.
\<close>

function getMinimalValueNotInArray :: "int list \<Rightarrow> int \<Rightarrow> int \<Rightarrow> crash + int" where
  "getMinimalValueNotInArray arr lowerBound upperBound =
     (let range = upperBound - lowerBound + 1
      in if \<not> in_int (upperBound - lowerBound) \<or> \<not> in_int range then Inl SignedOverflow
         else if range < 0 then Inl ExitFailure
         else
           (let usedValues = mark_used arr lowerBound upperBound (replicate (nat range) 0)
            in case first_unused usedValues lowerBound upperBound lowerBound of
                 Some i \<Rightarrow> Inr i
               | None \<Rightarrow>
                   (let upperBound' = upperBound + int (length arr) + 1
                    in if in_int upperBound'
                       then getMinimalValueNotInArray arr lowerBound upperBound'
                       else Inl SignedOverflow)))"
  by pat_completeness auto
termination
  by (relation "measure (\<lambda>(arr, l, h). nat (INT_MAX + 1 - h))") (auto simp: in_int_def)

declare getMinimalValueNotInArray.simps [simp del]

section \<open>The lock of an edge\<close>

text \<open>
  The condition of the waiting loop: \<open>other_flag->str != NULL\<close>, it is \<open>"1"\<close>, and the turn
  is this node. A null reply is dereferenced; a null \<open>str\<close> of the turn reaches \<open>strcmp\<close>.
\<close>

definition wait_condition ::
    "redisReply option \<Rightarrow> redisReply option \<Rightarrow> ClientGraphPetersonLock \<Rightarrow> crash + bool" where
  "wait_condition other_flag turn_var_new lock =
     (case other_flag of
        None \<Rightarrow> Inl NullDeref
      | Some f \<Rightarrow>
          (case reply_str f of
             None \<Rightarrow> Inr False
           | Some s \<Rightarrow>
               if s \<noteq> ''1'' then Inr False
               else
                 (case turn_var_new of
                    None \<Rightarrow> Inl NullDeref
                  | Some t \<Rightarrow>
                      (case reply_str t of
                         None \<Rightarrow> Inl NullDeref
                       | Some u \<Rightarrow> Inr (u = node_name lock)))))"

fun wait_loop ::
    "nat \<Rightarrow> ClientGraphPetersonLock \<Rightarrow> redisReply option \<Rightarrow> redisReply option \<Rightarrow> unit prog" where
  "wait_loop fuel lock other_flag turn_var_new =
     (case wait_condition other_flag turn_var_new lock of
        Inl e \<Rightarrow> Crash e
      | Inr False \<Rightarrow> Ret ()
      | Inr True \<Rightarrow>
          (case fuel of
             0 \<Rightarrow> Crash OutOfFuel
           | Suc fuel' \<Rightarrow>
               Cmd (GET (turn_key lock)) (\<lambda>turn_var_new'.
               Cmd (GET (lock_key_2 lock)) (\<lambda>other_flag'.
                 wait_loop fuel' lock other_flag' turn_var_new'))))"

declare wait_loop.simps [simp del]

definition acquire_lock :: "nat \<Rightarrow> ClientGraphPetersonLock \<Rightarrow> unit prog" where
  "acquire_lock fuel lock =
     Cmd (SET (lock_key_1 lock) ''1'') (\<lambda>my_flag.
     Cmd (SET (turn_key lock) (node_name lock)) (\<lambda>turn_var.
     Cmd (GET (lock_key_2 lock)) (\<lambda>other_flag.
     Cmd (GET (turn_key lock)) (\<lambda>turn_var_new.
       wait_loop fuel lock other_flag turn_var_new))))"

definition release_lock :: "ClientGraphPetersonLock \<Rightarrow> unit prog" where
  "release_lock lock = Cmd (SET (lock_key_1 lock) ''0'') (\<lambda>reply. Ret ())"

section \<open>Neighbours and colours\<close>

text \<open>\<open>None\<close> is the null pointer; otherwise the list, whose length is the count.\<close>

definition get_all_neighbours :: "string \<Rightarrow> string list option prog" where
  "get_all_neighbours nn =
     Cmd (SMEMBERS (snprintf 256 (nn @ ''_neighbours''))) (\<lambda>reply.
       case reply of
         None \<Rightarrow> Ret None
       | Some r \<Rightarrow>
           (case r of
              RArray es \<Rightarrow>
                (case strdup_all es of
                   None \<Rightarrow> Crash NullDeref
                 | Some neighbor_list \<Rightarrow> Ret (Some neighbor_list))
            | _ \<Rightarrow> Ret None))"

definition compare_neighbours :: "string \<Rightarrow> string \<Rightarrow> int" where
  "compare_neighbours a b = int_cast (atoi a - atoi b)"

definition sort_neighbours :: "string list \<Rightarrow> string list" where
  "sort_neighbours neighbour_list = qsort compare_neighbours neighbour_list"

definition get_node_color :: "string \<Rightarrow> int prog" where
  "get_node_color nn =
     Cmd (GET (snprintf 256 (''node_'' @ nn @ ''_color''))) (\<lambda>reply.
       case reply of
         None \<Rightarrow> Ret (-1)
       | Some r \<Rightarrow>
           if r = RNil then Ret (-1)
           else (case reply_str r of None \<Rightarrow> Crash NullDeref | Some s \<Rightarrow> Ret (atoi s)))"

text \<open>\<open>last\<close> and \<open>first\<close> delimit the task's own node ids.\<close>

fun boundary_loop :: "redisReply list \<Rightarrow> int \<Rightarrow> int \<Rightarrow> crash + int" where
  "boundary_loop [] last_id first_id = Inr 0"
| "boundary_loop (e # es) last_id first_id =
     (case reply_str e of
        None \<Rightarrow> Inl NullDeref
      | Some s \<Rightarrow>
          let nbr_id_int = atoi s
          in if nbr_id_int < first_id \<or> nbr_id_int > last_id then Inr 1
             else boundary_loop es last_id first_id)"

definition check_boundary_node :: "string \<Rightarrow> int \<Rightarrow> int \<Rightarrow> int prog" where
  "check_boundary_node nn last_id first_id =
     Cmd (SMEMBERS (snprintf 256 (nn @ ''_neighbours''))) (\<lambda>reply.
       case reply of
         None \<Rightarrow> Crash NullDeref
       | Some r \<Rightarrow> lift_result (boundary_loop (reply_elements r) last_id first_id))"

definition set_node_color :: "string \<Rightarrow> int \<Rightarrow> unit prog" where
  "set_node_color nn color =
     (let key = snprintf 256 (nn @ ''_color'');
          color_str = snprintf 10 (fmt_d color)
      in Cmd (SET key color_str) (\<lambda>reply. Ret ()))"

definition get_node_id :: "string \<Rightarrow> int" where
  "get_node_id nn =
     (let prefix = ''node_''
      in if \<not> starts_with nn prefix then -1 else atoi (drop (length prefix) nn))"

definition extract_number_from_string :: "string \<Rightarrow> string option" where
  "extract_number_from_string str =
     (case strchr str CHR ''_'' of
        None \<Rightarrow> None
      | Some underscore_pos \<Rightarrow> Some (drop 1 underscore_pos))"

definition get_status :: "string \<Rightarrow> int prog" where
  "get_status nn =
     Cmd (GET (snprintf 256 (''node_'' @ nn @ ''_status''))) (\<lambda>reply.
       case reply of
         None \<Rightarrow> Ret 0
       | Some r \<Rightarrow> (case r of RString s \<Rightarrow> Ret (atoi (cstr s)) | _ \<Rightarrow> Ret 0))"

text \<open>The lock that node \<open>char_node\<close> uses against \<open>nbr_id\<close>.\<close>

definition make_lock :: "int \<Rightarrow> int \<Rightarrow> string \<Rightarrow> string \<Rightarrow> ClientGraphPetersonLock" where
  "make_lock nbr_id_int node_id_int nbr_id char_node =
     (let bothId = (if nbr_id_int < node_id_int
                    then snprintf 64 (nbr_id @ ''_'' @ char_node)
                    else snprintf 64 (char_node @ ''_'' @ nbr_id))
      in \<lparr>lock_key_1 = snprintf 128 (''flag_'' @ bothId @ ''_'' @ char_node),
          lock_key_2 = snprintf 128 (''flag_'' @ bothId @ ''_'' @ nbr_id),
          turn_key = snprintf 128 (''turn_'' @ bothId),
          node_name = snprintf 128 char_node\<rparr>)"

text \<open>
  One pass of the loop stores a lock at the neighbour's own index when it takes one, and
  the neighbour's colour. \<open>nbr\<close> is the loop counter.
\<close>

fun read_color_of_neighbors ::
    "nat \<Rightarrow> string \<Rightarrow> int \<Rightarrow> int \<Rightarrow> string list \<Rightarrow> nat \<Rightarrow> int list \<Rightarrow> ClientGraphPetersonLock list
     \<Rightarrow> (int list \<times> ClientGraphPetersonLock list) prog" where
  "read_color_of_neighbors fuel node_id first_id last_id [] nbr nbr_color_list locks_array =
     Ret (nbr_color_list, locks_array)"
| "read_color_of_neighbors fuel node_id first_id last_id (nbr_id # rest) nbr nbr_color_list locks_array =
     (let nbr_id_int = atoi nbr_id;
          node_id_int = get_node_id node_id;
          char_node = extract_number_from_string node_id;
          take_color = (\<lambda>locks.
            bindp (get_node_color nbr_id) (\<lambda>nbr_color.
              read_color_of_neighbors fuel node_id first_id last_id rest (Suc nbr)
                (nbr_color_list @ [nbr_color]) locks))
      in if nbr_id_int < first_id \<or> nbr_id_int > last_id then
           bindp (get_status nbr_id) (\<lambda>status.
             if status = 0 then
               (let lock = make_lock nbr_id_int node_id_int nbr_id (fmt_s char_node)
                in if nbr < length locks_array
                   then bindp (acquire_lock fuel lock) (\<lambda>_. take_color (locks_array[nbr := lock]))
                   else Crash OutOfBounds)
             else take_color locks_array)
         else take_color locks_array)"

definition set_status :: "string \<Rightarrow> unit prog" where
  "set_status nn = Cmd (SET (snprintf 256 (nn @ ''_status'')) ''1'') (\<lambda>reply. Ret ())"

fun release_all :: "ClientGraphPetersonLock list \<Rightarrow> unit prog" where
  "release_all [] = Ret ()"
| "release_all (lock # locks) = bindp (release_lock lock) (\<lambda>_. release_all locks)"

text \<open>
  \<open>fresh_locks n\<close> is what \<open>malloc\<close> returns for the lock array of \<open>n\<close> entries. The loop at
  the end releases every entry of the array, whether or not a lock was stored there.
\<close>

definition process_node ::
    "nat \<Rightarrow> (nat \<Rightarrow> ClientGraphPetersonLock) \<Rightarrow> string \<Rightarrow> int \<Rightarrow> int \<Rightarrow> unit prog" where
  "process_node fuel fresh_locks nn first_id last_id =
     bindp (get_all_neighbours nn) (\<lambda>nl.
     bindp (check_boundary_node nn last_id first_id) (\<lambda>boundary_node.
       let neighbour_list = sort_neighbours (case nl of None \<Rightarrow> [] | Some l \<Rightarrow> l);
           neighbour_count = length neighbour_list;
           locks_array = map fresh_locks [0..<neighbour_count]
       in bindp (read_color_of_neighbors fuel nn first_id last_id neighbour_list 0 [] locks_array)
          (\<lambda>(nbr_color_list, locks).
          bindp (lift_result (getMinimalValueNotInArray nbr_color_list 0 1000)) (\<lambda>new_color.
          bindp (set_node_color nn new_color) (\<lambda>_.
          bindp (set_status nn) (\<lambda>_.
            release_all locks))))))"

section \<open>The task\<close>

text \<open>\<open>atoi(strchr(key, '_') + 1)\<close>; the null pointer when there is no underscore.\<close>

definition key_number :: "string \<Rightarrow> int option" where
  "key_number key = map_option (\<lambda>r. atoi (drop 1 r)) (strchr key CHR ''_'')"

definition compare_keys :: "string \<Rightarrow> string \<Rightarrow> int" where
  "compare_keys a b = int_cast (the (key_number a) - the (key_number b))"

definition sort_keys :: "string list \<Rightarrow> crash + string list" where
  "sort_keys keys =
     (if length keys \<ge> 2 \<and> (\<exists>k \<in> set keys. key_number k = None) then Inl NullDeref
      else Inr (qsort compare_keys keys))"

definition fetch_keys :: "string \<Rightarrow> string list option prog" where
  "fetch_keys pattern =
     Cmd (KEYS pattern) (\<lambda>reply.
       case reply of
         Some (RArray es) \<Rightarrow>
           (case strdup_all es of
              None \<Rightarrow> Crash NullDeref
            | Some ks \<Rightarrow> bindp (lift_result (sort_keys (map (cut_at ''_neighbours'') ks))) (\<lambda>s. Ret (Some s)))
       | _ \<Rightarrow> Ret None)"

definition set_status_to_monitor :: "string \<Rightarrow> unit prog" where
  "set_status_to_monitor hostname =
     Cmd (SET (snprintf 256 (hostname @ ''_status'')) ''1'') (\<lambda>reply. Ret ())"

text \<open>The loop of \<open>main\<close>: \<open>keys[i]\<close> for the ids of the task.\<close>

function process_nodes ::
    "nat \<Rightarrow> (nat \<Rightarrow> ClientGraphPetersonLock) \<Rightarrow> string list \<Rightarrow> int \<Rightarrow> int \<Rightarrow> int \<Rightarrow> unit prog" where
  "process_nodes fuel fresh_locks keys first_id last_id i =
     (if i \<le> last_id then
        if 0 \<le> i \<and> i < int (length keys)
        then bindp (process_node fuel fresh_locks (keys ! nat i) first_id last_id)
               (\<lambda>_. process_nodes fuel fresh_locks keys first_id last_id (i + 1))
        else Crash OutOfBounds
      else Ret ())"
  by pat_completeness auto
termination
  by (relation "measure (\<lambda>(f, l, k, a, b, i). nat (b + 1 - i))") auto

declare process_nodes.simps [simp del]

text \<open>
  \<open>argv\<close> without the terminating null pointer: \<open>argv[argc]\<close> is that null pointer. The
  result is the exit status.
\<close>

definition color_main :: "nat \<Rightarrow> (nat \<Rightarrow> ClientGraphPetersonLock) \<Rightarrow> string list \<Rightarrow> int prog" where
  "color_main fuel fresh_locks argv =
     (if length argv < 5 then Ret 1
      else
        let first_id = atoi (argv ! 1); last_id = atoi (argv ! 2); ip = argv ! 3;
            hostname = (if length argv > 5 then Some (argv ! 5) else None)
        in if first_id > last_id then Ret 1
           else
             Connect ip (\<lambda>ok.
               if \<not> ok then Ret 1
               else
                 bindp (fetch_keys ''node_*_neighbours'') (\<lambda>keys.
                   if keys = None \<or> keys = Some [] then Ret 1
                   else
                     bindp (process_nodes fuel fresh_locks (the keys) first_id last_id first_id) (\<lambda>_.
                     Connect ''lhotse102'' (\<lambda>_.
                       bindp (set_status_to_monitor (fmt_s hostname)) (\<lambda>_. Ret 0))))))"

end
