(* ===== verification/Color_sync.thy ===== *)
theory Color_sync
  imports Color_1server
begin

text \<open>
  \<open>color/sync/color.c\<close>: the colouring client that waits for replicas. It differs from
  \<open>color/1server/color.c\<close> in \<open>write_with_wait\<close>, which every write goes through, in the
  range check of \<open>getMinimalValueNotInArray\<close>, in \<open>set_node_color\<close>, which also writes the
  status, and in the lock array, which is filled from the front and released only up to
  \<open>num_locks\<close>. Functions that the two files share are written out again here and shown
  equal to those of \<open>Color_1server\<close>. The functions that only append a time stamp to a log
  (\<open>log_read\<close>, \<open>log_wait\<close>, \<open>log_write_start\<close>, \<open>log_write_end\<close>) are left out, and the
  formatted time of \<open>set_status_to_monitor\<close> is an argument.
\<close>

section \<open>Choosing a colour\<close>

function getMinimalValueNotInArray :: "int list \<Rightarrow> int \<Rightarrow> int \<Rightarrow> crash + int" where
  "getMinimalValueNotInArray arr lowerBound upperBound =
     (let range = upperBound - lowerBound + 1
      in if \<not> in_int (upperBound - lowerBound) \<or> \<not> in_int range then Inl SignedOverflow
         else if range \<le> 0 then Inl ExitFailure
         else
           (let usedValues = mark_used arr lowerBound upperBound (replicate (nat range) 0)
            in case first_unused usedValues lowerBound upperBound lowerBound of
                 Some i \<Rightarrow> Inr i
               | None \<Rightarrow>
                   (let upperBound' = upperBound + int (length arr) + 1
                    in if in_int upperBound'
                       then getMinimalValueNotInArray arr lowerBound upperBound'
                       else Inl SignedOverflow)))"
  by pat_completeness auto
termination
  by (relation "measure (\<lambda>(arr, l, h). nat (INT_MAX + 1 - h))") (auto simp: in_int_def)

declare getMinimalValueNotInArray.simps [simp del]

section \<open>Writes that wait for replicas\<close>

text \<open>The format \<open>"%s %s %s"\<close> with the command name as its first word.\<close>

definition format_command :: "string \<Rightarrow> string \<Rightarrow> string \<Rightarrow> redis_cmd" where
  "format_command command_name key val =
     (if command_name = ''SET'' then SET key val else OTHER [command_name, key, val])"

fun write_loop :: "nat \<Rightarrow> int \<Rightarrow> string \<Rightarrow> string \<Rightarrow> redis_cmd \<Rightarrow> unit prog" where
  "write_loop fuel required required_replicas timeout_ms command =
     Cmd command (\<lambda>reply.
       case reply of
         None \<Rightarrow> Ret ()
       | Some _ \<Rightarrow>
           Cmd (WAIT required_replicas timeout_ms) (\<lambda>reply'.
             case reply' of
               None \<Rightarrow> Ret ()
             | Some r \<Rightarrow>
                 let acknowledged_replicas = int_cast (reply_integer r)
                 in if acknowledged_replicas < required then
                      (case fuel of
                         0 \<Rightarrow> Crash OutOfFuel
                       | Suc fuel' \<Rightarrow> write_loop fuel' required required_replicas timeout_ms command)
                    else Ret ()))"

declare write_loop.simps [simp del]

text \<open>The result of the C function is null on every path.\<close>

definition write_with_wait ::
    "nat \<Rightarrow> string option \<Rightarrow> string \<Rightarrow> string \<Rightarrow> string \<Rightarrow> string \<Rightarrow> unit prog" where
  "write_with_wait fuel required_replicas timeout_ms command_name key val =
     (case required_replicas of
        None \<Rightarrow> Crash NullDeref
      | Some rr \<Rightarrow> write_loop fuel (atoi rr) rr timeout_ms (format_command command_name key val))"

section \<open>The lock of an edge\<close>

fun wait_loop ::
    "nat \<Rightarrow> ClientGraphPetersonLock \<Rightarrow> redisReply option \<Rightarrow> redisReply option \<Rightarrow> unit prog" where
  "wait_loop fuel lock other_flag turn_var_new =
     (case wait_condition other_flag turn_var_new lock of
        Inl e \<Rightarrow> Crash e
      | Inr False \<Rightarrow> Ret ()
      | Inr True \<Rightarrow>
          (case fuel of
             0 \<Rightarrow> Crash OutOfFuel
           | Suc fuel' \<Rightarrow>
               Cmd (GET (turn_key lock)) (\<lambda>turn_var_new'.
               Cmd (GET (lock_key_2 lock)) (\<lambda>other_flag'.
                 wait_loop fuel' lock other_flag' turn_var_new'))))"

declare wait_loop.simps [simp del]

definition acquire_lock ::
    "nat \<Rightarrow> ClientGraphPetersonLock \<Rightarrow> string option \<Rightarrow> string \<Rightarrow> unit prog" where
  "acquire_lock fuel lock num_of_replicas timeout =
     bindp (write_with_wait fuel num_of_replicas timeout ''SET'' (lock_key_1 lock) ''1'') (\<lambda>_.
     bindp (write_with_wait fuel num_of_replicas timeout ''SET'' (turn_key lock) (node_name lock)) (\<lambda>_.
     Cmd (GET (lock_key_2 lock)) (\<lambda>other_flag.
     Cmd (GET (turn_key lock)) (\<lambda>turn_var_new.
       wait_loop fuel lock other_flag turn_var_new))))"

definition release_lock ::
    "nat \<Rightarrow> ClientGraphPetersonLock \<Rightarrow> string option \<Rightarrow> string \<Rightarrow> unit prog" where
  "release_lock fuel lock num_of_replicas timeout =
     write_with_wait fuel num_of_replicas timeout ''SET'' (lock_key_1 lock) ''0''"

section \<open>Neighbours and colours\<close>

definition get_all_neighbours :: "string \<Rightarrow> string list option prog" where
  "get_all_neighbours nn =
     Cmd (SMEMBERS (snprintf 256 (nn @ ''_neighbours''))) (\<lambda>reply.
       case reply of
         None \<Rightarrow> Ret None
       | Some r \<Rightarrow>
           (case r of
              RArray es \<Rightarrow>
                (case strdup_all es of
                   None \<Rightarrow> Crash NullDeref
                 | Some neighbor_list \<Rightarrow> Ret (Some neighbor_list))
            | _ \<Rightarrow> Ret None))"

definition compare_neighbours :: "string \<Rightarrow> string \<Rightarrow> int" where
  "compare_neighbours a b = int_cast (atoi a - atoi b)"

definition sort_neighbours :: "string list \<Rightarrow> string list" where
  "sort_neighbours neighbour_list = qsort compare_neighbours neighbour_list"

definition get_node_color :: "string \<Rightarrow> int prog" where
  "get_node_color nn =
     Cmd (GET (snprintf 256 (''node_'' @ nn @ ''_color''))) (\<lambda>reply.
       case reply of
         None \<Rightarrow> Ret (-1)
       | Some r \<Rightarrow>
           if r = RNil then Ret (-1)
           else (case reply_str r of None \<Rightarrow> Crash NullDeref | Some s \<Rightarrow> Ret (atoi s)))"

fun boundary_loop :: "redisReply list \<Rightarrow> int \<Rightarrow> int \<Rightarrow> crash + int" where
  "boundary_loop [] last_id first_id = Inr 0"
| "boundary_loop (e # es) last_id first_id =
     (case reply_str e of
        None \<Rightarrow> Inl NullDeref
      | Some s \<Rightarrow>
          let nbr_id_int = atoi s
          in if nbr_id_int < first_id \<or> nbr_id_int > last_id then Inr 1
             else boundary_loop es last_id first_id)"

definition check_boundary_node :: "string \<Rightarrow> int \<Rightarrow> int \<Rightarrow> int prog" where
  "check_boundary_node nn last_id first_id =
     Cmd (SMEMBERS (snprintf 256 (nn @ ''_neighbours''))) (\<lambda>reply.
       case reply of
         None \<Rightarrow> Crash NullDeref
       | Some r \<Rightarrow> lift_result (boundary_loop (reply_elements r) last_id first_id))"

definition set_node_color :: "nat \<Rightarrow> string \<Rightarrow> int \<Rightarrow> string option \<Rightarrow> string \<Rightarrow> unit prog" where
  "set_node_color fuel nn color num_of_replicas timeout =
     (let key = snprintf 256 (nn @ ''_color'');
          color_str = snprintf 10 (fmt_d color);
          status = snprintf 256 (nn @ ''_status'')
      in bindp (write_with_wait fuel num_of_replicas timeout ''SET'' key color_str) (\<lambda>reply.
         bindp (write_with_wait fuel num_of_replicas timeout ''SET'' status ''1'') (\<lambda>status_reply.
           Ret ())))"

definition get_node_id :: "string \<Rightarrow> int" where
  "get_node_id nn =
     (let prefix = ''node_''
      in if \<not> starts_with nn prefix then -1 else atoi (drop (length prefix) nn))"

definition extract_number_from_string :: "string \<Rightarrow> string option" where
  "extract_number_from_string str =
     (case strchr str CHR ''_'' of
        None \<Rightarrow> None
      | Some underscore_pos \<Rightarrow> Some (drop 1 underscore_pos))"

definition get_status :: "string \<Rightarrow> int prog" where
  "get_status nn =
     Cmd (GET (snprintf 256 (''node_'' @ nn @ ''_status''))) (\<lambda>reply.
       case reply of
         None \<Rightarrow> Ret 0
       | Some r \<Rightarrow> (case r of RString s \<Rightarrow> Ret (atoi (cstr s)) | _ \<Rightarrow> Ret 0))"

definition make_lock :: "int \<Rightarrow> int \<Rightarrow> string \<Rightarrow> string \<Rightarrow> ClientGraphPetersonLock" where
  "make_lock nbr_id_int node_id_int nbr_id char_node =
     (let bothId = (if nbr_id_int < node_id_int
                    then snprintf 64 (nbr_id @ ''_'' @ char_node)
                    else snprintf 64 (char_node @ ''_'' @ nbr_id))
      in \<lparr>lock_key_1 = snprintf 128 (''flag_'' @ bothId @ ''_'' @ char_node),
          lock_key_2 = snprintf 128 (''flag_'' @ bothId @ ''_'' @ nbr_id),
          turn_key = snprintf 128 (''turn_'' @ bothId),
          node_name = snprintf 128 char_node\<rparr>)"

text \<open>
  One pass of the loop stores a lock at index \<open>num_locks\<close> when it takes one, and the
  neighbour's colour.
\<close>

fun read_color_of_neighbors ::
    "nat \<Rightarrow> string \<Rightarrow> int \<Rightarrow> int \<Rightarrow> string list \<Rightarrow> int list \<Rightarrow> ClientGraphPetersonLock list
     \<Rightarrow> string option \<Rightarrow> string \<Rightarrow> nat
     \<Rightarrow> (int list \<times> ClientGraphPetersonLock list \<times> nat) prog" where
  "read_color_of_neighbors fuel node_id first_id last_id [] nbr_color_list locks_array
     num_of_replicas timeout num_locks =
     Ret (nbr_color_list, locks_array, num_locks)"
| "read_color_of_neighbors fuel node_id first_id last_id (nbr_id # rest) nbr_color_list locks_array
     num_of_replicas timeout num_locks =
     (let nbr_id_int = atoi nbr_id;
          node_id_int = get_node_id node_id;
          char_node = extract_number_from_string node_id;
          take_color = (\<lambda>locks n.
            bindp (get_node_color nbr_id) (\<lambda>nbr_color.
              read_color_of_neighbors fuel node_id first_id last_id rest
                (nbr_color_list @ [nbr_color]) locks num_of_replicas timeout n))
      in if nbr_id_int < first_id \<or> nbr_id_int > last_id then
           bindp (get_status nbr_id) (\<lambda>status.
             if status = 0 then
               (let lock = make_lock nbr_id_int node_id_int nbr_id (fmt_s char_node)
                in if num_locks < length locks_array
                   then bindp (acquire_lock fuel lock num_of_replicas timeout)
                          (\<lambda>_. take_color (locks_array[num_locks := lock]) (Suc num_locks))
                   else Crash OutOfBounds)
             else take_color locks_array num_locks)
         else take_color locks_array num_locks)"

definition set_status :: "string \<Rightarrow> unit prog" where
  "set_status nn = Cmd (SET (snprintf 256 (nn @ ''_status'')) ''1'') (\<lambda>reply. Ret ())"

fun release_all ::
    "nat \<Rightarrow> ClientGraphPetersonLock list \<Rightarrow> string option \<Rightarrow> string \<Rightarrow> unit prog" where
  "release_all fuel [] num_of_replicas timeout = Ret ()"
| "release_all fuel (lock # locks) num_of_replicas timeout =
     bindp (release_lock fuel lock num_of_replicas timeout)
       (\<lambda>_. release_all fuel locks num_of_replicas timeout)"

text \<open>The loop at the end releases the first \<open>num_locks\<close> entries of the array.\<close>

definition process_node ::
    "nat \<Rightarrow> (nat \<Rightarrow> ClientGraphPetersonLock) \<Rightarrow> string \<Rightarrow> int \<Rightarrow> int \<Rightarrow> string option \<Rightarrow> string
     \<Rightarrow> unit prog" where
  "process_node fuel fresh_locks nn first_id last_id num_of_replicas timeout =
     bindp (get_all_neighbours nn) (\<lambda>nl.
     bindp (check_boundary_node nn last_id first_id) (\<lambda>boundary_node.
       let neighbour_list = sort_neighbours (case nl of None \<Rightarrow> [] | Some l \<Rightarrow> l);
           neighbour_count = length neighbour_list;
           locks_array = map fresh_locks [0..<neighbour_count]
       in bindp (read_color_of_neighbors fuel nn first_id last_id neighbour_list [] locks_array
                   num_of_replicas timeout 0)
          (\<lambda>(nbr_color_list, locks, num_locks).
          bindp (lift_result (getMinimalValueNotInArray nbr_color_list 0 1000)) (\<lambda>new_color.
          bindp (set_node_color fuel nn new_color num_of_replicas timeout) (\<lambda>_.
            release_all fuel (take num_locks locks) num_of_replicas timeout)))))"

section \<open>The task\<close>

text \<open>\<open>atoi(strchr(key, '_') + 1)\<close>; the null pointer when there is no underscore.\<close>

definition key_number :: "string \<Rightarrow> int option" where
  "key_number key = map_option (\<lambda>r. atoi (drop 1 r)) (strchr key CHR ''_'')"

definition compare_keys :: "string \<Rightarrow> string \<Rightarrow> int" where
  "compare_keys a b = int_cast (the (key_number a) - the (key_number b))"

definition sort_keys :: "string list \<Rightarrow> crash + string list" where
  "sort_keys keys =
     (if length keys \<ge> 2 \<and> (\<exists>k \<in> set keys. key_number k = None) then Inl NullDeref
      else Inr (qsort compare_keys keys))"

definition fetch_keys :: "string \<Rightarrow> string list option prog" where
  "fetch_keys pattern =
     Cmd (KEYS pattern) (\<lambda>reply.
       case reply of
         Some (RArray es) \<Rightarrow>
           (case strdup_all es of
              None \<Rightarrow> Crash NullDeref
            | Some ks \<Rightarrow> bindp (lift_result (sort_keys (map (cut_at ''_neighbours'') ks))) (\<lambda>s. Ret (Some s)))
       | _ \<Rightarrow> Ret None)"

text \<open>\<open>time_str\<close> is the local time in the format \<open>%H:%M:%S\<close>, \<open>None\<close> when \<open>time\<close> fails.\<close>

definition set_status_to_monitor :: "string option \<Rightarrow> string \<Rightarrow> unit prog" where
  "set_status_to_monitor time_str hostname =
     (case time_str of
        None \<Rightarrow> Ret ()
      | Some t \<Rightarrow> Cmd (SET (snprintf 256 (hostname @ ''_status'')) t) (\<lambda>reply. Ret ()))"

function process_nodes ::
    "nat \<Rightarrow> (nat \<Rightarrow> ClientGraphPetersonLock) \<Rightarrow> string list \<Rightarrow> int \<Rightarrow> int \<Rightarrow> string option \<Rightarrow> string
     \<Rightarrow> int \<Rightarrow> unit prog" where
  "process_nodes fuel fresh_locks keys first_id last_id num_of_replicas timeout i =
     (if i \<le> last_id then
        if 0 \<le> i \<and> i < int (length keys)
        then bindp (process_node fuel fresh_locks (keys ! nat i) first_id last_id num_of_replicas timeout)
               (\<lambda>_. process_nodes fuel fresh_locks keys first_id last_id num_of_replicas timeout (i + 1))
        else Crash OutOfBounds
      else Ret ())"
  by pat_completeness auto
termination
  by (relation "measure (\<lambda>(f, l, k, a, b, n, t, i). nat (b + 1 - i))") auto

declare process_nodes.simps [simp del]

text \<open>
  \<open>argv[6]\<close> is read after the check \<open>argc < 5\<close>: with five words it lies past the null
  pointer that ends \<open>argv\<close>, with six it is that null pointer.
\<close>

definition color_main ::
    "nat \<Rightarrow> (nat \<Rightarrow> ClientGraphPetersonLock) \<Rightarrow> string option \<Rightarrow> string list \<Rightarrow> int prog" where
  "color_main fuel fresh_locks time_str argv =
     (if length argv < 5 then Ret 1
      else if length argv = 5 then Crash OutOfBounds
      else
        let first_id = atoi (argv ! 1); last_id = atoi (argv ! 2); ip = argv ! 3;
            hostname = argv ! 5;
            num_of_replicas = (if length argv > 6 then Some (argv ! 6) else None);
            timeout = ''10000''
        in if first_id > last_id then Ret 1
           else
             Connect ip (\<lambda>ok.
               if \<not> ok then Ret 1
               else
                 bindp (fetch_keys ''node_*_neighbours'') (\<lambda>keys.
                   if keys = None \<or> keys = Some [] then Ret 1
                   else
                     bindp (process_nodes fuel fresh_locks (the keys) first_id last_id
                              num_of_replicas timeout first_id) (\<lambda>_.
                     Connect ''lhotse102'' (\<lambda>_.
                       bindp (set_status_to_monitor time_str hostname) (\<lambda>_. Ret 0))))))"

section \<open>The functions both clients share\<close>

lemma wait_loop_same: "wait_loop = Color_1server.wait_loop"
proof (intro ext)
  fix fuel lock f t
  show "wait_loop fuel lock f t = Color_1server.wait_loop fuel lock f t"
    by (induction fuel arbitrary: f t)
      (simp_all add: wait_loop.simps Color_1server.wait_loop.simps split: sum.splits bool.splits)
qed

lemma boundary_loop_same: "boundary_loop = Color_1server.boundary_loop"
proof (intro ext)
  fix es l f
  show "boundary_loop es l f = Color_1server.boundary_loop es l f"
    by (induction es) (simp_all add: Let_def split: option.splits)
qed

lemma compare_neighbours_same: "compare_neighbours = Color_1server.compare_neighbours"
  by (intro ext) (simp add: compare_neighbours_def Color_1server.compare_neighbours_def)

lemma key_number_same: "key_number = Color_1server.key_number"
  by (intro ext) (simp add: key_number_def Color_1server.key_number_def)

lemma compare_keys_same: "compare_keys = Color_1server.compare_keys"
  by (intro ext) (simp add: compare_keys_def Color_1server.compare_keys_def key_number_same)

lemma getMinimal_same:
  assumes "lb \<le> ub"
  shows "getMinimalValueNotInArray arr lb ub = Color_1server.getMinimalValueNotInArray arr lb ub"
  using assms
proof (induction arr lb ub rule: Color_1server.getMinimalValueNotInArray.induct)
  case (1 arr lb ub)
  then show ?case
    by (subst getMinimalValueNotInArray.simps, subst Color_1server.getMinimalValueNotInArray.simps)
      (auto simp: Let_def split: option.splits)
qed

named_theorems sync_same \<open>functions of sync/color.c equal to those of 1server/color.c\<close>

declare wait_loop_same [sync_same] boundary_loop_same [sync_same]
  compare_neighbours_same [sync_same] key_number_same [sync_same] compare_keys_same [sync_same]

lemma shared_functions [sync_same]:
  "get_all_neighbours = Color_1server.get_all_neighbours"
  "sort_neighbours = Color_1server.sort_neighbours"
  "get_node_color = Color_1server.get_node_color"
  "check_boundary_node = Color_1server.check_boundary_node"
  "get_node_id = Color_1server.get_node_id"
  "extract_number_from_string = Color_1server.extract_number_from_string"
  "get_status = Color_1server.get_status"
  "make_lock = Color_1server.make_lock"
  "set_status = Color_1server.set_status"
  "sort_keys = Color_1server.sort_keys"
  unfolding fun_eq_iff get_all_neighbours_def Color_1server.get_all_neighbours_def
      sort_neighbours_def Color_1server.sort_neighbours_def compare_neighbours_same
      get_node_color_def Color_1server.get_node_color_def
      check_boundary_node_def Color_1server.check_boundary_node_def boundary_loop_same
      get_node_id_def Color_1server.get_node_id_def
      extract_number_from_string_def Color_1server.extract_number_from_string_def
      get_status_def Color_1server.get_status_def make_lock_def Color_1server.make_lock_def
      set_status_def Color_1server.set_status_def
      sort_keys_def Color_1server.sort_keys_def key_number_same compare_keys_same
  by simp_all

lemma fetch_keys_same [sync_same]: "fetch_keys = Color_1server.fetch_keys"
  unfolding fun_eq_iff fetch_keys_def Color_1server.fetch_keys_def shared_functions by simp

end
