(* ===== verification/Choice.thy ===== *)
theory Choice
  imports Color_sync
begin

text \<open>
  The colour choice of both clients: \<open>getMinimalValueNotInArray\<close> returns the least value
  from the lower bound on that the array does not hold, after at most one extension of the
  range.
\<close>

definition least_free :: "int list \<Rightarrow> int \<Rightarrow> int \<Rightarrow> bool" where
  "least_free arr lb v \<longleftrightarrow> lb \<le> v \<and> v \<notin> set arr \<and> (\<forall>w. lb \<le> w \<and> w < v \<longrightarrow> w \<in> set arr)"

lemma length_mark_used [simp]: "length (mark_used arr lb ub u) = length u"
  by (induction arr lb ub u rule: mark_used.induct) auto

lemma mark_used_nth:
  assumes "k < length u" "length u = nat (ub - lb + 1)"
  shows "mark_used arr lb ub u ! k = (if lb + int k \<in> set arr then 1 else u ! k)"
  using assms
proof (induction arr lb ub u rule: mark_used.induct)
  case (2 a arr lb ub u)
  show ?case
  proof (cases "a = lb + int k")
    case True
    with 2 show ?thesis by (auto simp: nat_le_iff)
  next
    case False
    then have "a \<ge> lb \<Longrightarrow> nat (a - lb) \<noteq> k" by auto
    with False 2 show ?thesis by (auto simp: nth_list_update)
  qed
qed simp

lemma first_unused_Some:
  assumes "first_unused u lb ub i = Some v"
  shows "i \<le> v \<and> v \<le> ub \<and> u ! nat (v - lb) = 0 \<and> (\<forall>w. i \<le> w \<and> w < v \<longrightarrow> u ! nat (w - lb) \<noteq> 0)"
  using assms
proof (induction u lb ub i rule: first_unused.induct)
  case (1 u lb ub i)
  show ?case
  proof (cases "i \<le> ub \<and> u ! nat (i - lb) \<noteq> 0")
    case True
    with "1.prems" have rec: "first_unused u lb ub (i + 1) = Some v"
      by (simp add: first_unused.simps [of u lb ub i])
    have split: "i \<le> w \<longleftrightarrow> w = i \<or> i + 1 \<le> w" for w by auto
    from "1.IH" [OF _ _ rec] True show ?thesis by (auto simp: split)
  next
    case False
    with "1.prems" show ?thesis by (auto simp: first_unused.simps [of u lb ub i] split: if_splits)
  qed
qed

lemma first_unused_None:
  "first_unused u lb ub i = None \<Longrightarrow> i \<le> w \<Longrightarrow> w \<le> ub \<Longrightarrow> u ! nat (w - lb) \<noteq> 0"
proof (induction u lb ub i rule: first_unused.induct)
  case (1 u lb ub i)
  have nz: "u ! nat (i - lb) \<noteq> 0" and rec: "first_unused u lb ub (i + 1) = None"
    using "1.prems" by (auto simp: first_unused.simps [of u lb ub i] split: if_splits)
  show ?case
  proof (cases "w = i")
    case False
    with "1.IH" [OF _ nz rec] "1.prems" show ?thesis by simp
  qed (use nz in simp)
qed

text \<open>One scan over a range: the least free value of the range, if it has one.\<close>

definition scan :: "int list \<Rightarrow> int \<Rightarrow> int \<Rightarrow> int option" where
  "scan arr lb ub = first_unused (mark_used arr lb ub (replicate (nat (ub - lb + 1)) 0)) lb ub lb"

lemma scan_used:
  assumes "lb \<le> w" "w \<le> ub"
  shows "mark_used arr lb ub (replicate (nat (ub - lb + 1)) 0) ! nat (w - lb)
    = (if w \<in> set arr then 1 else 0)"
proof -
  have "nat (w - lb) < nat (ub - lb + 1)" using assms by auto
  then show ?thesis using assms by (simp add: mark_used_nth)
qed

lemma scan_Some:
  assumes "scan arr lb ub = Some v"
  shows "least_free arr lb v \<and> v \<le> ub"
proof -
  note fu = first_unused_Some [OF assms [unfolded scan_def]]
  have "v \<notin> set arr" using fu scan_used [of lb v ub arr] by (auto split: if_splits)
  moreover have "w \<in> set arr" if "lb \<le> w" "w < v" for w
    using that fu scan_used [of lb w ub arr] by (auto split: if_splits)
  ultimately show ?thesis using fu by (auto simp: least_free_def)
qed

lemma scan_None:
  assumes "scan arr lb ub = None" "lb \<le> ub"
  shows "ub - lb + 1 \<le> int (length arr)"
proof -
  have "{lb..ub} \<subseteq> set arr"
  proof
    fix w assume "w \<in> {lb..ub}"
    then show "w \<in> set arr"
      using first_unused_None [OF assms(1) [unfolded scan_def], of w] scan_used [of lb w ub arr]
      by (auto split: if_splits)
  qed
  then have "card {lb..ub} \<le> card (set arr)" by (intro card_mono) auto
  also have "\<dots> \<le> length arr" by (rule card_length)
  finally show ?thesis using assms(2) by auto
qed

lemma getMinimal_unfold:
  assumes "lb \<le> ub" "in_int lb" "ub - lb < INT_MAX"
  shows "Color_1server.getMinimalValueNotInArray arr lb ub =
    (case scan arr lb ub of
       Some v \<Rightarrow> Inr v
     | None \<Rightarrow> if in_int (ub + int (length arr) + 1)
               then Color_1server.getMinimalValueNotInArray arr lb (ub + int (length arr) + 1)
               else Inl SignedOverflow)"
proof -
  have "in_int (ub - lb)" "in_int (ub - lb + 1)" "\<not> ub - lb + 1 < 0"
    using assms by (auto simp: in_int_def INT_MIN_def INT_MAX_def)
  then show ?thesis
    unfolding scan_def
    by (subst Color_1server.getMinimalValueNotInArray.simps) (simp add: Let_def split: option.split)
qed

lemma least_free_bound:
  assumes "least_free arr lb v"
  shows "v \<le> lb + int (length arr)"
proof -
  have "{lb..<v} \<subseteq> set arr" using assms by (auto simp: least_free_def)
  then have "card {lb..<v} \<le> card (set arr)" by (intro card_mono) auto
  also have "\<dots> \<le> length arr" by (rule card_length)
  finally show ?thesis using assms by (auto simp: least_free_def)
qed

lemma getMinimal_correct:
  assumes "0 \<le> lb" "lb \<le> ub" "ub + int (length arr) + 1 < INT_MAX"
  obtains v where "Color_1server.getMinimalValueNotInArray arr lb ub = Inr v" "least_free arr lb v"
proof -
  have b: "in_int lb" "ub - lb < INT_MAX" "in_int (ub + int (length arr) + 1)"
    "ub + int (length arr) + 1 - lb < INT_MAX" "lb \<le> ub + int (length arr) + 1"
    using assms by (auto simp: in_int_def INT_MIN_def INT_MAX_def)
  show thesis
  proof (cases "scan arr lb ub")
    case (Some v)
    with getMinimal_unfold [OF assms(2) b(1,2)] scan_Some that show ?thesis by simp
  next
    case None
    obtain v where "scan arr lb (ub + int (length arr) + 1) = Some v"
      using scan_None [of arr lb "ub + int (length arr) + 1"] b(5) assms
      by (cases "scan arr lb (ub + int (length arr) + 1)") auto
    with None b getMinimal_unfold [OF assms(2) b(1,2)] getMinimal_unfold [OF b(5,1,4)]
      scan_Some that show ?thesis by simp
  qed
qed

lemma least_free_unique: "least_free arr lb v \<Longrightarrow> least_free arr lb v' \<Longrightarrow> v = v'"
  unfolding least_free_def by (metis linorder_less_linear)

text \<open>
  C5: for a lower bound that is not negative and a range that stays inside \<open>int\<close> when it is
  extended once by the array length plus one, \<open>getMinimalValueNotInArray\<close> of the one-server
  client returns (it neither exits, overflows nor recurses for ever), and what it returns is
  the least value from the lower bound on that is not in the array, at most the lower
  bound plus the array length.
\<close>

theorem getMinimalValueNotInArray_least:
  assumes "0 \<le> lowerBound" "lowerBound \<le> upperBound"
    and "upperBound + int (length arr) + 1 < INT_MAX"
  shows "\<exists>v. Color_1server.getMinimalValueNotInArray arr lowerBound upperBound = Inr v
    \<and> lowerBound \<le> v \<and> v \<notin> set arr \<and> (\<forall>w. lowerBound \<le> w \<and> w < v \<longrightarrow> w \<in> set arr)
    \<and> v \<le> lowerBound + int (length arr)"
proof -
  obtain v where v: "Color_1server.getMinimalValueNotInArray arr lowerBound upperBound = Inr v"
    "least_free arr lowerBound v" using getMinimal_correct [OF assms] by blast
  with least_free_bound [OF v(2)] show ?thesis by (auto simp: least_free_def)
qed

theorem getMinimalValueNotInArray_least_witness:
  "\<exists>v. Color_1server.getMinimalValueNotInArray [0, 1, 0, 3] 0 1 = Inr v
    \<and> 0 \<le> v \<and> v \<notin> set [0, 1, 0, 3] \<and> (\<forall>w. 0 \<le> w \<and> w < v \<longrightarrow> w \<in> set [0, 1, 0, 3])
    \<and> v \<le> 0 + int (length [0, 1, 0, 3 :: int])"
  by (rule getMinimalValueNotInArray_least) (simp_all add: INT_MAX_def)

lemma getMinimal_sync:
  assumes "0 \<le> lb" "lb \<le> ub" "ub + int (length arr) + 1 < INT_MAX"
  obtains v where "Color_sync.getMinimalValueNotInArray arr lb ub = Inr v" "least_free arr lb v"
  using getMinimal_correct [OF assms] getMinimal_same [OF assms(2), of arr] by metis

end
