(* ===== verification/Keys.thy ===== *)
theory Keys
  imports Choice
begin

text \<open>
  The names under which the clients keep a graph on the server, for node numbers that fit
  an \<open>int\<close>: the neighbour set, colour and status of a node, and the two flags and the turn of
  the lock of an edge. The lemmas show what the string functions of the clients compute on
  these names, and that different names are different strings: the keys of an edge
  collide with no other key the clients write.
\<close>

definition node_key :: "nat \<Rightarrow> string" where
  "node_key u = ''node_'' @ decimal u"

definition neighbours_key :: "nat \<Rightarrow> string" where
  "neighbours_key u = node_key u @ ''_neighbours''"

definition color_key :: "nat \<Rightarrow> string" where
  "color_key u = node_key u @ ''_color''"

definition status_key :: "nat \<Rightarrow> string" where
  "status_key u = node_key u @ ''_status''"

definition edge_id :: "nat \<Rightarrow> nat \<Rightarrow> string" where
  "edge_id u v = decimal (min u v) @ ''_'' @ decimal (max u v)"

text \<open>The flag that \<open>u\<close> raises against \<open>v\<close>.\<close>

definition flag_key :: "nat \<Rightarrow> nat \<Rightarrow> string" where
  "flag_key u v = ''flag_'' @ edge_id u v @ ''_'' @ decimal u"

definition edge_turn_key :: "nat \<Rightarrow> nat \<Rightarrow> string" where
  "edge_turn_key u v = ''turn_'' @ edge_id u v"

definition edge_lock :: "nat \<Rightarrow> nat \<Rightarrow> ClientGraphPetersonLock" where
  "edge_lock u v = \<lparr>lock_key_1 = flag_key u v, lock_key_2 = flag_key v u,
     turn_key = edge_turn_key u v, node_name = decimal u\<rparr>"

lemma edge_lock_simps [simp]:
  "lock_key_1 (edge_lock u v) = flag_key u v" "lock_key_2 (edge_lock u v) = flag_key v u"
  "turn_key (edge_lock u v) = edge_turn_key u v" "node_name (edge_lock u v) = decimal u"
  by (simp_all add: edge_lock_def)

lemmas key_defs = node_key_def neighbours_key_def color_key_def status_key_def
  edge_id_def flag_key_def edge_turn_key_def

definition node_num :: "nat \<Rightarrow> bool" where
  "node_num u \<longleftrightarrow> int u < INT_MAX"

section \<open>Different names\<close>

lemma decimal_underscore [simp]:
  "decimal a @ CHR ''_'' # s = decimal b @ CHR ''_'' # t \<longleftrightarrow> a = b \<and> s = t"
  using split_unique [of "decimal a" "CHR ''_''" s "decimal b" t] by auto

lemma node_keys_inject [simp]:
  "neighbours_key u = neighbours_key v \<longleftrightarrow> u = v"
  "color_key u = color_key v \<longleftrightarrow> u = v"
  "status_key u = status_key v \<longleftrightarrow> u = v"
  by (simp_all add: key_defs)

lemma min_max_eq: "min u v = min u' v' \<and> max u v = max u' v' \<longleftrightarrow> (u = u' \<and> v = v') \<or> (u = v' \<and> v = (u' :: nat))"
  by (auto simp: min_def max_def)

lemma edge_turn_key_inject [simp]:
  "edge_turn_key u v = edge_turn_key u' v' \<longleftrightarrow> (u = u' \<and> v = v') \<or> (u = v' \<and> v = u')"
  by (simp add: key_defs min_max_eq)

lemma flag_key_inject [simp]:
  "flag_key u v = flag_key u' v' \<longleftrightarrow> u = u' \<and> v = v'"
  by (auto simp: key_defs min_def max_def)

lemma keys_differ [simp]:
  "neighbours_key u \<noteq> color_key v" "color_key v \<noteq> neighbours_key u"
  "neighbours_key u \<noteq> status_key v" "status_key v \<noteq> neighbours_key u"
  "color_key u \<noteq> status_key v" "status_key v \<noteq> color_key u"
  "flag_key a b \<noteq> neighbours_key u" "neighbours_key u \<noteq> flag_key a b"
  "flag_key a b \<noteq> color_key u" "color_key u \<noteq> flag_key a b"
  "flag_key a b \<noteq> status_key u" "status_key u \<noteq> flag_key a b"
  "edge_turn_key a b \<noteq> neighbours_key u" "neighbours_key u \<noteq> edge_turn_key a b"
  "edge_turn_key a b \<noteq> color_key u" "color_key u \<noteq> edge_turn_key a b"
  "edge_turn_key a b \<noteq> status_key u" "status_key u \<noteq> edge_turn_key a b"
  "edge_turn_key a b \<noteq> flag_key c d" "flag_key c d \<noteq> edge_turn_key a b"
  by (simp_all add: key_defs)

section \<open>What the string functions compute on the names\<close>

lemma length_node_num: "node_num u \<Longrightarrow> length (decimal u) \<le> 10"
  using length_decimal [of u 10] by (simp add: node_num_def INT_MAX_def)

lemma atoi_node [simp]: "node_num u \<Longrightarrow> atoi (decimal u) = int u"
  by (simp add: node_num_def)

lemma nul_not_digit: "is_digit c \<Longrightarrow> c \<noteq> CHR 0x00"
  by (auto simp: is_digit_def)

lemma nul_not_decimal [simp]: "CHR 0x00 \<notin> set (decimal n)"
  using decimal_digits [of n] nul_not_digit by blast

lemma cstr_decimal [simp]: "cstr (decimal n) = decimal n"
  by simp

lemma snprintf_keys [simp]:
  assumes "node_num u"
  shows "snprintf 256 (node_key u @ ''_neighbours'') = neighbours_key u"
    and "snprintf 256 (node_key u @ ''_color'') = color_key u"
    and "snprintf 256 (node_key u @ ''_status'') = status_key u"
    and "snprintf 256 (''node_'' @ decimal u @ ''_color'') = color_key u"
    and "snprintf 256 (''node_'' @ decimal u @ ''_status'') = status_key u"
  using length_node_num [OF assms] by (simp_all add: key_defs)

lemmas snprintf_decimal_keys [simp] = snprintf_keys(4,5) [unfolded append_Cons append_Nil]

lemma get_node_id_node [simp]: "node_num u \<Longrightarrow> Color_1server.get_node_id (node_key u) = int u"
  by (simp add: Color_1server.get_node_id_def node_key_def starts_with_def)

lemma extract_number_node [simp]:
  "Color_1server.extract_number_from_string (node_key u) = Some (decimal u)"
  using strchr_prefix [of "CHR ''_''" "''node''" "decimal u"]
  by (simp add: Color_1server.extract_number_from_string_def node_key_def)

lemma make_lock_node:
  assumes "node_num u" "node_num v" "u \<noteq> v"
  shows "Color_1server.make_lock (int v) (int u) (decimal v) (decimal u) = edge_lock u v"
  using assms(3) length_node_num [OF assms(1)] length_node_num [OF assms(2)]
  by (cases "v < u") (simp_all add: Color_1server.make_lock_def edge_lock_def key_defs min_def max_def)

end
