(* ===== verification/Peterson.thy ===== *)
theory Peterson
  imports Client
begin

text \<open>
  The protocol on one edge, abstractly: two processes, one per end of the edge, that share
  two flags, a turn, and a colour and a status for each end. A process moves through
  \<open>phase\<close>s by \<open>event\<close>s; \<open>edelta\<close> says which events are allowed in a phase and where they
  lead. It is the contract that the client code of an end has to follow (theories
  \<open>Follow_sync\<close> and \<open>Interleaving\<close>): take the lock of the edge unless the other end already has its
  status set, read the colour of the other end, write a different colour, set the status,
  release the lock.

  The invariant \<open>edge_inv\<close> holds mutual exclusion and that two coloured ends differ.
\<close>

section \<open>Phases and events of one end\<close>

datatype phase =
    Idle                 \<comment> \<open>not started on the node\<close>
  | Scan                 \<comment> \<open>started, this edge not yet looked at\<close>
  | Want                 \<comment> \<open>the other end has no status: the lock is needed\<close>
  | Flagged              \<comment> \<open>own flag set\<close>
  | Turned               \<comment> \<open>turn set; at the start of a round of the waiting loop\<close>
  | Half bool            \<comment> \<open>one of the two reads of a round done; whether it lets the process pass\<close>
  | Locked               \<comment> \<open>lock held\<close>
  | LockedRead int       \<comment> \<open>lock held, colour of the other end read\<close>
  | Free                 \<comment> \<open>the other end has its status set: no lock needed\<close>
  | FreeRead int         \<comment> \<open>no lock, colour of the other end read\<close>
  | Colored bool string  \<comment> \<open>own colour written, with or without the lock\<close>
  | Statused             \<comment> \<open>own status written, lock still held\<close>
  | Done

datatype event =
    ESkip | EStart | EGetStatus | EGetFlag | EGetTurn | EGetColor
  | ESetFlag string | ESetTurn string | ESetColor string | ESetStatus string

definition statval :: "string option \<Rightarrow> int" where
  "statval r = (case r of None \<Rightarrow> 0 | Some s \<Rightarrow> atoi s)"

definition colval :: "string option \<Rightarrow> int" where
  "colval r = (case r of None \<Rightarrow> -1 | Some s \<Rightarrow> atoi s)"

definition flag_passes :: "string option \<Rightarrow> bool" where
  "flag_passes r \<longleftrightarrow> r \<noteq> Some ''1''"

definition turn_passes :: "nat \<Rightarrow> string option \<Rightarrow> bool" where
  "turn_passes x r \<longleftrightarrow> (case r of None \<Rightarrow> False | Some t \<Rightarrow> t \<noteq> decimal x)"

text \<open>The second argument of a read event is the value read.\<close>

fun waiting_read :: "bool \<Rightarrow> phase \<Rightarrow> phase" where
  "waiting_read pass Turned = Half pass"
| "waiting_read pass (Half b) = (if b \<or> pass then Locked else Turned)"
| "waiting_read pass p = p"

fun edelta :: "nat \<Rightarrow> phase \<Rightarrow> event \<Rightarrow> string option \<Rightarrow> phase option" where
  "edelta x p ESkip r = Some p"
| "edelta x p EStart r = Some (if p = Idle then Scan else p)"
| "edelta x p EGetStatus r = Some (if p = Scan then if statval r = 0 then Want else Free else p)"
| "edelta x p EGetFlag r = Some (waiting_read (flag_passes r) p)"
| "edelta x p EGetTurn r = Some (waiting_read (turn_passes x r) p)"
| "edelta x p EGetColor r =
     Some (case p of Locked \<Rightarrow> LockedRead (colval r) | Free \<Rightarrow> FreeRead (colval r) | _ \<Rightarrow> p)"
| "edelta x p (ESetFlag v) r =
     (if (p = Want \<or> p = Flagged) \<and> v = ''1'' then Some Flagged
      else if (p = Statused \<or> p = Done) \<and> v = ''0'' then Some Done
      else None)"
| "edelta x p (ESetTurn v) r =
     (if (p = Flagged \<or> p = Turned) \<and> v = decimal x then Some Turned else None)"
| "edelta x p (ESetColor v) r =
     (case p of
        LockedRead c \<Rightarrow> if atoi v \<noteq> c then Some (Colored True v) else None
      | FreeRead c \<Rightarrow> if atoi v \<noteq> c then Some (Colored False v) else None
      | Colored b v' \<Rightarrow> if v = v' then Some p else None
      | _ \<Rightarrow> None)"
| "edelta x p (ESetStatus v) r =
     (if v \<noteq> ''1'' then None
      else (case p of
              Colored True _ \<Rightarrow> Some Statused
            | Colored False _ \<Rightarrow> Some Done
            | Statused \<Rightarrow> Some Statused
            | Done \<Rightarrow> Some Done
            | _ \<Rightarrow> None))"

section \<open>The protocol\<close>

record edge_state =
  flag :: "nat \<Rightarrow> string option"
  turn :: "string option"
  color :: "nat \<Rightarrow> string option"
  status :: "nat \<Rightarrow> string option"
  at :: "nat \<Rightarrow> phase"

fun eread :: "nat \<Rightarrow> event \<Rightarrow> edge_state \<Rightarrow> string option" where
  "eread y EGetStatus s = status s y"
| "eread y EGetFlag s = flag s y"
| "eread y EGetTurn s = turn s"
| "eread y EGetColor s = color s y"
| "eread y _ s = None"

fun ewrite :: "nat \<Rightarrow> event \<Rightarrow> edge_state \<Rightarrow> edge_state" where
  "ewrite x (ESetFlag v) s = s\<lparr>flag := (flag s)(x := Some v)\<rparr>"
| "ewrite x (ESetTurn v) s = s\<lparr>turn := Some v\<rparr>"
| "ewrite x (ESetColor v) s = s\<lparr>color := (color s)(x := Some v)\<rparr>"
| "ewrite x (ESetStatus v) s = s\<lparr>status := (status s)(x := Some v)\<rparr>"
| "ewrite x _ s = s"

inductive estep :: "nat \<Rightarrow> nat \<Rightarrow> event \<Rightarrow> edge_state \<Rightarrow> edge_state \<Rightarrow> bool" for x y where
  "edelta x (at s x) e (eread y e s) = Some p \<Longrightarrow>
     estep x y e s ((ewrite x e s)\<lparr>at := (at s)(x := p)\<rparr>)"

inductive_cases estepE: "estep x y e s t"

section \<open>The invariant\<close>

fun in_cs :: "phase \<Rightarrow> bool" where
  "in_cs (Half b) = b"
| "in_cs Locked = True"
| "in_cs (LockedRead c) = True"
| "in_cs (Colored b v) = b"
| "in_cs Statused = True"
| "in_cs _ = False"

fun waiting :: "phase \<Rightarrow> bool" where
  "waiting Turned = True"
| "waiting (Half b) = (\<not> b)"
| "waiting _ = False"

definition flagged :: "phase \<Rightarrow> bool" where
  "flagged p \<longleftrightarrow> p = Flagged \<or> waiting p \<or> in_cs p"

fun stated :: "phase \<Rightarrow> bool" where
  "stated Statused = True"
| "stated Done = True"
| "stated _ = False"

fun colored :: "phase \<Rightarrow> bool" where
  "colored (Colored b v) = True"
| "colored p = stated p"

fun unlocked :: "phase \<Rightarrow> bool" where
  "unlocked Free = True"
| "unlocked (FreeRead c) = True"
| "unlocked (Colored b v) = (\<not> b)"
| "unlocked _ = False"

fun knows :: "phase \<Rightarrow> string option \<Rightarrow> string option \<Rightarrow> bool" where
  "knows (LockedRead c) own other = (colval other = c)"
| "knows (FreeRead c) own other = (colval other = c)"
| "knows (Colored b v) own other = (own = Some v)"
| "knows _ own other = True"

definition half_inv :: "nat \<Rightarrow> nat \<Rightarrow> edge_state \<Rightarrow> bool" where
  "half_inv x y s \<longleftrightarrow>
     (flagged (at s x) \<longleftrightarrow> flag s x = Some ''1'')
     \<and> (waiting (at s x) \<or> in_cs (at s x) \<longrightarrow> turn s = Some (decimal x) \<or> turn s = Some (decimal y))
     \<and> (in_cs (at s x) \<and> waiting (at s y) \<longrightarrow> turn s = Some (decimal y))
     \<and> (stated (at s x) \<longleftrightarrow> statval (status s x) \<noteq> 0)
     \<and> knows (at s x) (color s x) (color s y)
     \<and> (unlocked (at s x) \<longrightarrow> stated (at s y))"

definition edge_inv :: "nat \<Rightarrow> nat \<Rightarrow> edge_state \<Rightarrow> bool" where
  "edge_inv x y s \<longleftrightarrow>
     half_inv x y s \<and> half_inv y x s
     \<and> \<not> (in_cs (at s x) \<and> in_cs (at s y))
     \<and> (colored (at s x) \<and> colored (at s y) \<longrightarrow> colval (color s x) \<noteq> colval (color s y))"

lemma edge_inv_sym: "edge_inv x y s \<longleftrightarrow> edge_inv y x s"
  by (auto simp: edge_inv_def)

lemmas edge_inv_defs = edge_inv_def half_inv_def flagged_def flag_passes_def turn_passes_def

lemma statval_one [simp]: "statval (Some ''1'') = 1"
  by (simp add: statval_def) code_simp

lemma stay: "at s x = p \<Longrightarrow> s\<lparr>at := (at s)(x := p)\<rparr> = s"
  by auto

text \<open>The moves that change the phase, one lemma each.\<close>

lemma edge_inv_wait:
  assumes "x \<noteq> y" "edge_inv x y s" "pass \<longrightarrow> flag_passes (flag s y) \<or> turn_passes x (turn s)"
  shows "edge_inv x y (s\<lparr>at := (at s)(x := waiting_read pass (at s x))\<rparr>)"
proof (cases "at s x")
  case Turned
  with assms show ?thesis
    by (cases "at s y"; simp add: edge_inv_defs split: option.splits; fastforce)
next
  case (Half b)
  with assms show ?thesis
    by (cases "at s y"; simp add: edge_inv_defs split: option.splits; fastforce)
qed (use assms in \<open>simp_all add: stay\<close>)

lemma edge_inv_color:
  assumes "x \<noteq> y" "edge_inv x y s"
  shows "edge_inv x y (s\<lparr>at := (at s)(x := (case at s x of Locked \<Rightarrow> LockedRead (colval (color s y))
           | Free \<Rightarrow> FreeRead (colval (color s y)) | p \<Rightarrow> p))\<rparr>)"
proof (cases "at s x")
  case Locked
  with assms show ?thesis by (cases "at s y") (simp_all add: edge_inv_defs)
next
  case Free
  with assms show ?thesis by (cases "at s y") (simp_all add: edge_inv_defs)
qed (use assms in \<open>simp_all add: stay\<close>)

lemma set_flag_cases:
  assumes "edelta x q (ESetFlag v) r = Some p"
  obtains "q = Want" "v = ''1''" "p = Flagged" | "q = Flagged" "v = ''1''" "p = Flagged"
    | "q = Statused" "v = ''0''" "p = Done" | "q = Done" "v = ''0''" "p = Done"
  using assms by (cases q; simp split: if_splits)

lemma edge_inv_set_flag:
  assumes "x \<noteq> y" "edge_inv x y s" "edelta x (at s x) (ESetFlag v) r = Some p"
  shows "edge_inv x y (s\<lparr>flag := (flag s)(x := Some v), at := (at s)(x := p)\<rparr>)"
  using assms(3)
proof (cases rule: set_flag_cases)
  case 1
  with assms show ?thesis by (simp add: edge_inv_defs)
next
  case 2
  with assms show ?thesis by (simp add: edge_inv_defs)
next
  case 3
  with assms(1,2) show ?thesis by (simp add: edge_inv_defs) blast
next
  case 4
  with assms(1,2) show ?thesis by (simp add: edge_inv_defs)
qed

lemma edge_inv_set_turn:
  assumes "x \<noteq> y" "edge_inv x y s" "edelta x (at s x) (ESetTurn v) r = Some p"
  shows "edge_inv x y (s\<lparr>turn := Some v, at := (at s)(x := p)\<rparr>)"
proof -
  consider "at s x = Flagged" "v = decimal x" "p = Turned" | "at s x = Turned" "v = decimal x" "p = Turned"
    using assms(3) by (auto split: if_splits)
  then show ?thesis
    using assms(1,2) by cases (cases "at s y"; simp add: edge_inv_defs)+
qed

lemma edge_inv_set_color:
  assumes "x \<noteq> y" "edge_inv x y s" "edelta x (at s x) (ESetColor v) r = Some p"
  shows "edge_inv x y (s\<lparr>color := (color s)(x := Some v), at := (at s)(x := p)\<rparr>)"
proof (cases "at s x")
  case (LockedRead c)
  with assms show ?thesis
    by (cases "at s y") (auto simp: edge_inv_defs colval_def split: if_splits)
next
  case (FreeRead c)
  with assms show ?thesis
    by (cases "at s y") (auto simp: edge_inv_defs colval_def split: if_splits)
next
  case (Colored b v')
  with assms have "color s x = Some v" "at s x = p"
    by (auto simp: edge_inv_defs split: if_splits)
  then have "s\<lparr>color := (color s)(x := Some v), at := (at s)(x := p)\<rparr> = s"
    by (cases s) auto
  with assms show ?thesis by simp
qed (use assms in simp_all)

lemma edge_inv_set_status:
  assumes "x \<noteq> y" "edge_inv x y s" "edelta x (at s x) (ESetStatus v) r = Some p"
  shows "edge_inv x y (s\<lparr>status := (status s)(x := Some v), at := (at s)(x := p)\<rparr>)"
  using assms
  by (cases "at s x") (auto simp: edge_inv_defs split: if_splits bool.splits)

lemma edge_inv_step_aux:
  assumes "x \<noteq> y" "edge_inv x y s" "edelta x (at s x) e (eread y e s) = Some p"
  shows "edge_inv x y ((ewrite x e s)\<lparr>at := (at s)(x := p)\<rparr>)"
proof (cases e)
  case EStart
  with assms show ?thesis by (auto simp: edge_inv_defs split: if_splits)
next
  case EGetStatus
  with assms show ?thesis by (auto simp: edge_inv_defs split: if_splits)
next
  case EGetFlag
  with assms edge_inv_wait [OF assms(1,2), of "flag_passes (flag s y)"] show ?thesis by auto
next
  case EGetTurn
  with assms edge_inv_wait [OF assms(1,2), of "turn_passes x (turn s)"] show ?thesis by auto
next
  case EGetColor
  with assms edge_inv_color [OF assms(1,2)] show ?thesis
    by (cases "at s x") (auto simp: stay)
next
  case (ESetFlag v)
  with assms edge_inv_set_flag [OF assms(1,2)] show ?thesis by simp
next
  case (ESetTurn v)
  with assms edge_inv_set_turn [OF assms(1,2)] show ?thesis by simp
next
  case (ESetColor v)
  with assms edge_inv_set_color [OF assms(1,2)] show ?thesis by simp
next
  case (ESetStatus v)
  with assms edge_inv_set_status [OF assms(1,2)] show ?thesis by simp
qed (use assms in \<open>auto simp: stay\<close>)

lemma edge_inv_step: "x \<noteq> y \<Longrightarrow> edge_inv x y s \<Longrightarrow> estep x y e s t \<Longrightarrow> edge_inv x y t"
  by (auto elim!: estepE intro: edge_inv_step_aux)

end
