(* ===== verification/Follow.thy ===== *)
theory Follow
  imports Keys Peterson
begin

text \<open>
  Programs that follow a monitor. A monitor is a partial transition function on phases that
  watches the commands of one client: \<open>follows \<delta> adm t p Q\<close> says that, whatever admissible
  replies the program \<open>t\<close> gets, every command it sends is allowed in the phase it is in, and
  that it ends in a phase and with a result that satisfy \<open>Q\<close> (if it does not stop with a
  crash, which sends no further command).

  Three monitors watch an edge \<open>x\<close>--\<open>y\<close>: \<open>end_delta\<close> for the client that colours \<open>x\<close> only,
  \<open>both_delta\<close> for a client that colours both, \<open>out_delta\<close> for one that colours neither.
\<close>

section \<open>Following a monitor\<close>

type_synonym 'p monitor = "'p \<Rightarrow> redis_cmd \<Rightarrow> redisReply \<Rightarrow> 'p option"

primrec follows ::
    "'p monitor \<Rightarrow> (redis_cmd \<Rightarrow> redisReply \<Rightarrow> bool) \<Rightarrow> 'a prog \<Rightarrow> 'p \<Rightarrow> ('a \<Rightarrow> 'p \<Rightarrow> bool) \<Rightarrow> bool" where
  "follows \<delta> adm (Ret x) p Q = Q x p"
| "follows \<delta> adm (Crash e) p Q = True"
| "follows \<delta> adm (Connect h k) p Q = False"
| "follows \<delta> adm (Cmd c k) p Q =
     (\<forall>r. adm c r \<longrightarrow> (case \<delta> p c r of None \<Rightarrow> False | Some q \<Rightarrow> follows \<delta> adm (k (Some r)) q Q))"

lemma follows_mono:
  "follows \<delta> adm t p Q \<Longrightarrow> (\<And>x q. Q x q \<Longrightarrow> R x q) \<Longrightarrow> follows \<delta> adm t p R"
proof (induction t arbitrary: p)
  case (Cmd c k)
  have "case \<delta> p c r of None \<Rightarrow> False | Some q \<Rightarrow> follows \<delta> adm (k (Some r)) q R" if "adm c r" for r
    using Cmd.prems(1) that Cmd.IH [OF rangeI _ Cmd.prems(2), of "Some r"]
    by (cases "\<delta> p c r") (use that in force)+
  then show ?case by simp
qed auto

lemma follows_bindp [simp]:
  "follows \<delta> adm (bindp m f) p Q = follows \<delta> adm m p (\<lambda>x q. follows \<delta> adm (f x) q Q)"
proof (induction m arbitrary: p)
  case (Cmd c k)
  then show ?case by (simp cong: option.case_cong)
qed auto

lemma follows_lift_result [simp]:
  "follows \<delta> adm (lift_result r) p Q = (\<forall>x. r = Inr x \<longrightarrow> Q x p)"
  by (cases r) (auto simp: lift_result_def)

definition passes :: "'p monitor \<Rightarrow> 'p \<Rightarrow> redis_cmd set \<Rightarrow> bool" where
  "passes \<delta> p C \<longleftrightarrow> (\<forall>c \<in> C. \<forall>r. \<delta> p c r = Some p)"

lemma passesD: "passes \<delta> p C \<Longrightarrow> c \<in> C \<Longrightarrow> \<delta> p c r = Some p"
  by (auto simp: passes_def)

section \<open>Graphs and admissible replies\<close>

text \<open>
  \<open>graph_ok n adj\<close>: an undirected graph on the nodes \<open>0..<n\<close> without loops, given by neighbour
  lists. The bound makes every colour fit the ten bytes of \<open>color_str\<close>.
\<close>

definition graph_ok :: "nat \<Rightarrow> (nat \<Rightarrow> nat list) \<Rightarrow> bool" where
  "graph_ok n adj \<longleftrightarrow> n \<le> 10 ^ 9
     \<and> (\<forall>u < n. distinct (adj u) \<and> (\<forall>v \<in> set (adj u). v < n \<and> v \<noteq> u \<and> u \<in> set (adj v)))"

definition is_neighbours_key :: "string \<Rightarrow> bool" where
  "is_neighbours_key k \<longleftrightarrow> (\<exists>m. k = ''node_'' @ m @ ''_neighbours'')"

fun adm :: "nat \<Rightarrow> (nat \<Rightarrow> nat list) \<Rightarrow> redis_cmd \<Rightarrow> redisReply \<Rightarrow> bool" where
  "adm n adj (GET k) r \<longleftrightarrow> is_neighbours_key k \<or> r = RNil \<or> (\<exists>s. r = RString s)"
| "adm n adj (SET k v) r \<longleftrightarrow> r = RStatus ''OK''"
| "adm n adj (SMEMBERS k) r \<longleftrightarrow>
     (\<forall>u < n. k = neighbours_key u \<longrightarrow> r = RArray (map (RString \<circ> decimal) (adj u)))"
| "adm n adj (KEYS p) r \<longleftrightarrow> True"
| "adm n adj (WAIT m t) r \<longleftrightarrow> (\<exists>i. r = RInteger i)"
| "adm n adj (OTHER argv) r \<longleftrightarrow> True"

lemma is_neighbours_key_simps [simp]:
  "is_neighbours_key (neighbours_key u)" "\<not> is_neighbours_key (color_key u)"
  "\<not> is_neighbours_key (status_key u)" "\<not> is_neighbours_key (flag_key u v)"
  "\<not> is_neighbours_key (edge_turn_key u v)"
  by (auto simp: is_neighbours_key_def key_defs dest!: arg_cong [of _ _ last])

lemma graph_okD:
  assumes "graph_ok n adj" "u < n"
  shows "node_num u" "distinct (adj u)" "v \<in> set (adj u) \<Longrightarrow> v < n"
    "v \<in> set (adj u) \<Longrightarrow> node_num v" "v \<in> set (adj u) \<Longrightarrow> v \<noteq> u"
    "v \<in> set (adj u) \<Longrightarrow> u \<in> set (adj v)" "length (adj u) < 10 ^ 9"
proof -
  have num: "node_num w" if "w < n" for w
    using assms(1) that by (simp add: graph_ok_def node_num_def INT_MAX_def)
  then show "node_num u" using assms(2) .
  show n: "v \<in> set (adj u) \<Longrightarrow> v < n" and "distinct (adj u)"
    and "v \<in> set (adj u) \<Longrightarrow> v \<noteq> u" "v \<in> set (adj u) \<Longrightarrow> u \<in> set (adj v)"
    using assms unfolding graph_ok_def by blast+
  show "v \<in> set (adj u) \<Longrightarrow> node_num v" using n num by blast
  have "set (adj u) \<subseteq> {..<n} - {u}" using assms by (auto simp: graph_ok_def)
  then have "card (set (adj u)) \<le> card ({..<n} - {u})" by (intro card_mono) auto
  also have "\<dots> < n" using assms(2) by simp
  also have "n \<le> 10 ^ 9" using assms(1) by (simp add: graph_ok_def)
  finally show "length (adj u) < 10 ^ 9"
    using assms unfolding graph_ok_def by (metis distinct_card)
qed

section \<open>The monitors of an edge\<close>

text \<open>What a command of the client that colours \<open>x\<close> means for the edge \<open>x\<close>--\<open>y\<close>; \<open>None\<close> for a
  command that such a client must never send.\<close>

definition classify :: "nat \<Rightarrow> nat \<Rightarrow> redis_cmd \<Rightarrow> event option" where
  "classify x y c =
     (case c of
        GET k \<Rightarrow>
          Some (if k = status_key y then EGetStatus
                else if k = flag_key y x then EGetFlag
                else if k = edge_turn_key x y then EGetTurn
                else if k = color_key y then EGetColor
                else ESkip)
      | SET k v \<Rightarrow>
          if is_neighbours_key k \<or> cstr v \<noteq> v then None
          else if k = flag_key x y then Some (ESetFlag v)
          else if k = edge_turn_key x y then Some (ESetTurn v)
          else if k = color_key x then Some (ESetColor v)
          else if k = status_key x then Some (ESetStatus v)
          else if k = flag_key y x \<or> k = color_key y \<or> k = status_key y then None
          else Some ESkip
      | SMEMBERS k \<Rightarrow> Some (if k = neighbours_key x then EStart else ESkip)
      | _ \<Rightarrow> Some ESkip)"

definition end_delta :: "nat \<Rightarrow> nat \<Rightarrow> phase monitor" where
  "end_delta x y p c r =
     (case classify x y c of None \<Rightarrow> None | Some e \<Rightarrow> edelta x p e (reply_str r))"

text \<open>A client that colours both ends, \<open>x\<close> before \<open>y\<close>.\<close>

datatype both_phase =
    B0                    \<comment> \<open>neither started\<close>
  | B1                    \<comment> \<open>started on \<open>x\<close>\<close>
  | B2 string             \<comment> \<open>\<open>x\<close> has its colour\<close>
  | B3 string             \<comment> \<open>started on \<open>y\<close>\<close>
  | B4 string int         \<comment> \<open>colour of \<open>x\<close> read for \<open>y\<close>\<close>
  | B5 string string      \<comment> \<open>\<open>y\<close> has its colour\<close>
  | B6                    \<comment> \<open>\<open>y\<close> has its status\<close>

definition both_delta :: "nat \<Rightarrow> nat \<Rightarrow> both_phase monitor" where
  "both_delta x y p c r =
     (case c of
        GET k \<Rightarrow>
          Some (case p of B3 s \<Rightarrow> if k = color_key x then B4 s (colval (reply_str r)) else p | _ \<Rightarrow> p)
      | SET k v \<Rightarrow>
          if is_neighbours_key k \<or> cstr v \<noteq> v then None
          else if k = color_key x then
            (case p of B1 \<Rightarrow> Some (B2 v) | B2 s \<Rightarrow> if s = v then Some p else None | _ \<Rightarrow> None)
          else if k = color_key y then
            (case p of
               B4 s i \<Rightarrow> if atoi v \<noteq> i then Some (B5 s v) else None
             | B5 s w \<Rightarrow> if w = v then Some p else None
             | _ \<Rightarrow> None)
          else if k = status_key y then
            (case p of B5 s w \<Rightarrow> Some B6 | B6 \<Rightarrow> Some B6 | _ \<Rightarrow> None)
          else Some p
      | SMEMBERS k \<Rightarrow>
          Some (case p of
                  B0 \<Rightarrow> if k = neighbours_key x then B1 else p
                | B2 s \<Rightarrow> if k = neighbours_key y then B3 s else p
                | _ \<Rightarrow> p)
      | _ \<Rightarrow> Some p)"

definition edge_keys :: "nat \<Rightarrow> nat \<Rightarrow> string set" where
  "edge_keys x y = {color_key x, color_key y, status_key x, status_key y,
     flag_key x y, flag_key y x, edge_turn_key x y}"

definition out_delta :: "nat \<Rightarrow> nat \<Rightarrow> unit monitor" where
  "out_delta x y p c r =
     (case c of
        SET k v \<Rightarrow> if is_neighbours_key k \<or> k \<in> edge_keys x y then None else Some ()
      | _ \<Rightarrow> Some ())"

lemmas delta_defs = end_delta_def classify_def both_delta_def out_delta_def edge_keys_def

text \<open>The commands with which the client of \<open>w\<close> looks at a neighbour \<open>v\<close>.\<close>

definition look_cmds :: "nat \<Rightarrow> nat \<Rightarrow> redis_cmd set" where
  "look_cmds w v = {GET (status_key v), GET (color_key v), SET (flag_key w v) ''1'',
     SET (edge_turn_key w v) (decimal w), GET (flag_key v w), GET (edge_turn_key w v)}"

text \<open>All commands with which a client colours the node \<open>w\<close>.\<close>

definition node_cmds :: "(nat \<Rightarrow> nat list) \<Rightarrow> nat \<Rightarrow> redis_cmd set" where
  "node_cmds adj w = {SMEMBERS (neighbours_key w), SET (status_key w) ''1''}
     \<union> {SET (color_key w) v | v. cstr v = v}
     \<union> (\<Union>v \<in> set (adj w). insert (SET (flag_key w v) ''0'') (look_cmds w v))"

definition wait_ok :: "'p monitor \<Rightarrow> 'p \<Rightarrow> bool" where
  "wait_ok \<delta> p \<longleftrightarrow> (\<forall>rr tmo r. \<delta> p (WAIT rr tmo) r = Some p)"

lemma delta_wait [simp]:
  "end_delta x y p (WAIT rr tmo) r = Some p"
  "both_delta x y q (WAIT rr tmo) r = Some q"
  "out_delta x y u (WAIT rr tmo) r = Some u"
  by (simp_all add: delta_defs)

lemma wait_ok [simp]: "wait_ok (end_delta x y) p" "wait_ok (both_delta x y) q" "wait_ok (out_delta x y) u"
  by (simp_all add: wait_ok_def)

lemma passes_node_cmds:
  assumes "w \<noteq> x" "w \<noteq> y"
  shows "p = Idle \<or> p = Done \<Longrightarrow> passes (end_delta x y) p (node_cmds adj w)"
    and "q = B0 \<or> (\<exists>s. q = B2 s) \<or> q = B6 \<Longrightarrow> passes (both_delta x y) q (node_cmds adj w)"
    and "passes (out_delta x y) u (node_cmds adj w)"
  using assms by (auto simp: passes_def node_cmds_def look_cmds_def delta_defs)

lemma end_delta_look [simp]:
  assumes "x \<noteq> y"
  shows "end_delta x y p (GET (status_key y)) r = edelta x p EGetStatus (reply_str r)"
    and "end_delta x y p (GET (color_key y)) r = edelta x p EGetColor (reply_str r)"
    and "end_delta x y p (GET (flag_key y x)) r = edelta x p EGetFlag (reply_str r)"
    and "end_delta x y p (GET (edge_turn_key x y)) r = edelta x p EGetTurn (reply_str r)"
    and "cstr v = v \<Longrightarrow> end_delta x y p (SET (flag_key x y) v) r = edelta x p (ESetFlag v) (reply_str r)"
    and "cstr v = v \<Longrightarrow> end_delta x y p (SET (edge_turn_key x y) v) r = edelta x p (ESetTurn v) (reply_str r)"
    and "cstr v = v \<Longrightarrow> end_delta x y p (SET (color_key x) v) r = edelta x p (ESetColor v) (reply_str r)"
    and "cstr v = v \<Longrightarrow> end_delta x y p (SET (status_key x) v) r = edelta x p (ESetStatus v) (reply_str r)"
    and "end_delta x y p (SMEMBERS (neighbours_key x)) r = edelta x p EStart (reply_str r)"
  using assms by (simp_all add: end_delta_def classify_def)

section \<open>Functions that both clients share\<close>

lemma follows_wait_loop_pass:
  assumes "\<And>r. \<delta> p (GET (turn_key l)) r = Some p" "\<And>r. \<delta> p (GET (lock_key_2 l)) r = Some p" "Q () p"
  shows "follows \<delta> A (Color_1server.wait_loop fuel l f t) p Q"
proof (induction fuel arbitrary: f t)
  case (Suc fuel)
  show ?case
    by (subst Color_1server.wait_loop.simps) (use assms Suc in \<open>simp split: sum.split bool.split\<close>)
qed (use assms in \<open>simp add: Color_1server.wait_loop.simps split: sum.split bool.split\<close>)

lemma follows_wait_loop_end:
  assumes "x \<noteq> y"
    and "p = (if flag_passes (reply_str f) \<or> turn_passes x (reply_str t) then Locked else Turned)"
  shows "follows (end_delta x y) A (Color_1server.wait_loop fuel (edge_lock x y) (Some f) (Some t)) p
    (\<lambda>_ q. q = Locked)"
  using assms(2)
proof (induction fuel arbitrary: f t p)
  case 0
  then show ?case
    by (auto simp: Color_1server.wait_loop.simps wait_condition_def flag_passes_def turn_passes_def
        split: option.splits sum.splits bool.splits)
next
  case (Suc fuel)
  have "follows (end_delta x y) A (Cmd (GET (edge_turn_key x y)) (\<lambda>t'. Cmd (GET (flag_key y x)) (\<lambda>f'.
      Color_1server.wait_loop fuel (edge_lock x y) f' t'))) Turned (\<lambda>_ q. q = Locked)"
    using assms(1) by (auto intro!: Suc.IH)
  then show ?case
    using Suc.prems
    by (subst Color_1server.wait_loop.simps)
      (auto simp: wait_condition_def flag_passes_def turn_passes_def
        simp del: follows.simps(4) split: option.splits sum.splits bool.splits)
qed

lemma cstr_literals [simp]: "cstr ''1'' = ''1''" "cstr ''0'' = ''0''"
  by simp_all

lemma follows_GET:
  assumes "\<not> is_neighbours_key k"
  shows "follows \<delta> (adm n adj) (Cmd (GET k) f) p Q \<longleftrightarrow>
    (case \<delta> p (GET k) RNil of None \<Rightarrow> False | Some q \<Rightarrow> follows \<delta> (adm n adj) (f (Some RNil)) q Q)
    \<and> (\<forall>s. case \<delta> p (GET k) (RString s) of None \<Rightarrow> False
         | Some q \<Rightarrow> follows \<delta> (adm n adj) (f (Some (RString s))) q Q)"
  using assms by auto

lemma follows_get_node_color:
  assumes "node_num v"
  shows "follows \<delta> (adm n adj) (Color_1server.get_node_color (decimal v)) p Q \<longleftrightarrow>
    (case \<delta> p (GET (color_key v)) RNil of None \<Rightarrow> False | Some q \<Rightarrow> Q (colval None) q)
    \<and> (\<forall>s. case \<delta> p (GET (color_key v)) (RString s) of None \<Rightarrow> False
         | Some q \<Rightarrow> Q (colval (Some (cstr s))) q)"
  using assms
  by (simp add: Color_1server.get_node_color_def colval_def follows_GET del: follows.simps(4)
      cong: option.case_cong)

lemma follows_get_status:
  assumes "node_num v"
  shows "follows \<delta> (adm n adj) (Color_1server.get_status (decimal v)) p Q \<longleftrightarrow>
    (case \<delta> p (GET (status_key v)) RNil of None \<Rightarrow> False | Some q \<Rightarrow> Q (statval None) q)
    \<and> (\<forall>s. case \<delta> p (GET (status_key v)) (RString s) of None \<Rightarrow> False
         | Some q \<Rightarrow> Q (statval (Some (cstr s))) q)"
  using assms
  by (simp add: Color_1server.get_status_def statval_def follows_GET del: follows.simps(4)
      cong: option.case_cong)

lemma bindp_if: "bindp (if b then m else m') f = (if b then bindp m f else bindp m' f)"
  by simp

lemma qsort_map: "qsort cmp (map f us) = map f (qsort (\<lambda>a b. cmp (f a) (f b)) us)"
proof -
  have "qsort_insert cmp (f u) (map f vs) = map f (qsort_insert (\<lambda>a b. cmp (f a) (f b)) u vs)" for u vs
    by (induction vs) auto
  then show ?thesis by (induction us) (simp_all add: qsort_def)
qed

lemma decimal_elements: "strdup_all (map (RString \<circ> decimal) us) = Some (map decimal us)"
  by (induction us) auto

lemma follows_get_all_neighbours:
  assumes "graph_ok n adj" "u < n" "\<And>r. \<delta> p (SMEMBERS (neighbours_key u)) r = Some q"
    and "Q (Some (map decimal (adj u))) q"
  shows "follows \<delta> (adm n adj) (Color_1server.get_all_neighbours (node_key u)) p Q"
  using assms graph_okD(1) [OF assms(1,2)]
  by (auto simp: Color_1server.get_all_neighbours_def decimal_elements)

lemma follows_check_boundary:
  assumes "graph_ok n adj" "u < n" "\<And>r. \<delta> p (SMEMBERS (neighbours_key u)) r = Some q" "\<And>i. Q i q"
  shows "follows \<delta> (adm n adj) (Color_1server.check_boundary_node (node_key u) b a) p Q"
  using assms graph_okD(1) [OF assms(1,2)]
  by (auto simp: Color_1server.check_boundary_node_def)

end
