(* ===== verification/Interleaving.thy ===== *)
theory Interleaving
  imports Follow
begin

text \<open>
  Clients that run at the same time against one server. Redis executes commands one at a time, so
  a step of the system is one command of one client: the client that sent it goes on with the
  reply, the other clients stay where they are. \<open>WAIT\<close> may report any number of
  replicas.

  The invariants say, for one edge, that every client follows its monitor and that the shared
  values agree with the phases the clients are in. The locale \<open>coloring_client\<close> is the contract
  of a client program with these monitors; its theorems hold for every program that meets it.
\<close>

section \<open>The system\<close>

definition serves :: "redis_cmd \<Rightarrow> keyspace \<Rightarrow> redisReply \<Rightarrow> keyspace \<Rightarrow> bool" where
  "serves c db r db' \<longleftrightarrow>
     (case c of
        WAIT m t \<Rightarrow> (case r of RInteger i \<Rightarrow> db' = db | _ \<Rightarrow> False)
      | _ \<Rightarrow> exec_cmd c db = (r, db'))"

type_synonym system = "keyspace \<times> unit prog list"

inductive sys_step :: "system \<Rightarrow> system \<Rightarrow> bool" where
  "i < length ps \<Longrightarrow> ps ! i = Cmd c k \<Longrightarrow> serves c db r db' \<Longrightarrow>
     sys_step (db, ps) (db', ps[i := k (Some r)])"

inductive_cases sys_stepE: "sys_step (db, ps) s'"

abbreviation sys_reach :: "system \<Rightarrow> system \<Rightarrow> bool" where
  "sys_reach \<equiv> sys_step\<^sup>*\<^sup>*"

section \<open>The shared values of a graph\<close>

definition graph_db :: "nat \<Rightarrow> (nat \<Rightarrow> nat list) \<Rightarrow> keyspace \<Rightarrow> bool" where
  "graph_db n adj db \<longleftrightarrow>
     (\<forall>u < n. map_of db (neighbours_key u) = Some (SetObj (map decimal (adj u))))
     \<and> (\<forall>k. \<not> is_neighbours_key k \<longrightarrow> map_of db k = None \<or> (\<exists>s. map_of db k = Some (StrObj s)))
     \<and> (\<forall>k. is_neighbours_key k \<longrightarrow> map_of db k = None \<or> (\<exists>u < n. k = neighbours_key u))"

lemma graph_dbD:
  assumes "graph_db n adj db"
  shows "u < n \<Longrightarrow> map_of db (neighbours_key u) = Some (SetObj (map decimal (adj u)))"
    and "\<not> is_neighbours_key k \<Longrightarrow> map_of db k = None \<or> (\<exists>s. map_of db k = Some (StrObj s))"
    and "is_neighbours_key k \<Longrightarrow> map_of db k = None \<or> (\<exists>u < n. k = neighbours_key u)"
  using assms by (simp_all only: graph_db_def simp_thms)

lemma graph_db_upd:
  assumes "graph_db n adj db" "\<not> is_neighbours_key k" "map_of db' = (map_of db)(k \<mapsto> StrObj v)"
  shows "graph_db n adj db'"
  unfolding graph_db_def
proof (intro conjI allI impI)
  have "neighbours_key u \<noteq> k" for u using assms(2) by auto
  then show "map_of db' (neighbours_key u) = Some (SetObj (map decimal (adj u)))" if "u < n" for u
    using graph_dbD(1) [OF assms(1) that] assms(3) by simp
  fix k'
  show "map_of db' k' = None \<or> (\<exists>s. map_of db' k' = Some (StrObj s))" if "\<not> is_neighbours_key k'"
    using graph_dbD(2) [OF assms(1) that] assms(3) by simp
  show "map_of db' k' = None \<or> (\<exists>u < n. k' = neighbours_key u)" if "is_neighbours_key k'"
  proof -
    have "k' \<noteq> k" using that assms(2) by blast
    then show ?thesis using graph_dbD(3) [OF assms(1) that] assms(3) by auto
  qed
qed

definition str_at :: "keyspace \<Rightarrow> string \<Rightarrow> string option" where
  "str_at db k = (case map_of db k of Some (StrObj s) \<Rightarrow> Some (cstr s) | _ \<Rightarrow> None)"

definition color_of :: "keyspace \<Rightarrow> nat \<Rightarrow> int" where
  "color_of db u = colval (str_at db (color_key u))"

definition status_of :: "keyspace \<Rightarrow> nat \<Rightarrow> int" where
  "status_of db u = statval (str_at db (status_key u))"

lemma str_at_update [simp]:
  "str_at (AList.update k (StrObj v) db) k' = (if k' = k then Some (cstr v) else str_at db k')"
  by (simp add: str_at_def)

lemma serves_GET:
  assumes "graph_db n adj db" "serves (GET k) db r db'" "\<not> is_neighbours_key k"
  shows "db' = db" "reply_str r = str_at db k" "r = RNil \<or> (\<exists>s. r = RString s)"
proof -
  show db: "db' = db" using assms(2) by (simp add: serves_def)
  consider "map_of db k = None" | s where "map_of db k = Some (StrObj s)"
    using graph_dbD(2) [OF assms(1,3)] by auto
  then show "reply_str r = str_at db k" "r = RNil \<or> (\<exists>s. r = RString s)"
    using assms(2) by (cases; auto simp: serves_def str_at_def)+
qed

lemma serves_adm:
  assumes "graph_db n adj db" "serves c db r db'"
  shows "adm n adj c r"
proof (cases c)
  case (GET k)
  then show ?thesis using assms serves_GET [of n adj db k r db'] by auto
next
  case (SMEMBERS k)
  then show ?thesis using assms(2) graph_dbD(1) [OF assms(1)] by (auto simp: serves_def)
qed (use assms(2) in \<open>auto simp: serves_def split: redisReply.splits\<close>)

definition protects_graph :: "'p monitor \<Rightarrow> bool" where
  "protects_graph \<delta> \<longleftrightarrow> (\<forall>p k v r. is_neighbours_key k \<longrightarrow> \<delta> p (SET k v) r = None)"

lemma serves_graph_db:
  assumes "graph_db n adj db" "serves c db r db'" "protects_graph \<delta>" "\<delta> p c r \<noteq> None"
  shows "graph_db n adj db'"
proof (cases c)
  case (SET k v)
  then have "\<not> is_neighbours_key k" using assms(3,4) by (auto simp: protects_graph_def)
  moreover have "map_of db' = (map_of db)(k \<mapsto> StrObj v)" using assms(2) SET by (auto simp: serves_def)
  ultimately show ?thesis by (rule graph_db_upd [OF assms(1)])
qed (use assms in \<open>auto simp: serves_def split: redisReply.splits\<close>)

lemma protects_graph [simp]:
  "protects_graph (end_delta x y)" "protects_graph (both_delta x y)" "protects_graph (out_delta x y)"
  by (auto simp: protects_graph_def delta_defs)

section \<open>An edge between two clients\<close>

definition edge_view :: "nat \<Rightarrow> nat \<Rightarrow> keyspace \<Rightarrow> phase \<Rightarrow> phase \<Rightarrow> edge_state" where
  "edge_view x y db px py =
     \<lparr>flag = \<lambda>z. if z = x then str_at db (flag_key x y) else if z = y then str_at db (flag_key y x) else None,
      turn = str_at db (edge_turn_key x y),
      color = \<lambda>z. if z = x \<or> z = y then str_at db (color_key z) else None,
      status = \<lambda>z. if z = x \<or> z = y then str_at db (status_key z) else None,
      at = \<lambda>z. if z = x then px else py\<rparr>"

lemma edge_turn_key_sym: "edge_turn_key y x = edge_turn_key x y"
  by simp

lemma edge_view_sym:
  "x \<noteq> y \<Longrightarrow> edge_inv x y (edge_view x y db px py) \<longleftrightarrow> edge_inv y x (edge_view y x db py px)"
  unfolding edge_inv_sym [of x y] edge_view_def edge_turn_key_sym [of x y]
  by (simp add: edge_inv_def half_inv_def)

text \<open>A command of the client of \<open>x\<close> is an event of the protocol.\<close>

lemma edge_view_step:
  assumes "x \<noteq> y" "graph_db n adj db" "serves c db r db'" "end_delta x y px c r = Some p"
    and "edge_inv x y (edge_view x y db px py)"
  shows "edge_inv x y (edge_view x y db' p py)"
proof -
  let ?s = "edge_view x y db px py"
  obtain e where e: "classify x y c = Some e" "edelta x px e (reply_str r) = Some p"
    using assms(4) by (auto simp: end_delta_def split: option.splits)
  have "edelta x (at ?s x) e (eread y e ?s) = Some p
    \<and> edge_view x y db' p py = (ewrite x e ?s)\<lparr>at := (at ?s)(x := p)\<rparr>"
  proof (cases c)
    case (GET k)
    then show ?thesis
      using e assms(1) serves_GET [OF assms(2), of k r db'] assms(3)
      by (auto simp: classify_def edge_view_def serves_def fun_eq_iff split: if_splits)
  next
    case (SET k v)
    then show ?thesis
      using e assms(1,3)
      by (auto simp: classify_def edge_view_def serves_def fun_eq_iff split: if_splits)
  qed (use e assms(3) in \<open>auto simp: classify_def edge_view_def serves_def fun_eq_iff
         split: if_splits redisReply.splits\<close>)
  then show ?thesis
    using edge_inv_step_aux [OF assms(1,5), of e p] by simp
qed

text \<open>A command of a client that colours neither end does not touch the edge.\<close>

lemma edge_view_out:
  assumes "serves c db r db'" "out_delta x y u c r \<noteq> None" "x \<noteq> y"
  shows "\<forall>k \<in> edge_keys x y. str_at db' k = str_at db k"
  using assms by (cases c) (auto simp: serves_def out_delta_def split: if_splits redisReply.splits)

lemma edge_inv_cong:
  assumes "\<forall>k \<in> edge_keys x y. str_at db' k = str_at db k" "x \<noteq> y"
  shows "edge_inv x y (edge_view x y db' px py) = edge_inv x y (edge_view x y db px py)"
  using assms by (simp add: edge_inv_def half_inv_def edge_view_def edge_keys_def)

lemma follows_step:
  assumes "follows \<delta> (adm n adj) (Cmd c k) p Q" "graph_db n adj db" "serves c db r db'" "protects_graph \<delta>"
  obtains q where "\<delta> p c r = Some q" "follows \<delta> (adm n adj) (k (Some r)) q Q" "graph_db n adj db'"
proof -
  obtain q where q: "\<delta> p c r = Some q" "follows \<delta> (adm n adj) (k (Some r)) q Q"
    using assms(1) serves_adm [OF assms(2,3)] by (auto split: option.splits)
  with that serves_graph_db [OF assms(2,3,4), of p] show thesis by auto
qed

text \<open>Client \<open>i\<close> colours \<open>x\<close>, client \<open>j\<close> colours \<open>y\<close>.\<close>

definition inter_inv ::
    "nat \<Rightarrow> (nat \<Rightarrow> nat list) \<Rightarrow> nat \<Rightarrow> nat \<Rightarrow> nat \<Rightarrow> nat \<Rightarrow> system \<Rightarrow> bool" where
  "inter_inv n adj x y i j s =
     (case s of (db, ps) \<Rightarrow>
        graph_db n adj db \<and> i < length ps \<and> j < length ps
        \<and> (\<exists>px py. follows (end_delta x y) (adm n adj) (ps ! i) px (\<lambda>_ q. q = Done)
             \<and> follows (end_delta y x) (adm n adj) (ps ! j) py (\<lambda>_ q. q = Done)
             \<and> edge_inv x y (edge_view x y db px py))
        \<and> (\<forall>k < length ps. k \<noteq> i \<and> k \<noteq> j \<longrightarrow> follows (out_delta x y) (adm n adj) (ps ! k) () (\<lambda>_ _. True)))"

lemma inter_inv_sym: "x \<noteq> y \<Longrightarrow> inter_inv n adj x y i j s \<longleftrightarrow> inter_inv n adj y x j i s"
proof -
  assume "x \<noteq> y"
  moreover have "out_delta x y = out_delta y x"
    by (auto simp: fun_eq_iff out_delta_def edge_keys_def edge_turn_key_sym [of x y] split: redis_cmd.split)
  ultimately show ?thesis
    unfolding inter_inv_def by (auto split: prod.split simp: edge_view_sym [of x y])
qed

lemma inter_inv_step_own:
  assumes "x \<noteq> y" "i \<noteq> j" "inter_inv n adj x y i j (db, ps)" "ps ! i = Cmd c k" "serves c db r db'"
  shows "inter_inv n adj x y i j (db', ps[i := k (Some r)])"
proof -
  obtain px py where inv: "graph_db n adj db" "i < length ps" "j < length ps"
      "follows (end_delta x y) (adm n adj) (Cmd c k) px (\<lambda>_ q. q = Done)"
      "follows (end_delta y x) (adm n adj) (ps ! j) py (\<lambda>_ q. q = Done)"
      "edge_inv x y (edge_view x y db px py)"
      "\<forall>l < length ps. l \<noteq> i \<and> l \<noteq> j \<longrightarrow> follows (out_delta x y) (adm n adj) (ps ! l) () (\<lambda>_ _. True)"
    using assms(3,4) by (auto simp: inter_inv_def)
  obtain q where q: "end_delta x y px c r = Some q" "follows (end_delta x y) (adm n adj) (k (Some r)) q (\<lambda>_ q. q = Done)"
      "graph_db n adj db'"
    using follows_step [OF inv(4,1) assms(5)] by auto
  have "edge_inv x y (edge_view x y db' q py)"
    by (rule edge_view_step [OF assms(1) inv(1) assms(5) q(1) inv(6)])
  with q inv(2,3,5,7) assms(2) show ?thesis by (auto simp: inter_inv_def)
qed

lemma inter_inv_step_out:
  assumes "x \<noteq> y" "inter_inv n adj x y i j (db, ps)" "l < length ps" "l \<noteq> i" "l \<noteq> j"
    "ps ! l = Cmd c k" "serves c db r db'"
  shows "inter_inv n adj x y i j (db', ps[l := k (Some r)])"
proof -
  have inv: "graph_db n adj db" "follows (out_delta x y) (adm n adj) (Cmd c k) () (\<lambda>_ _. True)"
    using assms(2-6) by (auto simp: inter_inv_def)
  obtain q where q: "out_delta x y () c r = Some q" "follows (out_delta x y) (adm n adj) (k (Some r)) q (\<lambda>_ _. True)"
      "graph_db n adj db'"
    using follows_step [OF inv(2,1) assms(7)] by auto
  have "edge_inv x y (edge_view x y db' px py) = edge_inv x y (edge_view x y db px py)" for px py
    using edge_inv_cong [OF edge_view_out [OF assms(7), of x y "()"] assms(1)] q(1) assms(1) by simp
  with q(2,3) assms(2-5) show ?thesis by (auto simp: inter_inv_def nth_list_update)
qed

lemma inter_inv_step:
  assumes "x \<noteq> y" "i \<noteq> j" "inter_inv n adj x y i j s" "sys_step s s'"
  shows "inter_inv n adj x y i j s'"
  using assms(4,3)
proof (cases rule: sys_step.cases)
  case (1 l ps c k db r db')
  then consider "l = i" | "l = j" | "l \<noteq> i" "l \<noteq> j" by blast
  then show ?thesis
  proof cases
    case 2
    have "inter_inv n adj y x j i (db, ps)" using inter_inv_sym [OF assms(1)] assms(3) 1(1) by simp
    then show ?thesis
      using inter_inv_step_own [of y x j i n adj db ps c k r db'] assms(1,2) 1 2 inter_inv_sym [OF assms(1)] by simp
  qed (use 1 assms inter_inv_step_own inter_inv_step_out in \<open>simp_all\<close>)
qed

section \<open>An edge inside one client\<close>

fun both_ok :: "nat \<Rightarrow> nat \<Rightarrow> keyspace \<Rightarrow> both_phase \<Rightarrow> bool" where
  "both_ok x y db B0 \<longleftrightarrow> status_of db y = 0"
| "both_ok x y db B1 \<longleftrightarrow> status_of db y = 0"
| "both_ok x y db (B2 s) \<longleftrightarrow> status_of db y = 0 \<and> str_at db (color_key x) = Some s"
| "both_ok x y db (B3 s) \<longleftrightarrow> status_of db y = 0 \<and> str_at db (color_key x) = Some s"
| "both_ok x y db (B4 s c) \<longleftrightarrow> status_of db y = 0 \<and> str_at db (color_key x) = Some s \<and> color_of db x = c"
| "both_ok x y db (B5 s v) \<longleftrightarrow> status_of db y = 0 \<and> str_at db (color_key y) = Some v
     \<and> color_of db x \<noteq> color_of db y"
| "both_ok x y db B6 \<longleftrightarrow> color_of db x \<noteq> color_of db y"

definition intra_inv :: "nat \<Rightarrow> (nat \<Rightarrow> nat list) \<Rightarrow> nat \<Rightarrow> nat \<Rightarrow> nat \<Rightarrow> system \<Rightarrow> bool" where
  "intra_inv n adj x y i s =
     (case s of (db, ps) \<Rightarrow>
        graph_db n adj db \<and> i < length ps
        \<and> (\<exists>p. follows (both_delta x y) (adm n adj) (ps ! i) p (\<lambda>_ q. q = B6) \<and> both_ok x y db p)
        \<and> (\<forall>k < length ps. k \<noteq> i \<longrightarrow> follows (out_delta x y) (adm n adj) (ps ! k) () (\<lambda>_ _. True)))"

lemma both_ok_cong:
  assumes "\<forall>k \<in> edge_keys x y. str_at db' k = str_at db k"
  shows "both_ok x y db' p = both_ok x y db p"
  using assms by (cases p) (simp_all add: color_of_def status_of_def edge_keys_def)

lemma both_ok_set:
  assumes "x \<noteq> y" "both_delta x y p (SET k v) r = Some q" "both_ok x y db p"
  shows "both_ok x y (AList.update k (StrObj v) db) q"
proof -
  have v: "cstr v = v" using assms(2) by (auto simp: both_delta_def split: if_splits)
  consider "k = color_key x" | "k = color_key y" | "k = status_key y"
    | "k \<noteq> color_key x" "k \<noteq> color_key y" "k \<noteq> status_key y" by blast
  then show ?thesis
  proof cases
    case 4
    then have "q = p" using assms(2) by (auto simp: both_delta_def split: if_splits)
    with 4 assms(3) show ?thesis by (cases p) (auto simp: color_of_def status_of_def)
  qed (use assms v in \<open>cases p; auto simp: both_delta_def color_of_def status_of_def colval_def split: if_splits\<close>)+
qed

lemma both_ok_step:
  assumes "x \<noteq> y" "graph_db n adj db" "serves c db r db'" "both_delta x y p c r = Some q" "both_ok x y db p"
  shows "both_ok x y db' q"
proof (cases c)
  case (GET k)
  then have "db' = db" "k = color_key x \<longrightarrow> reply_str r = str_at db k"
    using serves_GET [OF assms(2), of k r db'] assms(3) by (auto simp: serves_def)
  with assms(4,5) GET show ?thesis
    by (cases p) (auto simp: both_delta_def color_of_def split: if_splits)
next
  case (SET k v)
  with assms both_ok_set show ?thesis by (auto simp: serves_def)
next
  case (SMEMBERS k)
  with assms show ?thesis by (cases p) (auto simp: serves_def both_delta_def split: if_splits)
qed (use assms in \<open>auto simp: serves_def both_delta_def split: redisReply.splits\<close>)

lemma intra_inv_step:
  assumes "x \<noteq> y" "intra_inv n adj x y i s" "sys_step s s'"
  shows "intra_inv n adj x y i s'"
  using assms(3)
proof (cases rule: sys_step.cases)
  case (1 l ps c k db r db')
  obtain p where inv: "graph_db n adj db" "i < length ps"
      "follows (both_delta x y) (adm n adj) (ps ! i) p (\<lambda>_ q. q = B6)" "both_ok x y db p"
      "\<forall>k < length ps. k \<noteq> i \<longrightarrow> follows (out_delta x y) (adm n adj) (ps ! k) () (\<lambda>_ _. True)"
    using assms(2) 1(1) by (auto simp: intra_inv_def)
  show ?thesis
  proof (cases "l = i")
    case True
    then obtain q where q: "both_delta x y p c r = Some q" "graph_db n adj db'"
        "follows (both_delta x y) (adm n adj) (k (Some r)) q (\<lambda>_ q. q = B6)"
      using follows_step [OF _ inv(1) 1(5) protects_graph(2)] inv(3) 1(4) by metis
    with both_ok_step [OF assms(1) inv(1) 1(5) q(1) inv(4)] inv(2,5) True 1(2) show ?thesis
      by (auto simp: intra_inv_def)
  next
    case False
    then have "follows (out_delta x y) (adm n adj) (Cmd c k) () (\<lambda>_ _. True)" using inv(5) 1(3,4) by metis
    then obtain q where q: "out_delta x y () c r = Some q" "graph_db n adj db'"
        "follows (out_delta x y) (adm n adj) (k (Some r)) q (\<lambda>_ _. True)"
      using follows_step [OF _ inv(1) 1(5) protects_graph(3)] by metis
    have "both_ok x y db' p"
      using both_ok_cong [OF edge_view_out [OF 1(5), of x y "()"]] q(1) assms(1) inv(4) by simp
    with q(2,3) inv(2,3,5) False 1(2,3) show ?thesis
      by (auto simp: intra_inv_def nth_list_update)
  qed
qed

section \<open>Client programs\<close>

text \<open>
  \<open>process_node a b k\<close> colours the node stored under \<open>k\<close> for the task that owns the ids from
  \<open>a\<close> to \<open>b\<close>, \<open>process_nodes\<close> is the loop of \<open>main\<close> over these ids.
\<close>

locale node_loop =
  fixes process_node :: "int \<Rightarrow> int \<Rightarrow> string \<Rightarrow> unit prog"
    and process_nodes :: "string list \<Rightarrow> int \<Rightarrow> int \<Rightarrow> int \<Rightarrow> unit prog"
  assumes unfold_nodes: "process_nodes keys a b i =
      (if i \<le> b then
         if 0 \<le> i \<and> i < int (length keys)
         then bindp (process_node a b (keys ! nat i)) (\<lambda>_. process_nodes keys a b (i + 1))
         else Crash OutOfBounds
       else Ret ())"

text \<open>The contract of a client among others: it follows the monitors of every edge.\<close>

locale coloring_client = node_loop +
  assumes process_end: "graph_ok n adj \<Longrightarrow> x < n \<Longrightarrow> y \<in> set (adj x) \<Longrightarrow> int y < a \<or> b < int y \<Longrightarrow>
      follows (end_delta x y) (adm n adj) (process_node a b (node_key x)) Idle (\<lambda>_ q. q = Done)"
    and process_first: "graph_ok n adj \<Longrightarrow> x < n \<Longrightarrow> x \<noteq> y \<Longrightarrow>
      follows (both_delta x y) (adm n adj) (process_node a b (node_key x)) B0 (\<lambda>_ q. \<exists>s. q = B2 s)"
    and process_second: "graph_ok n adj \<Longrightarrow> y < n \<Longrightarrow> x \<in> set (adj y) \<Longrightarrow> a \<le> int x \<Longrightarrow> int x \<le> b \<Longrightarrow>
      follows (both_delta x y) (adm n adj) (process_node a b (node_key y)) (B2 s) (\<lambda>_ q. q = B6)"
    and pass_end: "graph_ok n adj \<Longrightarrow> w < n \<Longrightarrow> passes (end_delta x y) p (node_cmds adj w) \<Longrightarrow>
      follows (end_delta x y) (adm n adj) (process_node a b (node_key w)) p (\<lambda>_ q. q = p)"
    and pass_both: "graph_ok n adj \<Longrightarrow> w < n \<Longrightarrow> passes (both_delta x y) p' (node_cmds adj w) \<Longrightarrow>
      follows (both_delta x y) (adm n adj) (process_node a b (node_key w)) p' (\<lambda>_ q. q = p')"
    and pass_out: "graph_ok n adj \<Longrightarrow> w < n \<Longrightarrow> passes (out_delta x y) u (node_cmds adj w) \<Longrightarrow>
      follows (out_delta x y) (adm n adj) (process_node a b (node_key w)) u (\<lambda>_ q. q = u)"

text \<open>The keys of the nodes in the order of their numbers, as \<open>fetch_keys\<close> delivers them.\<close>

abbreviation node_keys :: "nat \<Rightarrow> string list" where
  "node_keys n \<equiv> map node_key [0..<n]"

context coloring_client
begin

lemma follows_nodes:
  assumes "\<And>i p. a \<le> i \<Longrightarrow> i \<le> b \<Longrightarrow> 0 \<le> i \<Longrightarrow> i < int n \<Longrightarrow> I i p \<Longrightarrow>
      follows \<delta> A (process_node a b (node_key (nat i))) p (\<lambda>_. I (i + 1))"
    and "\<And>i p. b < i \<Longrightarrow> I i p \<Longrightarrow> Q () p"
  shows "a \<le> i \<Longrightarrow> I i p \<Longrightarrow> follows \<delta> A (process_nodes (node_keys n) a b i) p Q"
proof (induction "nat (b + 1 - i)" arbitrary: i p)
  case 0
  then have "b < i" by simp
  with 0 assms(2) show ?case by (subst unfold_nodes) simp
next
  case (Suc m)
  have "follows \<delta> A (process_nodes (node_keys n) a b (i + 1)) q Q" if "I (i + 1) q" for q
    using Suc.hyps(1) [of "i + 1" q] Suc.hyps(2) Suc.prems(1) that by simp
  moreover have "node_keys n ! nat i = node_key (nat i)" if "0 \<le> i" "i < int n"
    using that by simp
  ultimately show ?case
    using Suc.hyps(2) Suc.prems assms(1)
    by (subst unfold_nodes) (auto intro!: follows_mono [OF assms(1)])
qed

lemma follows_nodes_end:
  assumes "graph_ok n adj" "x < n" "y \<in> set (adj x)" "a \<le> int x" "int x \<le> b" "int y < a \<or> b < int y"
  shows "follows (end_delta x y) (adm n adj) (process_nodes (node_keys n) a b a) Idle (\<lambda>_ q. q = Done)"
proof (rule follows_nodes [where I = "\<lambda>i p. p = (if i \<le> int x then Idle else Done)"])
  fix i p
  assume i: "a \<le> i" "i \<le> b" "0 \<le> i" "i < int n" and p: "p = (if i \<le> int x then Idle else Done)"
  show "follows (end_delta x y) (adm n adj) (process_node a b (node_key (nat i))) p
      (\<lambda>_ q. q = (if i + 1 \<le> int x then Idle else Done))"
  proof (cases "nat i = x")
    case True
    then have "i = int x" using i(3) by simp
    then show ?thesis using process_end [OF assms(1-3,6)] p by simp
  next
    case False
    have "int (nat i) = i" using i(3) by simp
    then have "nat i \<noteq> y" using i assms(6) by linarith
    then have "passes (end_delta x y) p (node_cmds adj (nat i))"
      using passes_node_cmds(1) [of "nat i" x y p adj] False p by auto
    then show ?thesis
      using pass_end [OF assms(1), of "nat i" x y p a b] False i p by (auto intro: follows_mono)
  qed
qed (use assms(4,5) in auto)

lemma follows_nodes_both:
  assumes "graph_ok n adj" "x < n" "y < n" "x \<in> set (adj y)" "x < y" "a \<le> int x" "int y \<le> b"
  shows "follows (both_delta x y) (adm n adj) (process_nodes (node_keys n) a b a) B0 (\<lambda>_ q. q = B6)"
proof (rule follows_nodes [where I = "\<lambda>i p. if i \<le> int x then p = B0 else if i \<le> int y then \<exists>s. p = B2 s else p = B6"])
  let ?I = "\<lambda>i p. if i \<le> int x then p = B0 else if i \<le> int y then \<exists>s. p = B2 s else p = B6"
  fix i p
  assume i: "a \<le> i" "i \<le> b" "0 \<le> i" "i < int n" and p: "?I i p"
  consider "nat i = x" | "nat i = y" | "nat i \<noteq> x" "nat i \<noteq> y" by blast
  then show "follows (both_delta x y) (adm n adj) (process_node a b (node_key (nat i))) p (\<lambda>_. ?I (i + 1))"
  proof cases
    case 1
    then have "i = int x" using i(3) by simp
    then show ?thesis
      using p assms(5) by (auto intro!: follows_mono [OF process_first [OF assms(1,2)]])
  next
    case 2
    then have "i = int y" using i(3) by simp
    then show ?thesis
      using p assms(5,7) by (auto intro!: follows_mono [OF process_second [OF assms(1,3,4,6)]])
  next
    case 3
    then have "passes (both_delta x y) p (node_cmds adj (nat i))"
      using passes_node_cmds(2) [of "nat i" x y p adj] p by (auto split: if_splits)
    then have "follows (both_delta x y) (adm n adj) (process_node a b (node_key (nat i))) p (\<lambda>_ q. q = p)"
      using pass_both [OF assms(1)] i by simp
    then show ?thesis by (rule follows_mono) (use 3 i p in \<open>auto split: if_splits\<close>)
  qed
qed (use assms(5-7) in \<open>auto split: if_splits\<close>)

lemma follows_nodes_out:
  assumes "graph_ok n adj" "int x < a \<or> b < int x" "int y < a \<or> b < int y"
  shows "follows (out_delta x y) (adm n adj) (process_nodes (node_keys n) a b a) () (\<lambda>_ _. True)"
proof (rule follows_nodes [where I = "\<lambda>_ _. True"])
  fix i p assume "a \<le> i" "i \<le> b" "0 \<le> i" "i < int n"
  then show "follows (out_delta x y) (adm n adj) (process_node a b (node_key (nat i))) p (\<lambda>_ _. True)"
    using follows_mono [OF pass_out [OF assms(1), of "nat i" x y p]] passes_node_cmds(3) assms(2,3) by auto
qed auto

end

section \<open>Tasks\<close>

text \<open>A task is the pair of its first and last node id.\<close>

definition owns :: "int \<times> int \<Rightarrow> nat \<Rightarrow> bool" where
  "owns t u \<longleftrightarrow> fst t \<le> int u \<and> int u \<le> snd t"

definition disjoint_tasks :: "(int \<times> int) list \<Rightarrow> bool" where
  "disjoint_tasks ts \<longleftrightarrow>
     (\<forall>i < length ts. \<forall>j < length ts. i \<noteq> j \<longrightarrow> snd (ts ! i) < fst (ts ! j) \<or> snd (ts ! j) < fst (ts ! i))"

definition owned :: "(int \<times> int) list \<Rightarrow> nat \<Rightarrow> bool" where
  "owned ts u \<longleftrightarrow> (\<exists>t \<in> set ts. owns t u)"

text \<open>The state before any client has started: no status is set and no flag is raised.\<close>

definition unstarted :: "nat \<Rightarrow> keyspace \<Rightarrow> bool" where
  "unstarted n db \<longleftrightarrow>
     (\<forall>u < n. status_of db u = 0 \<and> (\<forall>v < n. str_at db (flag_key u v) \<noteq> Some ''1''))"

text \<open>One client per task, each running its loop over the graph's nodes.\<close>

definition clients ::
    "(string list \<Rightarrow> int \<Rightarrow> int \<Rightarrow> int \<Rightarrow> unit prog) \<Rightarrow> nat \<Rightarrow> (int \<times> int) list \<Rightarrow> unit prog list" where
  "clients loop n ts = map (\<lambda>t. loop (node_keys n) (fst t) (snd t) (fst t)) ts"

lemma disjoint_owner:
  "disjoint_tasks ts \<Longrightarrow> i < length ts \<Longrightarrow> j < length ts \<Longrightarrow> owns (ts ! i) u \<Longrightarrow> owns (ts ! j) u \<Longrightarrow> i = j"
  unfolding disjoint_tasks_def owns_def by force

lemma edge_inv_start:
  assumes "unstarted n db" "x < n" "y < n" "x \<noteq> y"
  shows "edge_inv x y (edge_view x y db Idle Idle)"
  using assms by (simp add: unstarted_def edge_inv_def half_inv_def edge_view_def flagged_def status_of_def)

lemma inter_inv_status:
  assumes "inter_inv n adj x y i j (db, ps)" "status_of db x \<noteq> 0" "status_of db y \<noteq> 0" "x \<noteq> y"
  shows "color_of db x \<noteq> color_of db y"
proof -
  obtain px py where inv: "edge_inv x y (edge_view x y db px py)"
    using assms(1) by (auto simp: inter_inv_def)
  then have "stated px" "stated py"
    using assms(2-4) by (auto simp: edge_inv_def half_inv_def edge_view_def status_of_def)
  then have "colored px" "colored py" by (cases px; cases py; simp)+
  with inv assms(4) show ?thesis by (simp add: edge_inv_def edge_view_def color_of_def)
qed

lemma inter_inv_finished:
  assumes "inter_inv n adj x y i j (db, ps)" "ps ! i = Ret ()" "ps ! j = Ret ()" "x \<noteq> y"
  shows "status_of db x \<noteq> 0 \<and> status_of db y \<noteq> 0"
  using assms by (auto simp: inter_inv_def edge_inv_def half_inv_def edge_view_def status_of_def)

lemma intra_inv_status:
  assumes "intra_inv n adj x y i (db, ps)" "status_of db y \<noteq> 0"
  shows "color_of db x \<noteq> color_of db y"
proof -
  obtain p where "both_ok x y db p" using assms(1) by (auto simp: intra_inv_def)
  with assms(2) show ?thesis by (cases p) auto
qed

lemma intra_inv_finished:
  assumes "intra_inv n adj x y i (db, ps)" "ps ! i = Ret ()"
  shows "color_of db x \<noteq> color_of db y"
  using assms by (auto simp: intra_inv_def)

context coloring_client
begin

lemma inter_inv_start:
  assumes "graph_ok n adj" "graph_db n adj db" "unstarted n db" "disjoint_tasks ts"
    and "x < n" "y \<in> set (adj x)" "i < length ts" "j < length ts" "i \<noteq> j" "owns (ts ! i) x" "owns (ts ! j) y"
  shows "inter_inv n adj x y i j (db, clients process_nodes n ts)"
proof -
  note nodes = graph_okD [OF assms(1,5)]
  have notown: "\<not> owns (ts ! l) x" if "l < length ts" "l \<noteq> i" for l
    using disjoint_owner [OF assms(4) that(1) assms(7) _ assms(10)] that by blast
  have notown': "\<not> owns (ts ! l) y" if "l < length ts" "l \<noteq> j" for l
    using disjoint_owner [OF assms(4) that(1) assms(8) _ assms(11)] that by blast
  have "follows (end_delta x y) (adm n adj) (clients process_nodes n ts ! i) Idle (\<lambda>_ q. q = Done)"
    using follows_nodes_end [OF assms(1,5,6)] assms(7,10) notown' [OF assms(7,9)]
    by (auto simp: clients_def owns_def not_le)
  moreover have "follows (end_delta y x) (adm n adj) (clients process_nodes n ts ! j) Idle (\<lambda>_ q. q = Done)"
    using follows_nodes_end [OF assms(1) nodes(3,6) [OF assms(6)]] assms(8,11)
      notown [OF assms(8) assms(9) [symmetric]]
    by (auto simp: clients_def owns_def not_le)
  moreover have "follows (out_delta x y) (adm n adj) (clients process_nodes n ts ! l) () (\<lambda>_ _. True)"
    if "l < length ts" "l \<noteq> i" "l \<noteq> j" for l
    using follows_nodes_out [OF assms(1)] notown [OF that(1,2)] notown' [OF that(1,3)] that(1)
    by (auto simp: clients_def owns_def not_le)
  moreover have "edge_inv x y (edge_view x y db Idle Idle)"
    using edge_inv_start [OF assms(3,5) nodes(3) [OF assms(6)]] nodes(5) [OF assms(6)] by blast
  moreover have "length (clients process_nodes n ts) = length ts" by (simp add: clients_def)
  ultimately show ?thesis
    using assms(2,7,8) unfolding inter_inv_def by auto
qed

lemma intra_inv_start:
  assumes "graph_ok n adj" "graph_db n adj db" "unstarted n db" "disjoint_tasks ts"
    and "x < n" "y \<in> set (adj x)" "x < y" "i < length ts" "owns (ts ! i) x" "owns (ts ! i) y"
  shows "intra_inv n adj x y i (db, clients process_nodes n ts)"
proof -
  note nodes = graph_okD [OF assms(1,5)]
  have "follows (both_delta x y) (adm n adj) (clients process_nodes n ts ! i) B0 (\<lambda>_ q. q = B6)"
    using follows_nodes_both [OF assms(1,5) nodes(3,6) [OF assms(6)] assms(7)] assms(8-)
    by (auto simp: clients_def owns_def)
  moreover have "follows (out_delta x y) (adm n adj) (clients process_nodes n ts ! l) () (\<lambda>_ _. True)"
    if "l < length ts" "l \<noteq> i" for l
  proof -
    have "\<not> owns (ts ! l) x" "\<not> owns (ts ! l) y"
      using disjoint_owner [OF assms(4) that(1) assms(8)] assms(9,10) that(2) by blast+
    then show ?thesis
      using follows_nodes_out [OF assms(1)] that(1) by (auto simp: clients_def owns_def not_le)
  qed
  moreover have "both_ok x y db B0" using assms(3) nodes(3) [OF assms(6)] by (simp add: unstarted_def)
  moreover have "length (clients process_nodes n ts) = length ts" by (simp add: clients_def)
  ultimately show ?thesis
    using assms(2,8) unfolding intra_inv_def by auto
qed

end

lemma sys_reach_inv:
  assumes "sys_reach s s'" "P s" "\<And>s s'. P s \<Longrightarrow> sys_step s s' \<Longrightarrow> P s'"
  shows "P s'"
  using assms by (induction rule: rtranclp_induct) blast+

lemma sys_reach_length:
  assumes "sys_reach s s'"
  shows "length (snd s') = length (snd s)"
  using assms by (induction rule: rtranclp_induct) (auto elim: sys_step.cases)

lemma owned_index:
  assumes "owned ts u"
  obtains i where "i < length ts" "owns (ts ! i) u"
  using assms by (auto simp: owned_def in_set_conv_nth)

context coloring_client
begin

text \<open>Every edge between owned nodes is watched by one of the two invariants.\<close>

lemma edge_cases:
  assumes "graph_ok n adj" "graph_db n adj db" "unstarted n db" "disjoint_tasks ts"
    and "sys_reach (db, clients process_nodes n ts) s" "u < n" "v \<in> set (adj u)" "owned ts u" "owned ts v"
  obtains i j where "i < length ts" "j < length ts" "inter_inv n adj u v i j s"
  | i where "i < length ts" "intra_inv n adj u v i s"
  | i where "i < length ts" "intra_inv n adj v u i s"
proof -
  obtain i where i: "i < length ts" "owns (ts ! i) u" using assms(8) by (rule owned_index)
  obtain j where j: "j < length ts" "owns (ts ! j) v" using assms(9) by (rule owned_index)
  note nodes = graph_okD [OF assms(1,6)]
  have uv: "u \<noteq> v" using nodes(5) assms(7) by blast
  consider "i \<noteq> j" | "i = j" "u < v" | "i = j" "v < u" using uv by linarith
  then show thesis
  proof cases
    case 1
    have "inter_inv n adj u v i j s"
      using sys_reach_inv [OF assms(5), of "inter_inv n adj u v i j"] inter_inv_step [OF uv 1]
        inter_inv_start [OF assms(1-4,6,7) i(1) j(1) 1 i(2) j(2)] by blast
    with i j that(1) show ?thesis by blast
  next
    case 2
    have "intra_inv n adj u v i s"
      using sys_reach_inv [OF assms(5), of "intra_inv n adj u v i"] intra_inv_step [OF uv]
        intra_inv_start [OF assms(1-4,6,7) 2(2) i] 2(1) j(2) by blast
    with i that(2) show ?thesis by blast
  next
    case 3
    have "intra_inv n adj v u i s"
      using sys_reach_inv [OF assms(5), of "intra_inv n adj v u i"] intra_inv_step [OF uv [symmetric]]
        intra_inv_start [OF assms(1-4) nodes(3,6) [OF assms(7)] 3(2) i(1)] 3(1) i(2) j(2) by blast
    with i that(3) show ?thesis by blast
  qed
qed

lemma colored_ends_differ:
  assumes "graph_ok n adj" "graph_db n adj db" "unstarted n db" "disjoint_tasks ts"
    and "sys_reach (db, clients process_nodes n ts) (db', ps)" "u < n" "v \<in> set (adj u)" "owned ts u" "owned ts v"
    and "status_of db' u \<noteq> 0" "status_of db' v \<noteq> 0"
  shows "color_of db' u \<noteq> color_of db' v"
proof -
  have "u \<noteq> v" using graph_okD(5) [OF assms(1,6,7)] by blast
  then show ?thesis
    using edge_cases [OF assms(1-9)] inter_inv_status intra_inv_status assms(10,11) by metis
qed

lemma finished_ends_differ:
  assumes "graph_ok n adj" "graph_db n adj db" "unstarted n db" "disjoint_tasks ts"
    and "sys_reach (db, clients process_nodes n ts) (db', ps)" "u < n" "v \<in> set (adj u)" "owned ts u" "owned ts v"
    and "\<forall>p \<in> set ps. p = Ret ()"
  shows "color_of db' u \<noteq> color_of db' v"
proof -
  have uv: "u \<noteq> v" using graph_okD(5) [OF assms(1,6,7)] by blast
  have "length ps = length ts"
    using sys_reach_length [OF assms(5)] by (simp add: clients_def)
  then have fin: "i < length ts \<Longrightarrow> ps ! i = Ret ()" for i using assms(10) by simp
  show ?thesis
  proof (rule edge_cases [OF assms(1-9)])
    fix i j assume ij: "i < length ts" "j < length ts" and inv: "inter_inv n adj u v i j (db', ps)"
    show ?thesis
      using inter_inv_status [OF inv _ _ uv] inter_inv_finished [OF inv fin fin uv] ij by blast
  next
    fix i assume "i < length ts" "intra_inv n adj u v i (db', ps)"
    then show ?thesis using intra_inv_finished fin by blast
  next
    fix i assume "i < length ts" "intra_inv n adj v u i (db', ps)"
    then show ?thesis using intra_inv_finished fin by metis
  qed
qed

end

section \<open>Running a schedule\<close>

text \<open>An executable scheduler: the list says which client makes the next step.\<close>

fun run_client :: "nat \<Rightarrow> system \<Rightarrow> system" where
  "run_client i (db, ps) =
     (if i < length ps then
        (case ps ! i of
           Cmd c k \<Rightarrow> (case exec_cmd c db of (r, db') \<Rightarrow> (db', ps[i := k (Some r)]))
         | _ \<Rightarrow> (db, ps))
      else (db, ps))"

definition run_schedule :: "nat list \<Rightarrow> system \<Rightarrow> system" where
  "run_schedule sched s = fold run_client sched s"

lemma exec_serves: "exec_cmd c db = (r, db') \<Longrightarrow> serves c db r db'"
  by (cases c) (auto simp: serves_def)

lemma run_client_reach: "sys_reach s (run_client i s)"
proof (cases s)
  case (Pair db ps)
  show ?thesis
  proof (cases "i < length ps \<and> (\<exists>c k. ps ! i = Cmd c k)")
    case True
    then obtain c k where c: "i < length ps" "ps ! i = Cmd c k" by blast
    obtain r db' where r: "exec_cmd c db = (r, db')" by fastforce
    have "sys_step s (run_client i s)"
      using sys_step.intros [OF c exec_serves [OF r]] c r Pair by simp
    then show ?thesis by blast
  next
    case False
    then have "run_client i s = s" using Pair by (auto split: prog.split)
    then show ?thesis by simp
  qed
qed

lemma run_schedule_reach: "sys_reach s (run_schedule sched s)"
  unfolding run_schedule_def
proof (induction sched arbitrary: s)
  case (Cons i sched)
  show ?case using rtranclp_trans [OF run_client_reach Cons.IH] by simp
qed simp

end
