(* ===== verification/Small_graph.thy ===== *)
theory Small_graph
  imports Interleaving
begin

text \<open>
  The graph that the witnesses of the client properties use: one edge between two nodes, as it
  lies on the server before any client has started.
\<close>

definition edge_adj :: "nat \<Rightarrow> nat list" where
  "edge_adj u = (if u = 0 then [1] else if u = 1 then [0] else [])"

definition edge_db :: keyspace where
  "edge_db = [(neighbours_key 0, SetObj [decimal 1]), (neighbours_key 1, SetObj [decimal 0])]"

lemma edge_graph_ok: "graph_ok 2 edge_adj"
  by (auto simp: graph_ok_def edge_adj_def less_2_cases_iff)

lemma edge_graph_db: "graph_db 2 edge_adj edge_db"
  by (auto simp: graph_db_def edge_adj_def edge_db_def less_2_cases_iff)

lemma edge_unstarted: "unstarted 2 edge_db"
  by (auto simp: unstarted_def status_of_def str_at_def edge_db_def statval_def)

lemma edge_tasks: "disjoint_tasks [(0, 0), (1, 1)]" "owned [(0, 0), (1, 1)] 0" "owned [(0, 0), (1, 1)] 1"
  by (auto simp: disjoint_tasks_def owned_def owns_def less_Suc_eq)

end
