(* ===== verification/Alone.thy ===== *)
theory Alone
  imports Interleaving
begin

text \<open>
  A client that has the server to itself: it always returns. \<open>returns m db Q\<close> says that the
  program \<open>m\<close>, run alone against the keyspace \<open>db\<close>, ends without a crash and without running out
  of fuel, and that its result and the keyspace it leaves satisfy \<open>Q\<close>. The locale \<open>lone_client\<close>
  is the contract of the step that colours one node; from it follows what the loop over
  a range of nodes does.
\<close>

section \<open>Runs that return\<close>

definition returns :: "'a prog \<Rightarrow> keyspace \<Rightarrow> ('a \<Rightarrow> keyspace \<Rightarrow> bool) \<Rightarrow> bool" where
  "returns m db Q \<longleftrightarrow> (\<exists>x db'. exec m db = (Inr x, db') \<and> Q x db')"

lemma returns_Ret [simp]: "returns (Ret x) db Q \<longleftrightarrow> Q x db"
  and returns_Crash [simp]: "\<not> returns (Crash e) db Q"
  and returns_Cmd: "returns (Cmd c k) db Q \<longleftrightarrow>
    (case exec_cmd c db of (r, db') \<Rightarrow> returns (k (Some r)) db' Q)"
  by (simp_all add: returns_def Let_def case_prod_unfold)

lemma returns_bindp [simp]:
  "returns (bindp m f) db Q \<longleftrightarrow> returns m db (\<lambda>x db'. returns (f x) db' Q)"
  by (auto simp: returns_def exec_bindp split: prod.splits sum.splits)

lemma returns_lift [simp]: "returns (lift_result (Inr x)) db Q \<longleftrightarrow> Q x db"
  by (simp add: lift_result_def)

lemma returns_mono: "returns m db Q \<Longrightarrow> (\<And>x db'. Q x db' \<Longrightarrow> R x db') \<Longrightarrow> returns m db R"
  by (auto simp: returns_def)

section \<open>Keyspaces that agree on the graph\<close>

text \<open>The flags that are up.\<close>

definition raised :: "keyspace \<Rightarrow> (nat \<times> nat) set" where
  "raised db = {(u, v). str_at db (flag_key u v) = Some ''1''}"

text \<open>\<open>db'\<close> has the colours and statuses of \<open>db\<close> for all nodes outside \<open>U\<close>.\<close>

definition same_but :: "nat set \<Rightarrow> keyspace \<Rightarrow> keyspace \<Rightarrow> bool" where
  "same_but U db db' \<longleftrightarrow> (\<forall>u. u \<notin> U \<longrightarrow> color_of db' u = color_of db u \<and> status_of db' u = status_of db u)"

lemma same_but_refl [simp]: "same_but U db db"
  by (simp add: same_but_def)

lemma same_but_trans: "same_but U db db' \<Longrightarrow> same_but V db' db'' \<Longrightarrow> same_but (U \<union> V) db db''"
  by (auto simp: same_but_def)

lemma graph_db_set:
  assumes "graph_db n adj db" "\<not> is_neighbours_key k"
  shows "graph_db n adj (AList.update k (StrObj v) db)"
  by (rule graph_db_upd [OF assms]) simp

lemma set_flag_frame:
  assumes "graph_db n adj db"
  shows "graph_db n adj (AList.update (flag_key u v) (StrObj s) db)"
    and "same_but {} db (AList.update (flag_key u v) (StrObj s) db)"
    and "graph_db n adj (AList.update (edge_turn_key u v) (StrObj s) db)"
    and "same_but {} db (AList.update (edge_turn_key u v) (StrObj s) db)"
  using assms by (simp_all add: graph_db_set same_but_def color_of_def status_of_def)

lemma raised_simps [simp]:
  "raised (AList.update (flag_key u v) (StrObj ''1'') db) = insert (u, v) (raised db)"
  "raised (AList.update (flag_key u v) (StrObj ''0'') db) = raised db - {(u, v)}"
  "raised (AList.update (edge_turn_key u v) (StrObj s) db) = raised db"
  "raised (AList.update (color_key w) (StrObj s) db) = raised db"
  "raised (AList.update (status_key w) (StrObj s) db) = raised db"
  by (auto simp: raised_def split: if_splits)

section \<open>The functions that both clients share\<close>

lemma returns_get_node_color:
  assumes "graph_db n adj db" "node_num v"
  shows "returns (Color_1server.get_node_color (decimal v)) db Q \<longleftrightarrow> Q (color_of db v) db"
proof -
  have "map_of db (color_key v) = None \<or> (\<exists>s. map_of db (color_key v) = Some (StrObj s))"
    using graph_dbD(2) [OF assms(1) is_neighbours_key_simps(2)] by blast
  then show ?thesis
    using assms(2)
    by (auto simp: Color_1server.get_node_color_def returns_Cmd color_of_def str_at_def colval_def)
qed

lemma returns_get_status:
  assumes "graph_db n adj db" "node_num v"
  shows "returns (Color_1server.get_status (decimal v)) db Q \<longleftrightarrow> Q (status_of db v) db"
proof -
  have "map_of db (status_key v) = None \<or> (\<exists>s. map_of db (status_key v) = Some (StrObj s))"
    using graph_dbD(2) [OF assms(1) is_neighbours_key_simps(3)] by blast
  then show ?thesis
    using assms(2)
    by (auto simp: Color_1server.get_status_def returns_Cmd status_of_def str_at_def statval_def)
qed

lemma returns_get_all_neighbours:
  assumes "graph_ok n adj" "graph_db n adj db" "u < n"
  shows "returns (Color_1server.get_all_neighbours (node_key u)) db Q \<longleftrightarrow> Q (Some (map decimal (adj u))) db"
  using assms graph_okD(1) [OF assms(1,3)] decimal_elements [of "adj u"]
  by (simp add: Color_1server.get_all_neighbours_def returns_Cmd graph_dbD(1) [OF assms(2)] comp_def)

lemma boundary_loop_decimal:
  "\<exists>i. Color_1server.boundary_loop (map (RString \<circ> decimal) us) b a = Inr i"
  by (induction us) (auto simp: Let_def)

lemma returns_check_boundary:
  assumes "graph_ok n adj" "graph_db n adj db" "u < n" "\<And>i. Q i db"
  shows "returns (Color_1server.check_boundary_node (node_key u) b a) db Q"
proof -
  obtain i where "Color_1server.boundary_loop (map (RString \<circ> decimal) (adj u)) b a = Inr i"
    using boundary_loop_decimal by blast
  then show ?thesis
    using assms graph_okD(1) [OF assms(1,3)]
    by (simp add: Color_1server.check_boundary_node_def returns_Cmd graph_dbD(1) [OF assms(2)] comp_def)
qed

text \<open>The waiting loop ends at once when the flag of the other end is down.\<close>

lemma wait_condition_calm:
  assumes "reply_str f \<noteq> Some ''1''"
  shows "wait_condition (Some f) t l = Inr False"
  using assms by (auto simp: wait_condition_def split: option.split)

lemma get_flag_calm:
  assumes "graph_db n adj db" "(v, w) \<notin> raised db"
  shows "exec_cmd (GET (flag_key v w)) db = (r, db') \<Longrightarrow> reply_str r \<noteq> Some ''1'' \<and> db' = db"
  using serves_GET [OF assms(1), of "flag_key v w" r db'] exec_serves assms(2)
  by (auto simp: raised_def)

section \<open>Colouring one node, and all nodes of a task\<close>

definition colors_node :: "nat \<Rightarrow> (nat \<Rightarrow> nat list) \<Rightarrow> nat \<Rightarrow> keyspace \<Rightarrow> keyspace \<Rightarrow> bool" where
  "colors_node n adj w db db' \<longleftrightarrow>
     graph_db n adj db' \<and> raised db' = {} \<and> same_but {w} db db' \<and> status_of db' w = 1
     \<and> 0 \<le> color_of db' w \<and> color_of db' w \<le> int (length (adj w))
     \<and> color_of db' w \<notin> color_of db ` set (adj w)
     \<and> (\<forall>c. 0 \<le> c \<and> c < color_of db' w \<longrightarrow> c \<in> color_of db ` set (adj w))"

definition node_done :: "(nat \<Rightarrow> nat list) \<Rightarrow> keyspace \<Rightarrow> nat \<Rightarrow> bool" where
  "node_done adj db u \<longleftrightarrow>
     status_of db u = 1 \<and> 0 \<le> color_of db u \<and> color_of db u \<le> int (length (adj u))
     \<and> (\<forall>v \<in> set (adj u). color_of db v \<noteq> color_of db u)"

definition range_done :: "nat \<Rightarrow> (nat \<Rightarrow> nat list) \<Rightarrow> int \<Rightarrow> int \<Rightarrow> keyspace \<Rightarrow> keyspace \<Rightarrow> bool" where
  "range_done n adj a i db db' \<longleftrightarrow>
     graph_db n adj db' \<and> raised db' = {} \<and> same_but {u. a \<le> int u \<and> int u < i} db db'
     \<and> (\<forall>u. a \<le> int u \<and> int u < i \<longrightarrow> node_done adj db' u)"

lemma range_done_step:
  assumes "graph_ok n adj" "range_done n adj a (int w) db db1" "colors_node n adj w db1 db2" "w < n" "a \<le> int w"
  shows "range_done n adj a (int w + 1) db db2"
proof -
  have one: "same_but {u. a \<le> int u \<and> int u < int w} db db1" "same_but {w} db1 db2"
    and "graph_db n adj db2" "raised db2 = {}"
    using assms(2,3) by (simp_all add: range_done_def colors_node_def)
  moreover have "{u. a \<le> int u \<and> int u < int w} \<union> {w} = {u. a \<le> int u \<and> int u < int w + 1}"
    using assms(5) by auto
  then have "same_but {u. a \<le> int u \<and> int u < int w + 1} db db2"
    using same_but_trans [OF one] by simp
  moreover have "node_done adj db2 u" if u: "a \<le> int u" "int u < int w + 1" for u
  proof (cases "u = w")
    case True
    have "color_of db2 v = color_of db1 v" if "v \<in> set (adj w)" for v
      using one(2) graph_okD(5) [OF assms(1,4) that] by (simp add: same_but_def)
    then have "color_of db2 v \<noteq> color_of db2 w" if "v \<in> set (adj w)" for v
      using assms(3) that unfolding colors_node_def by (metis image_eqI)
    with True assms(3) show ?thesis by (simp add: node_done_def colors_node_def)
  next
    case False
    then have old: "node_done adj db1 u" and "u < n" using assms(2,4) u by (auto simp: range_done_def)
    have same: "color_of db2 v = color_of db1 v \<and> status_of db2 v = status_of db1 v" if "v \<noteq> w" for v
      using one(2) that by (simp add: same_but_def)
    have "color_of db2 w \<noteq> color_of db1 u" if "w \<in> set (adj u)"
      using graph_okD(6) [OF assms(1) \<open>u < n\<close> that] assms(3) by (auto simp: colors_node_def)
    then show ?thesis
      using old same False unfolding node_done_def by metis
  qed
  ultimately show ?thesis by (simp add: range_done_def)
qed

text \<open>The contract of a client that is alone.\<close>

locale lone_client = node_loop +
  assumes process_alone: "graph_ok n adj \<Longrightarrow> graph_db n adj db \<Longrightarrow> raised db = {} \<Longrightarrow> w < n \<Longrightarrow>
    returns (process_node a b (node_key w)) db (\<lambda>_. colors_node n adj w db)"
begin

lemma nodes_alone:
  assumes "graph_ok n adj" "0 \<le> a" "b < int n"
  shows "a \<le> i \<Longrightarrow> i \<le> b + 1 \<Longrightarrow> range_done n adj a i db0 db \<Longrightarrow>
    returns (process_nodes (node_keys n) a b i) db (\<lambda>_. range_done n adj a (b + 1) db0)"
proof (induction "nat (b + 1 - i)" arbitrary: i db)
  case 0
  then have "i = b + 1" by simp
  with 0 show ?case by (subst unfold_nodes) simp
next
  case (Suc m)
  define w where "w = nat i"
  have w: "i = int w" "w < n" "a \<le> int w" using Suc.hyps(2) Suc.prems assms(2,3) by (auto simp: w_def)
  have db: "graph_db n adj db" "raised db = {}" using Suc.prems(3) by (simp_all add: range_done_def)
  have m: "m = nat (b + 1 - (i + 1))" "a \<le> i + 1" "i + 1 \<le> b + 1" using Suc.hyps(2) Suc.prems(1) by auto
  have "returns (process_nodes (node_keys n) a b (i + 1)) db1 (\<lambda>_. range_done n adj a (b + 1) db0)"
    if "colors_node n adj w db db1" for db1
  proof (rule Suc.hyps(1) [OF m])
    show "range_done n adj a (i + 1) db0 db1"
      using range_done_step [OF assms(1) _ that w(2,3)] Suc.prems(3) unfolding w(1) by blast
  qed
  then have "returns (process_node a b (node_key w)) db (\<lambda>_ db1.
      returns (process_nodes (node_keys n) a b (i + 1)) db1 (\<lambda>_. range_done n adj a (b + 1) db0))"
    by (rule returns_mono [OF process_alone [OF assms(1) db w(2)]])
  moreover have "i \<le> b" "0 \<le> i" "i < int n" "node_keys n ! nat i = node_key w"
    using m(3) w by simp_all
  ultimately show ?case
    unfolding unfold_nodes [of "node_keys n" a b i] by simp
qed

text \<open>An id past the last node: the nodes before it are coloured, then \<open>keys[i]\<close> is out of range.\<close>

lemma nodes_out_of_range:
  assumes "graph_ok n adj" "0 \<le> a" "int n \<le> b"
  shows "a \<le> i \<Longrightarrow> i \<le> int n \<Longrightarrow> range_done n adj a i db0 db \<Longrightarrow>
    \<exists>db'. exec (process_nodes (node_keys n) a b i) db = (Inl OutOfBounds, db') \<and> range_done n adj a (int n) db0 db'"
proof (induction "nat (int n - i)" arbitrary: i db)
  case 0
  then have "i = int n" by simp
  with 0 assms show ?case by (subst unfold_nodes) simp
next
  case (Suc m)
  define w where "w = nat i"
  have w: "i = int w" "w < n" "a \<le> int w" using Suc.hyps(2) Suc.prems assms(2) by (auto simp: w_def)
  have db: "graph_db n adj db" "raised db = {}" using Suc.prems(3) by (simp_all add: range_done_def)
  obtain u db1 where db1: "exec (process_node a b (node_key w)) db = (Inr u, db1)" "colors_node n adj w db db1"
    using process_alone [OF assms(1) db w(2), of a b] by (auto simp: returns_def)
  have m: "m = nat (int n - (i + 1))" "a \<le> i + 1" "i + 1 \<le> int n" using Suc.hyps(2) Suc.prems(1) by auto
  have "range_done n adj a (i + 1) db0 db1"
    using range_done_step [OF assms(1) _ db1(2) w(2,3)] Suc.prems(3) unfolding w(1) by blast
  then obtain db' where "exec (process_nodes (node_keys n) a b (i + 1)) db1 = (Inl OutOfBounds, db')"
      "range_done n adj a (int n) db0 db'"
    using Suc.hyps(1) [OF m] by blast
  moreover have "i \<le> b" "0 \<le> i" "i < int n" "node_keys n ! nat i = node_key w"
    using assms(3) w by simp_all
  ultimately show ?case
    unfolding unfold_nodes [of "node_keys n" a b i] using db1(1) by (simp add: exec_bindp)
qed

lemma task_alone:
  assumes "graph_ok n adj" "0 \<le> a" "a \<le> b + 1" "b < int n" "graph_db n adj db" "raised db = {}"
  shows "returns (process_nodes (node_keys n) a b a) db (\<lambda>_. range_done n adj a (b + 1) db)"
proof (rule nodes_alone [OF assms(1,2,4) _ assms(3)])
  show "range_done n adj a a db db" using assms(5,6) by (auto simp: range_done_def)
qed simp

end

end
