(* ===== verification/Follow_sync.thy ===== *)
theory Follow_sync
  imports Interleaving
begin

text \<open>
  The replica-waiting client (\<open>Color_sync\<close>) follows the monitors of every edge. The lemmas go
  bottom up, one per function of \<open>sync/color.c\<close>, for every number of replicas, every
  timeout and every sequence of \<open>WAIT\<close> replies.
\<close>

section \<open>Writes and the lock\<close>

lemma follows_write_loop:
  assumes "\<And>r. \<delta> p c r = Some q" "\<And>r. \<delta> q c r = Some q" "\<And>r. \<delta> q (WAIT rr tmo) r = Some q" "Q () q"
  shows "follows \<delta> A (write_loop fuel req rr tmo c) p Q"
  using assms(1)
proof (induction fuel arbitrary: p)
  case 0
  then show ?case using assms(2-) by (simp add: write_loop.simps Let_def)
next
  case (Suc fuel)
  show ?case
    using Suc.prems Suc.IH [of q] assms(2-)
    by (subst write_loop.simps) (simp add: Let_def)
qed

lemma follows_write:
  assumes "\<And>r. \<delta> p (SET k v) r = Some q" "\<And>r. \<delta> q (SET k v) r = Some q"
    "\<And>rr r. \<delta> q (WAIT rr tmo) r = Some q" "Q () q"
  shows "follows \<delta> A (write_with_wait fuel reps tmo ''SET'' k v) p Q"
  using assms by (auto simp: write_with_wait_def format_command_def intro: follows_write_loop split: option.split)

lemma follows_acquire_pass:
  assumes "passes \<delta> p (look_cmds w v)" "wait_ok \<delta> p" "Q () p"
  shows "follows \<delta> A (acquire_lock fuel (edge_lock w v) reps tmo) p Q"
  using assms
  by (auto simp: acquire_lock_def passes_def look_cmds_def wait_ok_def sync_same
      intro!: follows_write follows_wait_loop_pass)

section \<open>Looking at the neighbours\<close>

lemma read_append:
  "read_color_of_neighbors fuel w a b (xs @ ys) cols locks reps tmo k =
     bindp (read_color_of_neighbors fuel w a b xs cols locks reps tmo k)
       (\<lambda>(cols', locks', k'). read_color_of_neighbors fuel w a b ys cols' locks' reps tmo k')"
  by (induction xs arbitrary: cols locks k) (simp_all add: Let_def bindp_assoc bindp_if cong: if_cong)

text \<open>
  What the loop hands on: one colour per neighbour, and the locks it took, which are at the front
  of the array.
\<close>

definition read_post ::
    "nat \<Rightarrow> nat list \<Rightarrow> int list \<Rightarrow> ClientGraphPetersonLock list \<Rightarrow> nat
     \<Rightarrow> int list \<times> ClientGraphPetersonLock list \<times> nat \<Rightarrow> bool" where
  "read_post w vs cols locks k res =
     (case res of (cols', locks', k') \<Rightarrow>
        (\<exists>new. cols' = cols @ new \<and> length new = length vs)
        \<and> (\<exists>vs'. set vs' \<subseteq> set vs \<and> take k' locks' = take k locks @ map (edge_lock w) vs'))"

lemma read_post_trans:
  assumes "read_post w [v] cols locks k (cols1, locks1, k1)" "read_post w vs cols1 locks1 k1 res"
  shows "read_post w (v # vs) cols locks k res"
proof -
  obtain new vs' where 1: "cols1 = cols @ new" "length new = 1" "set vs' \<subseteq> {v}"
    "take k1 locks1 = take k locks @ map (edge_lock w) vs'"
    using assms(1) by (auto simp: read_post_def)
  obtain cols2 locks2 k2 new2 vs2 where 2: "res = (cols2, locks2, k2)" "cols2 = cols1 @ new2"
    "length new2 = length vs" "set vs2 \<subseteq> set vs" "take k2 locks2 = take k1 locks1 @ map (edge_lock w) vs2"
    using assms(2) by (cases res) (auto simp: read_post_def)
  have "set (vs' @ vs2) \<subseteq> set (v # vs)" "take k2 locks2 = take k locks @ map (edge_lock w) (vs' @ vs2)"
    using 1 2 by auto
  moreover have "cols2 = cols @ (new @ new2)" "length (new @ new2) = length (v # vs)"
    using 1 2 by auto
  ultimately show ?thesis unfolding read_post_def 2(1) prod.case by blast
qed

lemma read_post_color: "read_post w [v] cols locks k (cols @ [c], locks, k)"
  by (auto simp: read_post_def intro: exI [of _ "[]"])

lemma read_post_lock:
  "k < length locks \<Longrightarrow> read_post w [v] cols locks k (cols @ [c], locks[k := edge_lock w v], Suc k)"
  by (auto simp: read_post_def take_Suc_conv_app_nth intro: exI [of _ "[v]"])

lemma read_post_Nil: "read_post w [] cols locks k (cols, locks, k)"
  by (auto simp: read_post_def)

lemma follows_take_color:
  assumes "node_num v" "passes \<delta> p (look_cmds w v)" "\<And>c. follows \<delta> (adm n adj) (f c) p Q"
  shows "follows \<delta> (adm n adj) (bindp (Color_1server.get_node_color (decimal v)) f) p Q"
  using assms by (simp add: follows_get_node_color passes_def look_cmds_def)

lemma follows_read_pass:
  assumes "node_num w" "\<forall>v \<in> set vs. node_num v \<and> v \<noteq> w \<and> passes \<delta> p (look_cmds w v)" "wait_ok \<delta> p"
    and "\<And>res. read_post w vs cols locks k res \<Longrightarrow> Q res p"
  shows "follows \<delta> (adm n adj)
    (read_color_of_neighbors fuel (node_key w) a b (map decimal vs) cols locks reps tmo k) p Q"
  using assms(2,4)
proof (induction vs arbitrary: cols locks k)
  case Nil
  then show ?case by (simp add: read_post_Nil)
next
  case (Cons v vs)
  have v: "node_num v" "v \<noteq> w" "passes \<delta> p (look_cmds w v)" using Cons.prems by auto
  have lock: "make_lock (int v) (int w) (decimal v) (decimal w) = edge_lock w v"
    using make_lock_node v assms(1) by (simp add: sync_same)
  have rest: "follows \<delta> (adm n adj)
      (read_color_of_neighbors fuel (node_key w) a b (map decimal vs) (cols @ [c]) locks' reps tmo k') p Q"
    if "read_post w [v] cols locks k (cols @ [c], locks', k')" for c locks' k'
    by (rule Cons.IH) (use Cons.prems that read_post_trans in auto)
  have take: "follows \<delta> (adm n adj) (bindp (Color_1server.get_node_color (decimal v)) (\<lambda>c.
      read_color_of_neighbors fuel (node_key w) a b (map decimal vs) (cols @ [c]) locks' reps tmo k')) p Q"
    if "\<And>c. read_post w [v] cols locks k (cols @ [c], locks', k')" for locks' k'
    by (rule follows_take_color [OF v(1,3)]) (rule rest [OF that])
  have status: "follows \<delta> (adm n adj) (bindp (Color_1server.get_status (decimal v)) f) p Q"
    if "\<And>s. follows \<delta> (adm n adj) (f s) p Q" for f
    using v that by (simp add: follows_get_status passes_def look_cmds_def)
  have acquire: "follows \<delta> (adm n adj) (bindp (acquire_lock fuel (edge_lock w v) reps tmo) f) p Q"
    if "follows \<delta> (adm n adj) (f ()) p Q" for f
    using follows_acquire_pass [OF v(3) assms(3)] that by simp
  show ?case
    using v assms(1) lock take [OF read_post_color] take [OF read_post_lock]
    by (auto simp: Let_def sync_same simp del: follows_bindp intro!: acquire status)
qed

section \<open>The client of one end\<close>

lemma follows_acquire_end:
  assumes "x \<noteq> y" "Q () Locked"
  shows "follows (end_delta x y) A (acquire_lock fuel (edge_lock x y) reps tmo) Want Q"
proof -
  have wait: "follows (end_delta x y) A (Cmd (GET (flag_key y x)) (\<lambda>f. Cmd (GET (edge_turn_key x y)) (\<lambda>t.
      Color_1server.wait_loop fuel (edge_lock x y) f t))) Turned Q"
    using assms by (auto intro!: follows_mono [OF follows_wait_loop_end])
  have turn: "follows (end_delta x y) A (write_with_wait fuel reps tmo ''SET'' (edge_turn_key x y) (decimal x)) Flagged R"
    if "R () Turned" for R
    by (rule follows_write [where q = Turned]) (use assms(1) that in simp_all)
  have flag: "follows (end_delta x y) A (write_with_wait fuel reps tmo ''SET'' (flag_key x y) ''1'') Want R"
    if "R () Flagged" for R
    by (rule follows_write [where q = Flagged]) (use assms(1) that in simp_all)
  show ?thesis
    using wait
    by (simp add: acquire_lock_def sync_same turn flag del: follows.simps(4))
qed

lemma follows_look_end:
  assumes "x \<noteq> y" "node_num x" "node_num y" "int y < a \<or> b < int y"
    and "\<And>c. k < length locks \<Longrightarrow> Q (cols @ [c], locks[k := edge_lock x y], Suc k) (LockedRead c)"
    and "\<And>c. Q (cols @ [c], locks, k) (FreeRead c)"
  shows "follows (end_delta x y) (adm n adj)
    (read_color_of_neighbors fuel (node_key x) a b [decimal y] cols locks reps tmo k) Scan Q"
proof -
  have lock: "make_lock (int y) (int x) (decimal y) (decimal x) = edge_lock x y"
    using make_lock_node assms(1-3) by (simp add: sync_same)
  show ?thesis
    using assms lock
    by (simp add: Let_def sync_same follows_get_status follows_get_node_color follows_acquire_end)
qed

section \<open>One node\<close>

lemma sort_neighbours_decimal:
  obtains vs where "sort_neighbours (map decimal us) = map decimal vs" "mset vs = mset us"
  using that [OF _ mset_qsort] by (simp add: sort_neighbours_def qsort_map)

lemma follows_process_node:
  assumes "graph_ok n adj" "w < n"
    and "\<And>r. \<delta> p (SMEMBERS (neighbours_key w)) r = Some q" "\<And>r. \<delta> q (SMEMBERS (neighbours_key w)) r = Some q"
    and "\<And>vs. mset vs = mset (adj w) \<Longrightarrow> follows \<delta> (adm n adj)
      (read_color_of_neighbors fuel (node_key w) a b (map decimal vs) [] (map fresh [0..<length vs]) reps tmo 0) q R"
    and "\<And>cols locks k q' v. R (cols, locks, k) q' \<Longrightarrow> getMinimalValueNotInArray cols 0 1000 = Inr v \<Longrightarrow>
      follows \<delta> (adm n adj) (bindp (set_node_color fuel (node_key w) v reps tmo)
        (\<lambda>_. release_all fuel (take k locks) reps tmo)) q' Q"
  shows "follows \<delta> (adm n adj) (process_node fuel fresh (node_key w) a b reps tmo) p Q"
proof -
  obtain vs where vs: "sort_neighbours (map decimal (adj w)) = map decimal vs" "mset vs = mset (adj w)"
    by (rule sort_neighbours_decimal)
  have "follows \<delta> (adm n adj) (read_color_of_neighbors fuel (node_key w) a b (map decimal vs) []
      (map fresh [0..<length vs]) reps tmo 0) q
      (\<lambda>(cols, locks, k) q'. follows \<delta> (adm n adj)
        (bindp (lift_result (getMinimalValueNotInArray cols 0 1000)) (\<lambda>v.
         bindp (set_node_color fuel (node_key w) v reps tmo) (\<lambda>_. release_all fuel (take k locks) reps tmo))) q' Q)"
    using assms(6) by (auto intro!: follows_mono [OF assms(5) [OF vs(2)]])
  then show ?thesis
    unfolding process_node_def sync_same
    using assms(1-4) vs
    by (auto simp: Let_def sync_same case_prod_unfold simp del: follows_lift_result
        intro!: follows_get_all_neighbours [where q = q] follows_check_boundary [where q = q])
qed

lemma new_color:
  assumes "getMinimalValueNotInArray cols 0 1000 = Inr v" "length cols < 10 ^ 9"
  shows "v \<notin> set cols" "0 \<le> v" "v < 10 ^ 9" "atoi (fmt_d v) = v" "cstr (fmt_d v) = fmt_d v"
    "snprintf 10 (fmt_d v) = fmt_d v"
proof -
  obtain v' where "getMinimalValueNotInArray cols 0 1000 = Inr v'" "least_free cols 0 v'"
    by (rule getMinimal_sync [of 0 1000 cols]) (use assms(2) in \<open>auto simp: INT_MAX_def\<close>)
  with assms(1) have v: "least_free cols 0 v" by simp
  then show "v \<notin> set cols" "0 \<le> v" by (simp_all add: least_free_def)
  have "v \<le> int (length cols)" using least_free_bound [OF v] by simp
  with assms(2) show lt: "v < 10 ^ 9" by simp
  with \<open>0 \<le> v\<close> show "atoi (fmt_d v) = v" by (simp add: INT_MAX_def)
  show "cstr (fmt_d v) = fmt_d v" using \<open>0 \<le> v\<close> by (simp add: fmt_d_def)
  have "nat v < 10 ^ 9" using lt by simp
  then show "snprintf 10 (fmt_d v) = fmt_d v"
    using length_decimal [of "nat v" 9] \<open>0 \<le> v\<close> by (simp add: fmt_d_def)
qed

lemma follows_set_node_color:
  assumes "node_num u" "snprintf 10 (fmt_d v) = fmt_d v" "\<And>p. wait_ok \<delta> p"
    and "\<And>r. \<delta> p (SET (color_key u) (fmt_d v)) r = Some q" "\<And>r. \<delta> q (SET (color_key u) (fmt_d v)) r = Some q"
    and "\<And>r. \<delta> q (SET (status_key u) ''1'') r = Some q'" "\<And>r. \<delta> q' (SET (status_key u) ''1'') r = Some q'"
    and "Q () q'"
  shows "follows \<delta> A (set_node_color fuel (node_key u) v reps tmo) p Q"
proof -
  have "follows \<delta> A (write_with_wait fuel reps tmo ''SET'' (status_key u) ''1'') q Q"
    using assms by (auto simp: wait_ok_def intro!: follows_write [where q = q'])
  then show ?thesis
    using assms by (auto simp: set_node_color_def Let_def wait_ok_def intro!: follows_write [where q = q])
qed

lemma follows_release_all:
  assumes "\<And>v p r. v \<in> set vs \<Longrightarrow> P p \<Longrightarrow> \<exists>q. P q \<and> (\<forall>r. \<delta> p (SET (flag_key w v) ''0'') r = Some q
      \<and> \<delta> q (SET (flag_key w v) ''0'') r = Some q) \<and> wait_ok \<delta> q"
    and "P p" "\<And>q. P q \<Longrightarrow> Q () q"
  shows "follows \<delta> A (release_all fuel (map (edge_lock w) vs) reps tmo) p Q"
  using assms(1,2)
proof (induction vs arbitrary: p)
  case (Cons v vs)
  obtain q where q: "P q" "\<And>r. \<delta> p (SET (flag_key w v) ''0'') r = Some q"
    "\<And>r. \<delta> q (SET (flag_key w v) ''0'') r = Some q" "wait_ok \<delta> q"
    using Cons.prems by (meson list.set_intros(1))
  have "follows \<delta> A (release_all fuel (map (edge_lock w) vs) reps tmo) q Q"
    using Cons.IH [OF _ q(1)] Cons.prems(1) by simp
  with q show ?case
    by (auto simp: release_lock_def wait_ok_def intro!: follows_write [where q = q])
qed (simp add: assms(3))

text \<open>The outcome of the loop over all neighbours: as many colours, and the locks of \<open>vs'\<close>.\<close>

definition took ::
    "nat \<Rightarrow> nat list \<Rightarrow> nat list \<Rightarrow> int list \<times> ClientGraphPetersonLock list \<times> nat \<Rightarrow> bool" where
  "took w vs vs' res =
     (case res of (cols, locks, k) \<Rightarrow>
        length cols = length vs \<and> set vs' \<subseteq> set vs \<and> take k locks = map (edge_lock w) vs')"

lemma follows_process_pass:
  assumes "graph_ok n adj" "w < n" "passes \<delta> p (node_cmds adj w)" "\<And>p. wait_ok \<delta> p"
  shows "follows \<delta> (adm n adj) (process_node fuel fresh (node_key w) a b reps tmo) p (\<lambda>_ q. q = p)"
proof (rule follows_process_node [OF assms(1,2), where q = p
      and R = "\<lambda>res q. q = p \<and> (\<exists>vs'. took w (adj w) vs' res)"])
  note nodes = graph_okD [OF assms(1,2)]
  have set0: "\<delta> p (SET (flag_key w v) ''0'') r = Some p" if "v \<in> set (adj w)" for v r
    using assms(3) that by (auto simp: passes_def node_cmds_def)
  show "\<delta> p (SMEMBERS (neighbours_key w)) r = Some p" for r
    using assms(3) by (auto simp: passes_def node_cmds_def)
  show "\<delta> p (SMEMBERS (neighbours_key w)) r = Some p" for r
    using assms(3) by (auto simp: passes_def node_cmds_def)
  show "follows \<delta> (adm n adj)
      (read_color_of_neighbors fuel (node_key w) a b (map decimal vs) [] (map fresh [0..<length vs]) reps tmo 0) p
      (\<lambda>res q. q = p \<and> (\<exists>vs'. took w (adj w) vs' res))"
    if "mset vs = mset (adj w)" for vs
    using assms(3,4) nodes mset_eq_setD [OF that] mset_eq_length [OF that]
    by (intro follows_read_pass) (auto simp: passes_def node_cmds_def read_post_def took_def)
  show "follows \<delta> (adm n adj) (bindp (set_node_color fuel (node_key w) v reps tmo)
      (\<lambda>_. release_all fuel (take k locks) reps tmo)) q (\<lambda>_ q. q = p)"
    if R: "q = p \<and> (\<exists>vs'. took w (adj w) vs' (cols, locks, k))"
      and v: "getMinimalValueNotInArray cols 0 1000 = Inr v" for cols locks k q v
  proof -
    from R obtain vs' where vs': "set vs' \<subseteq> set (adj w)" "take k locks = map (edge_lock w) vs'"
      and q: "q = p" "length cols < 10 ^ 9" using nodes(7) by (auto simp: took_def)
    have "follows \<delta> (adm n adj) (release_all fuel (map (edge_lock w) vs') reps tmo) p (\<lambda>_ q. q = p)"
      by (rule follows_release_all [where P = "\<lambda>q. q = p"]) (use set0 vs'(1) assms(4) in auto)
    then show ?thesis
      using assms(3,4) nodes(1) new_color [OF v q(2)] vs' q(1)
      by (auto simp: passes_def node_cmds_def intro!: follows_set_node_color [where q = p and q' = p])
  qed
qed

lemma passes_end_other:
  "v \<noteq> y \<Longrightarrow> v \<noteq> x \<Longrightarrow> x \<noteq> y \<Longrightarrow> passes (end_delta x y) p (look_cmds x v)"
  by (auto simp: passes_def look_cmds_def end_delta_def classify_def)

text \<open>
  The loop over the neighbours when the monitor watches one of them, \<open>y\<close>: \<open>F q c l\<close> describes
  the phases after the colour \<open>c\<close> of \<open>y\<close> was read, with its lock taken or not.
\<close>

definition looked ::
    "(nat \<Rightarrow> nat list) \<Rightarrow> nat \<Rightarrow> nat \<Rightarrow> ('p \<Rightarrow> int \<Rightarrow> bool \<Rightarrow> bool)
     \<Rightarrow> int list \<times> ClientGraphPetersonLock list \<times> nat \<Rightarrow> 'p \<Rightarrow> bool" where
  "looked adj x y F res q \<longleftrightarrow>
     (\<exists>vs' c l. took x (adj x) vs' res \<and> c \<in> set (fst res) \<and> F q c l \<and> (l \<longrightarrow> y \<in> set vs'))"

definition passes_others :: "'p monitor \<Rightarrow> (nat \<Rightarrow> nat list) \<Rightarrow> nat \<Rightarrow> nat \<Rightarrow> 'p \<Rightarrow> bool" where
  "passes_others \<delta> adj x y p \<longleftrightarrow>
     wait_ok \<delta> p \<and> (\<forall>v \<in> set (adj x). v \<noteq> y \<longrightarrow> node_num v \<and> v \<noteq> x \<and> passes \<delta> p (look_cmds x v))"

lemma follows_read_after:
  assumes "node_num x" "vs1 @ y # vs2 = vs" "mset vs = mset (adj x)" "y \<notin> set vs2"
    and "passes_others \<delta> adj x y q" "F q c l" "l \<longrightarrow> y \<in> set vs'"
    and "length cols = Suc (length vs1)" "set vs' \<subseteq> insert y (set vs1)"
    "take k locks = map (edge_lock x) vs'" "c \<in> set cols"
  shows "follows \<delta> (adm n adj)
    (read_color_of_neighbors fuel (node_key x) a b (map decimal vs2) cols locks reps tmo k) q (looked adj x y F)"
proof (rule follows_read_pass [OF assms(1)])
  have adj: "set (adj x) = set vs1 \<union> insert y (set vs2)" "length (adj x) = length vs1 + Suc (length vs2)"
    unfolding mset_eq_setD [OF assms(3), symmetric] mset_eq_length [OF assms(3), symmetric]
      assms(2) [symmetric] by simp_all
  show "wait_ok \<delta> q" using assms(5) by (simp add: passes_others_def)
  show "\<forall>v \<in> set vs2. node_num v \<and> v \<noteq> x \<and> passes \<delta> q (look_cmds x v)"
    using assms(4,5) unfolding passes_others_def adj(1) by (metis UnI2 insertI2)
  fix res assume "read_post x vs2 cols locks k res"
  then obtain cols2 locks2 k2 new vs2' where res: "res = (cols2, locks2, k2)" "cols2 = cols @ new"
    "length new = length vs2" "set vs2' \<subseteq> set vs2" "take k2 locks2 = take k locks @ map (edge_lock x) vs2'"
    by (cases res) (auto simp: read_post_def)
  have "set (vs' @ vs2') \<subseteq> set (adj x)" using assms(9) res(4) unfolding adj(1) by auto
  then have "took x (adj x) (vs' @ vs2') res"
    using assms(8,10) adj(2) res by (simp add: took_def)
  moreover have "c \<in> set (fst res)" "l \<longrightarrow> y \<in> set (vs' @ vs2')" using res assms(7,11) by simp_all
  ultimately show "looked adj x y F res q" using assms(6) unfolding looked_def by blast
qed

text \<open>What the pass of the loop for \<open>y\<close> does, for any continuation.\<close>

definition looks_at ::
    "'p monitor \<Rightarrow> nat \<Rightarrow> (nat \<Rightarrow> nat list) \<Rightarrow> nat \<Rightarrow> nat \<Rightarrow> ('p \<Rightarrow> int \<Rightarrow> bool \<Rightarrow> bool) \<Rightarrow> 'p
     \<Rightarrow> (int list \<Rightarrow> ClientGraphPetersonLock list \<Rightarrow> nat \<Rightarrow> (int list \<times> ClientGraphPetersonLock list \<times> nat) prog)
     \<Rightarrow> bool" where
  "looks_at \<delta> n adj x y F p look \<longleftrightarrow>
     (\<forall>cols locks k Q.
        (\<forall>c q. k < length locks \<and> F q c True \<longrightarrow> Q (cols @ [c], locks[k := edge_lock x y], Suc k) q)
        \<and> (\<forall>c q. F q c False \<longrightarrow> Q (cols @ [c], locks, k) q)
        \<longrightarrow> follows \<delta> (adm n adj) (look cols locks k) p Q)"

lemma follows_read_from:
  assumes "node_num x" "vs1 @ y # vs2 = vs" "mset vs = mset (adj x)" "y \<notin> set vs2"
    and "\<And>q c l. F q c l \<Longrightarrow> passes_others \<delta> adj x y q"
    and "looks_at \<delta> n adj x y F p
      (\<lambda>cols locks k. read_color_of_neighbors fuel (node_key x) a b [decimal y] cols locks reps tmo k)"
    and "read_post x vs1 [] locks0 0 (cols, locks, k)"
  shows "follows \<delta> (adm n adj)
    (read_color_of_neighbors fuel (node_key x) a b (decimal y # map decimal vs2) cols locks reps tmo k) p
    (looked adj x y F)"
proof -
  let ?read = "\<lambda>us cols locks k. read_color_of_neighbors fuel (node_key x) a b us cols locks reps tmo k"
  from assms(7) obtain vs' where vs': "length cols = length vs1" "set vs' \<subseteq> set vs1"
    "take k locks = map (edge_lock x) vs'" by (auto simp: read_post_def)
  note after = follows_read_after [where adj = adj and F = F, OF assms(1-4)]
  have "follows \<delta> (adm n adj) (?read (map decimal vs2) (cols @ [c]) (locks[k := edge_lock x y]) (Suc k)) q (looked adj x y F)"
    if "k < length locks" "F q c True" for c q
    by (rule after [OF assms(5) [OF that(2)] that(2), of "vs' @ [y]"])
      (use vs' that in \<open>auto simp: take_Suc_conv_app_nth\<close>)
  moreover have "follows \<delta> (adm n adj) (?read (map decimal vs2) (cols @ [c]) locks k) q (looked adj x y F)"
    if "F q c False" for c q
    by (rule after [OF assms(5) [OF that] that, of vs']) (use vs' in auto)
  ultimately have "follows \<delta> (adm n adj) (?read [decimal y] cols locks k) p
      (\<lambda>(cols, locks, k) q. follows \<delta> (adm n adj) (?read (map decimal vs2) cols locks k) q (looked adj x y F))"
    using assms(6) unfolding looks_at_def by auto
  then show ?thesis
    using read_append [of fuel "node_key x" a b "[decimal y]" "map decimal vs2"]
    by (simp add: case_prod_unfold)
qed

lemma follows_read_watched:
  assumes "graph_ok n adj" "x < n" "y \<in> set (adj x)" "mset vs = mset (adj x)"
    and "passes_others \<delta> adj x y p" "\<And>q c l. F q c l \<Longrightarrow> passes_others \<delta> adj x y q"
    and "looks_at \<delta> n adj x y F p
      (\<lambda>cols locks k. read_color_of_neighbors fuel (node_key x) a b [decimal y] cols locks reps tmo k)"
  shows "follows \<delta> (adm n adj)
    (read_color_of_neighbors fuel (node_key x) a b (map decimal vs) [] locks0 reps tmo 0) p (looked adj x y F)"
proof -
  have adj: "set vs = set (adj x)" "distinct vs"
    using assms(4) graph_okD(2) [OF assms(1,2)] mset_eq_setD mset_eq_imp_distinct_iff by metis+
  then obtain vs1 vs2 where vs: "vs = vs1 @ y # vs2" "y \<notin> set vs1" "y \<notin> set vs2"
    using assms(3) split_list [of y vs] by auto
  note tail = follows_read_from [where adj = adj and F = F, OF graph_okD(1) [OF assms(1,2)] vs(1) [symmetric] assms(4) vs(3) assms(6,7)]
  have "follows \<delta> (adm n adj) (read_color_of_neighbors fuel (node_key x) a b (map decimal vs1) [] locks0 reps tmo 0) p
     (\<lambda>(cols, locks, k) q. follows \<delta> (adm n adj)
        (read_color_of_neighbors fuel (node_key x) a b (decimal y # map decimal vs2) cols locks reps tmo k) q
        (looked adj x y F))"
  proof (rule follows_read_pass [OF graph_okD(1) [OF assms(1,2)]])
    show "\<forall>v \<in> set vs1. node_num v \<and> v \<noteq> x \<and> passes \<delta> p (look_cmds x v)" "wait_ok \<delta> p"
      using assms(5) vs adj(1) unfolding passes_others_def by auto
    fix res assume "read_post x vs1 [] locks0 0 res"
    then show "(case res of (cols, locks, k) \<Rightarrow> \<lambda>q. follows \<delta> (adm n adj)
        (read_color_of_neighbors fuel (node_key x) a b (decimal y # map decimal vs2) cols locks reps tmo k) q
        (looked adj x y F)) p"
      by (cases res) (simp add: tail del: read_color_of_neighbors.simps)
  qed
  then show ?thesis
    unfolding vs(1) map_append list.map read_append by (simp add: case_prod_unfold)
qed

lemma follows_read_end:
  assumes "graph_ok n adj" "x < n" "y \<in> set (adj x)" "int y < a \<or> b < int y" "mset vs = mset (adj x)"
  shows "follows (end_delta x y) (adm n adj)
    (read_color_of_neighbors fuel (node_key x) a b (map decimal vs) [] locks0 reps tmo 0) Scan
    (looked adj x y (\<lambda>q c l. q = (if l then LockedRead c else FreeRead c)))"
proof (rule follows_read_watched [OF assms(1-3,5)])
  note nodes = graph_okD [OF assms(1,2)]
  have other: "passes_others (end_delta x y) adj x y q" for q
    using nodes(4,5) passes_end_other [of _ y x] assms(3) unfolding passes_others_def by (metis wait_ok(1))
  show "passes_others (end_delta x y) adj x y Scan" by (rule other)
  show "passes_others (end_delta x y) adj x y q" for q by (rule other)
  show "looks_at (end_delta x y) n adj x y (\<lambda>q c l. q = (if l then LockedRead c else FreeRead c)) Scan
      (\<lambda>cols locks k. read_color_of_neighbors fuel (node_key x) a b [decimal y] cols locks reps tmo k)"
    unfolding looks_at_def
    by (intro allI impI follows_look_end [OF _ nodes(1) nodes(4) [OF assms(3)] assms(4)])
      (use nodes(5) [OF assms(3)] in auto)
qed

lemma follows_release_end:
  assumes "x \<noteq> y" "x \<notin> set vs" "p = Done \<or> p = Statused \<and> y \<in> set vs"
  shows "follows (end_delta x y) A (release_all fuel (map (edge_lock x) vs) reps tmo) p (\<lambda>_ q. q = Done)"
  using assms(2,3)
proof (induction vs arbitrary: p)
  case (Cons v vs)
  define q where "q = (if v = y then Done else p)"
  have step: "end_delta x y p (SET (flag_key x v) ''0'') r = Some q"
    "end_delta x y q (SET (flag_key x v) ''0'') r = Some q" for r
    using Cons.prems assms(1) by (auto simp: q_def end_delta_def classify_def)
  have "follows (end_delta x y) A (release_all fuel (map (edge_lock x) vs) reps tmo) q (\<lambda>_ q. q = Done)"
    using Cons.prems by (intro Cons.IH) (auto simp: q_def)
  with step show ?case
    by (auto simp: release_lock_def intro!: follows_write [where q = q])
qed auto

lemma follows_process_end:
  assumes "graph_ok n adj" "x < n" "y \<in> set (adj x)" "int y < a \<or> b < int y"
  shows "follows (end_delta x y) (adm n adj) (process_node fuel fresh (node_key x) a b reps tmo) Idle (\<lambda>_ q. q = Done)"
proof (rule follows_process_node [OF assms(1,2), where q = Scan])
  note nodes = graph_okD [OF assms(1,2)]
  have xy: "x \<noteq> y" "x \<notin> set (adj x)" using nodes(5) assms(3) by blast+
  show "end_delta x y Idle (SMEMBERS (neighbours_key x)) r = Some Scan"
    "end_delta x y Scan (SMEMBERS (neighbours_key x)) r = Some Scan" for r using xy by simp_all
  show "follows (end_delta x y) (adm n adj) (read_color_of_neighbors fuel (node_key x) a b
      (map decimal vs) [] (map fresh [0..<length vs]) reps tmo 0) Scan
      (looked adj x y (\<lambda>q c l. q = (if l then LockedRead c else FreeRead c)))"
    if "mset vs = mset (adj x)" for vs using follows_read_end [OF assms that] .
  fix cols locks k q v
  assume "looked adj x y (\<lambda>q c l. q = (if l then LockedRead c else FreeRead c)) (cols, locks, k) q"
  then obtain vs' c l where res: "length cols = length (adj x)" "set vs' \<subseteq> set (adj x)"
      "take k locks = map (edge_lock x) vs'" "c \<in> set cols"
      "q = (if l then LockedRead c else FreeRead c)" "l \<longrightarrow> y \<in> set vs'"
    by (auto simp: looked_def took_def)
  assume v: "getMinimalValueNotInArray cols 0 1000 = Inr v"
  have new: "v \<noteq> c" "atoi (fmt_d v) = v" "cstr (fmt_d v) = fmt_d v" "snprintf 10 (fmt_d v) = fmt_d v"
    using new_color [OF v] res(1,4) nodes(7) by auto
  have "follows (end_delta x y) (adm n adj) (release_all fuel (map (edge_lock x) vs') reps tmo)
      (if l then Statused else Done) (\<lambda>_ q. q = Done)"
    using xy res(2,6) by (intro follows_release_end) auto
  then show "follows (end_delta x y) (adm n adj) (bindp (set_node_color fuel (node_key x) v reps tmo)
      (\<lambda>_. release_all fuel (take k locks) reps tmo)) q (\<lambda>_ q. q = Done)"
    using new res xy nodes(1)
    by (auto intro!: follows_set_node_color [where q = "Colored l (fmt_d v)"
          and q' = "if l then Statused else Done"])
qed

section \<open>The client of both ends, and the others\<close>

lemma follows_process_first:
  assumes "graph_ok n adj" "x < n" "x \<noteq> y"
  shows "follows (both_delta x y) (adm n adj) (process_node fuel fresh (node_key x) a b reps tmo) B0
    (\<lambda>_ q. \<exists>s. q = B2 s)"
proof (rule follows_process_node [OF assms(1,2), where q = B1 and R = "\<lambda>res q. q = B1 \<and> (\<exists>vs'. took x (adj x) vs' res)"])
  note nodes = graph_okD [OF assms(1,2)]
  show "both_delta x y B0 (SMEMBERS (neighbours_key x)) r = Some B1"
    "both_delta x y B1 (SMEMBERS (neighbours_key x)) r = Some B1" for r by (simp_all add: both_delta_def)
  have pass: "passes (both_delta x y) B1 (look_cmds x v)" for v
    by (auto simp: passes_def look_cmds_def both_delta_def)
  show "follows (both_delta x y) (adm n adj) (read_color_of_neighbors fuel (node_key x) a b
      (map decimal vs) [] (map fresh [0..<length vs]) reps tmo 0) B1
      (\<lambda>res q. q = B1 \<and> (\<exists>vs'. took x (adj x) vs' res))"
    if "mset vs = mset (adj x)" for vs
    using nodes pass mset_eq_setD [OF that] mset_eq_length [OF that]
    by (intro follows_read_pass) (auto simp: read_post_def took_def)
  fix cols locks k q v
  assume R: "q = B1 \<and> (\<exists>vs'. took x (adj x) vs' (cols, locks, k))"
    and v: "getMinimalValueNotInArray cols 0 1000 = Inr v"
  then obtain vs' where vs': "take k locks = map (edge_lock x) vs'" "length cols < 10 ^ 9"
    using nodes(7) by (auto simp: took_def)
  have "follows (both_delta x y) (adm n adj) (release_all fuel (map (edge_lock x) vs') reps tmo) (B2 (fmt_d v))
      (\<lambda>_ q. \<exists>s. q = B2 s)"
    by (rule follows_release_all [where P = "\<lambda>q. q = B2 (fmt_d v)"]) (auto simp: both_delta_def)
  then show "follows (both_delta x y) (adm n adj) (bindp (set_node_color fuel (node_key x) v reps tmo)
      (\<lambda>_. release_all fuel (take k locks) reps tmo)) q (\<lambda>_ q. \<exists>s. q = B2 s)"
    using R vs' new_color [OF v vs'(2)] nodes(1) assms(3)
    by (auto simp: both_delta_def
        intro!: follows_set_node_color [where q = "B2 (fmt_d v)" and q' = "B2 (fmt_d v)"])
qed

lemma follows_read_second:
  assumes "graph_ok n adj" "y < n" "x \<in> set (adj y)" "a \<le> int x" "int x \<le> b" "mset vs = mset (adj y)"
  shows "follows (both_delta x y) (adm n adj)
    (read_color_of_neighbors fuel (node_key y) a b (map decimal vs) [] locks0 reps tmo 0) (B3 s)
    (looked adj y x (\<lambda>q c l. \<not> l \<and> q = B4 s c))"
proof (rule follows_read_watched [OF assms(1-3,6)])
  note nodes = graph_okD [OF assms(1,2)]
  have pass: "passes (both_delta x y) q (look_cmds y v)" if "v \<noteq> x" for q v
    using that nodes(5) [OF assms(3)]
    by (cases q) (auto simp: passes_def look_cmds_def both_delta_def)
  then show "passes_others (both_delta x y) adj y x (B3 s)"
    using nodes(4,5) by (auto simp: passes_others_def)
  show "passes_others (both_delta x y) adj y x q" if "\<not> l \<and> q = B4 s c" for q c l
    using nodes(4,5) pass by (auto simp: passes_others_def)
  show "looks_at (both_delta x y) n adj y x (\<lambda>q c l. \<not> l \<and> q = B4 s c) (B3 s)
      (\<lambda>cols locks k. read_color_of_neighbors fuel (node_key y) a b [decimal x] cols locks reps tmo k)"
    using assms(4,5) nodes(4) [OF assms(3)]
    by (auto simp: looks_at_def Let_def sync_same follows_get_node_color both_delta_def)
qed

lemma follows_process_second:
  assumes "graph_ok n adj" "y < n" "x \<in> set (adj y)" "a \<le> int x" "int x \<le> b"
  shows "follows (both_delta x y) (adm n adj) (process_node fuel fresh (node_key y) a b reps tmo) (B2 s)
    (\<lambda>_ q. q = B6)"
proof (rule follows_process_node [OF assms(1,2), where q = "B3 s"])
  note nodes = graph_okD [OF assms(1,2)]
  have xy: "x \<noteq> y" using nodes(5) assms(3) by blast
  show "both_delta x y (B2 s) (SMEMBERS (neighbours_key y)) r = Some (B3 s)"
    "both_delta x y (B3 s) (SMEMBERS (neighbours_key y)) r = Some (B3 s)" for r by (simp_all add: both_delta_def)
  show "follows (both_delta x y) (adm n adj) (read_color_of_neighbors fuel (node_key y) a b
      (map decimal vs) [] (map fresh [0..<length vs]) reps tmo 0) (B3 s) (looked adj y x (\<lambda>q c l. \<not> l \<and> q = B4 s c))"
    if "mset vs = mset (adj y)" for vs using follows_read_second [OF assms that] .
  fix cols locks k q v
  assume "looked adj y x (\<lambda>q c l. \<not> l \<and> q = B4 s c) (cols, locks, k) q"
  then obtain vs' c where res: "length cols = length (adj y)" "take k locks = map (edge_lock y) vs'"
      "c \<in> set cols" "q = B4 s c" by (auto simp: looked_def took_def)
  assume v: "getMinimalValueNotInArray cols 0 1000 = Inr v"
  have new: "v \<noteq> c" "atoi (fmt_d v) = v" "cstr (fmt_d v) = fmt_d v" "snprintf 10 (fmt_d v) = fmt_d v"
    using new_color [OF v] res(1,3) nodes(7) by auto
  have "follows (both_delta x y) (adm n adj) (release_all fuel (map (edge_lock y) vs') reps tmo) B6 (\<lambda>_ q. q = B6)"
    by (rule follows_release_all [where P = "\<lambda>q. q = B6"]) (auto simp: both_delta_def)
  then show "follows (both_delta x y) (adm n adj) (bindp (set_node_color fuel (node_key y) v reps tmo)
      (\<lambda>_. release_all fuel (take k locks) reps tmo)) q (\<lambda>_ q. q = B6)"
    using new res xy nodes(1)
    by (auto simp: both_delta_def
        intro!: follows_set_node_color [where q = "B5 s (fmt_d v)" and q' = B6])
qed

section \<open>The contract\<close>

interpretation sync: coloring_client
  "\<lambda>a b nn. process_node fuel fresh nn a b reps tmo"
  "\<lambda>keys a b i. process_nodes fuel fresh keys a b reps tmo i"
  for fuel fresh reps tmo
proof unfold_locales
  show "process_nodes fuel fresh keys a b reps tmo i =
     (if i \<le> b then
        if 0 \<le> i \<and> i < int (length keys)
        then bindp (process_node fuel fresh (keys ! nat i) a b reps tmo)
               (\<lambda>_. process_nodes fuel fresh keys a b reps tmo (i + 1))
        else Crash OutOfBounds
      else Ret ())" for keys a b i
    by (subst process_nodes.simps) simp
qed (blast intro: follows_process_end follows_process_first follows_process_second
    follows_process_pass wait_ok)+

end
