(* ===== verification/Alone_sync.thy ===== *)
theory Alone_sync
  imports Alone Follow_sync
begin

text \<open>
  The replica-waiting client alone at the server: with no more required replicas than the server
  reports, every function of \<open>sync/color.c\<close> returns, and \<open>process_node\<close> meets the contract of
  theory \<open>Alone\<close>.
\<close>

lemma returns_write:
  assumes "atoi rr \<le> 0"
  shows "returns (write_with_wait fuel (Some rr) tmo ''SET'' k v) db Q \<longleftrightarrow> Q () (AList.update k (StrObj v) db)"
  using assms
  by (simp add: write_with_wait_def format_command_def write_loop.simps returns_Cmd in_int_def INT_MAX_def INT_MIN_def)

lemma returns_acquire:
  assumes "atoi rr \<le> 0" "graph_db n adj db" "w \<noteq> v" "(v, w) \<notin> raised db"
  shows "returns (acquire_lock fuel (edge_lock w v) (Some rr) tmo) db Q \<longleftrightarrow>
    Q () (AList.update (edge_turn_key w v) (StrObj (decimal w)) (AList.update (flag_key w v) (StrObj ''1'') db))"
proof -
  let ?db = "AList.update (edge_turn_key w v) (StrObj (decimal w)) (AList.update (flag_key w v) (StrObj ''1'') db)"
  obtain r db1 where r: "exec_cmd (GET (flag_key v w)) ?db = (r, db1)" by fastforce
  have "graph_db n adj ?db" using assms(2) by (simp add: graph_db_set)
  moreover have "(v, w) \<notin> raised ?db" using assms(3,4) by simp
  ultimately have "reply_str r \<noteq> Some ''1'' \<and> db1 = ?db" using r get_flag_calm by blast
  then show ?thesis
    using r assms(1)
    by (simp add: acquire_lock_def returns_write returns_Cmd sync_same Color_1server.wait_loop.simps
        wait_condition_calm del: exec_cmd.simps(1)) (simp add: returns_Cmd)
qed

lemma returns_release_all:
  assumes "atoi rr \<le> 0" "graph_db n adj db"
    and "\<And>db'. graph_db n adj db' \<Longrightarrow> same_but {} db db' \<Longrightarrow> raised db' = raised db - {w} \<times> set vs \<Longrightarrow> Q () db'"
  shows "returns (release_all fuel (map (edge_lock w) vs) (Some rr) tmo) db Q"
  using assms(2,3)
proof (induction vs arbitrary: db)
  case (Cons v vs)
  let ?db = "AList.update (flag_key w v) (StrObj ''0'') db"
  have "returns (release_all fuel (map (edge_lock w) vs) (Some rr) tmo) ?db Q"
  proof (rule Cons.IH)
    show "graph_db n adj ?db" using Cons.prems(1) by (rule set_flag_frame)
    fix db' assume db': "graph_db n adj db'" "same_but {} ?db db'" "raised db' = raised ?db - {w} \<times> set vs"
    have "raised db' = raised db - {w} \<times> set (v # vs)" using db'(3) by auto
    moreover have "same_but {} db db'"
      using same_but_trans [OF set_flag_frame(2) [OF Cons.prems(1)] db'(2)] by simp
    ultimately show "Q () db'" using Cons.prems(2) db'(1) by blast
  qed
  then show ?case by (simp add: release_lock_def returns_write [OF assms(1)])
qed simp

lemma returns_read:
  assumes "atoi rr \<le> 0" "node_num w"
    and "\<forall>v \<in> set vs. node_num v \<and> v \<noteq> w" "graph_db n adj db" "raised db \<subseteq> {w} \<times> UNIV" "k + length vs \<le> length locks"
    and "\<And>locks' k' db' vs'. graph_db n adj db' \<Longrightarrow> same_but {} db db' \<Longrightarrow> take k' locks' = take k locks @ map (edge_lock w) vs' \<Longrightarrow>
      raised db' \<subseteq> raised db \<union> {w} \<times> set vs' \<Longrightarrow> Q (cols @ map (color_of db) vs, locks', k') db'"
  shows "returns (read_color_of_neighbors fuel (node_key w) a b (map decimal vs) cols locks (Some rr) tmo k) db Q"
  using assms(3-)
proof (induction vs arbitrary: cols locks k db)
  case Nil
  then show ?case using Nil.prems(5) [of db k locks "[]"] by simp
next
  case (Cons v vs)
  have v: "node_num v" "v \<noteq> w" using Cons.prems(1) by auto
  have lock: "make_lock (int v) (int w) (decimal v) (decimal w) = edge_lock w v"
    using make_lock_node v assms(2) by (simp add: sync_same)
  have tail: "returns (read_color_of_neighbors fuel (node_key w) a b (map decimal vs) (cols @ [color_of db1 v])
      locks1 (Some rr) tmo k1) db1 Q"
    if 1: "graph_db n adj db1" "same_but {} db db1" "raised db1 \<subseteq> raised db \<union> {w} \<times> set us"
      "take k1 locks1 = take k locks @ map (edge_lock w) us" "k1 \<le> Suc k" "length locks1 = length locks" for db1 locks1 k1 us
  proof (rule Cons.IH)
    show "raised db1 \<subseteq> {w} \<times> UNIV" using 1(3) Cons.prems(3) by blast
    show "k1 + length vs \<le> length locks1" using 1(5,6) Cons.prems(4) by simp
    fix locks' k' db' vs'
    assume "graph_db n adj db'" "same_but {} db1 db'" "take k' locks' = take k1 locks1 @ map (edge_lock w) vs'"
      "raised db' \<subseteq> raised db1 \<union> {w} \<times> set vs'"
    moreover have "color_of db1 = color_of db" using 1(2) by (auto simp: same_but_def)
    ultimately show "Q ((cols @ [color_of db1 v]) @ map (color_of db1) vs, locks', k') db'"
      using Cons.prems(5) [of db' k' locks' "us @ vs'"] 1(2,3,4) same_but_trans [of "{}" db db1 "{}" db'] by auto
  qed (use 1 Cons.prems(1) in auto)
  let ?db1 = "AList.update (edge_turn_key w v) (StrObj (decimal w)) (AList.update (flag_key w v) (StrObj ''1'') db)"
  have db1: "graph_db n adj ?db1" "same_but {} db ?db1"
    using Cons.prems(2) by (simp_all add: graph_db_set same_but_def color_of_def status_of_def)
  have "(v, w) \<notin> raised db" using Cons.prems(3) v(2) by auto
  then show ?case
    using v assms(2) lock Cons.prems(2,4) db1
      tail [of db "[]" k locks] tail [of ?db1 "[v]" "Suc k" "locks[k := edge_lock w v]"]
    by (simp add: Let_def sync_same returns_get_status returns_get_node_color
        returns_acquire [OF assms(1) Cons.prems(2)] take_Suc_conv_app_nth subset_insertI2)
qed

section \<open>One node\<close>

lemma least_free_color:
  assumes "getMinimalValueNotInArray cols 0 1000 = Inr v" "length cols < 10 ^ 9"
  shows "least_free cols 0 v" "v \<le> int (length cols)"
proof -
  obtain v' where "getMinimalValueNotInArray cols 0 1000 = Inr v'" "least_free cols 0 v'"
    by (rule getMinimal_sync [of 0 1000 cols]) (use assms(2) in \<open>auto simp: INT_MAX_def\<close>)
  with assms(1) show "least_free cols 0 v" by simp
  then show "v \<le> int (length cols)" using least_free_bound [of cols 0 v] by simp
qed

lemma returns_set_node_color:
  assumes "atoi rr \<le> 0" "node_num w" "snprintf 10 (fmt_d v) = fmt_d v"
  shows "returns (set_node_color fuel (node_key w) v (Some rr) tmo) db Q \<longleftrightarrow>
    Q () (AList.update (status_key w) (StrObj ''1'') (AList.update (color_key w) (StrObj (fmt_d v)) db))"
  using assms by (simp add: set_node_color_def Let_def returns_write)

lemma returns_process_node:
  assumes "atoi rr \<le> 0" "graph_ok n adj" "graph_db n adj db" "raised db = {}" "w < n"
  shows "returns (process_node fuel fresh (node_key w) a b (Some rr) tmo) db (\<lambda>_. colors_node n adj w db)"
proof -
  note nodes = graph_okD [OF assms(2,5)]
  obtain vs where vs: "sort_neighbours (map decimal (adj w)) = map decimal vs" "mset vs = mset (adj w)"
    by (rule sort_neighbours_decimal)
  have sets: "set vs = set (adj w)" "length vs = length (adj w)"
    using mset_eq_setD [OF vs(2)] mset_eq_length [OF vs(2)] by auto
  let ?cols = "map (color_of db) vs"
  have len: "length ?cols < 10 ^ 9" using sets(2) nodes(7) by simp
  obtain v where v: "getMinimalValueNotInArray ?cols 0 1000 = Inr v"
    by (rule getMinimal_sync [of 0 1000 ?cols]) (use len in \<open>auto simp: INT_MAX_def\<close>)
  note new = new_color [OF v len] least_free_color [OF v len]
  let ?set = "\<lambda>db1. AList.update (status_key w) (StrObj ''1'') (AList.update (color_key w) (StrObj (fmt_d v)) db1)"
  have fin: "returns (release_all fuel (map (edge_lock w) vs') (Some rr) tmo) (?set db1) (\<lambda>_. colors_node n adj w db)"
    if "graph_db n adj db1" "same_but {} db db1" "raised db1 \<subseteq> {w} \<times> set vs'" for db1 vs'
  proof (rule returns_release_all [OF assms(1)])
    show "graph_db n adj (?set db1)" using that(1) by (simp add: graph_db_set)
    fix db2 assume db2: "graph_db n adj db2" "same_but {} (?set db1) db2" "raised db2 = raised (?set db1) - {w} \<times> set vs'"
    have "color_of (?set db1) w = v" "status_of (?set db1) w = 1" "same_but {w} db1 (?set db1)"
      using new(4,5) by (simp_all add: color_of_def status_of_def colval_def same_but_def)
    then have "color_of db2 w = v" "status_of db2 w = 1" "same_but {w} db db2"
      using db2(2) that(2) by (simp_all add: same_but_def)
    moreover have "raised db2 = {}" using db2(3) that(3) by auto
    ultimately show "colors_node n adj w db db2"
      using db2(1) new(7,8) sets by (auto simp: colors_node_def least_free_def)
  qed
  have "returns (read_color_of_neighbors fuel (node_key w) a b (map decimal vs) [] (map fresh [0..<length vs]) (Some rr) tmo 0) db
     (\<lambda>(cols, locks, k) db1. cols = ?cols \<and> returns (release_all fuel (take k locks) (Some rr) tmo) (?set db1) (\<lambda>_. colors_node n adj w db))"
    using nodes(1,4,5) sets assms(3,4) by (intro returns_read [OF assms(1)]) (auto intro: fin)
  then show ?thesis
    unfolding process_node_def sync_same
    using vs(1) v new(6) nodes(1) assms(1)
    by (auto simp: Let_def sync_same returns_get_all_neighbours [OF assms(2,3,5)] returns_set_node_color
        elim!: returns_mono intro!: returns_check_boundary [OF assms(2,3,5)])
qed

lemma sync_lone_contract:
  assumes "atoi rr \<le> 0"
  shows "lone_client (\<lambda>a b nn. process_node fuel fresh nn a b (Some rr) tmo)
    (\<lambda>keys a b i. process_nodes fuel fresh keys a b (Some rr) tmo i)"
proof
  show "returns (process_node fuel fresh (node_key w) a b (Some rr) tmo) db (\<lambda>_. colors_node n adj w db)"
    if "graph_ok n adj" "graph_db n adj db" "raised db = {}" "w < n" for n adj db w a b
    by (rule returns_process_node [OF assms that])
qed

interpretation lone_sync: lone_client
  "\<lambda>a b nn. process_node fuel fresh nn a b (Some ''0'') tmo"
  "\<lambda>keys a b i. process_nodes fuel fresh keys a b (Some ''0'') tmo i"
  for fuel fresh tmo
  by (rule sync_lone_contract) code_simp

end
