(* ===== verification/Follow_1server.thy ===== *)
theory Follow_1server
  imports Follow_sync
begin

text \<open>
  The one-server client (\<open>Color_1server\<close>) follows the monitors of every edge, provided that the
  memory \<open>malloc\<close> returns for the lock array does not happen to spell a key of the graph:
  \<open>process_node\<close> releases every entry of that array, also those it never wrote.
\<close>

section \<open>Lock arrays\<close>

definition harmless_key :: "string \<Rightarrow> bool" where
  "harmless_key k \<longleftrightarrow> \<not> is_neighbours_key k
     \<and> (\<forall>u. k \<noteq> color_key u \<and> k \<noteq> status_key u \<and> (\<forall>v. k \<noteq> flag_key u v \<and> k \<noteq> edge_turn_key u v))"

definition harmless :: "(nat \<Rightarrow> ClientGraphPetersonLock) \<Rightarrow> bool" where
  "harmless fresh \<longleftrightarrow> (\<forall>i. harmless_key (lock_key_1 (fresh i)))"

text \<open>Memory filled with zeros: every string in it is empty.\<close>

definition zero_lock :: ClientGraphPetersonLock where
  "zero_lock = \<lparr>lock_key_1 = [], lock_key_2 = [], turn_key = [], node_name = []\<rparr>"

lemma harmless_zero: "harmless (\<lambda>_. zero_lock)"
  by (simp add: harmless_def harmless_key_def zero_lock_def key_defs is_neighbours_key_def)

text \<open>The entries of the array: locks of the node \<open>w\<close>, or what was there before.\<close>

definition lock_of :: "nat \<Rightarrow> nat list \<Rightarrow> ClientGraphPetersonLock \<Rightarrow> bool" where
  "lock_of w vs l \<longleftrightarrow> harmless_key (lock_key_1 l) \<or> (\<exists>v \<in> set vs. l = edge_lock w v)"

lemma harmless_skip:
  assumes "harmless_key k"
  shows "end_delta x y p (SET k ''0'') r = Some p" "both_delta x y q (SET k ''0'') r = Some q"
    "out_delta x y u (SET k ''0'') r = Some u"
  using assms by (auto simp: harmless_key_def delta_defs)

section \<open>The lock\<close>

lemma one_acquire_pass:
  assumes "passes \<delta> p (look_cmds w v)" "Q () p"
  shows "follows \<delta> A (Color_1server.acquire_lock fuel (edge_lock w v)) p Q"
  using assms
  by (auto simp: Color_1server.acquire_lock_def passes_def look_cmds_def intro!: follows_wait_loop_pass)

lemma one_acquire_end:
  assumes "x \<noteq> y" "Q () Locked"
  shows "follows (end_delta x y) A (Color_1server.acquire_lock fuel (edge_lock x y)) Want Q"
  using assms
  by (auto simp: Color_1server.acquire_lock_def intro!: follows_mono [OF follows_wait_loop_end])

section \<open>Looking at the neighbours\<close>

lemma one_read_append:
  "Color_1server.read_color_of_neighbors fuel w a b (xs @ ys) k cols locks =
     bindp (Color_1server.read_color_of_neighbors fuel w a b xs k cols locks)
       (\<lambda>(cols', locks'). Color_1server.read_color_of_neighbors fuel w a b ys (k + length xs) cols' locks')"
  by (induction xs arbitrary: cols locks k) (simp_all add: Let_def bindp_assoc bindp_if cong: if_cong)

definition one_post ::
    "nat \<Rightarrow> nat list \<Rightarrow> nat \<Rightarrow> int list \<Rightarrow> ClientGraphPetersonLock list
     \<Rightarrow> int list \<times> ClientGraphPetersonLock list \<Rightarrow> bool" where
  "one_post w vs k cols locks res =
     (case res of (cols', locks') \<Rightarrow>
        (\<exists>new. cols' = cols @ new \<and> length new = length vs)
        \<and> length locks' = length locks \<and> (\<forall>i < k. locks' ! i = locks ! i)
        \<and> (\<forall>l \<in> set locks'. l \<in> set locks \<or> (\<exists>v \<in> set vs. l = edge_lock w v)))"

lemma one_post_trans:
  assumes "one_post w [v] k cols locks (cols1, locks1)" "one_post w vs (Suc k) cols1 locks1 res"
  shows "one_post w (v # vs) k cols locks res"
proof (cases res)
  case (Pair cols2 locks2)
  obtain new new2 where "cols1 = cols @ new" "length new = 1" "cols2 = cols1 @ new2" "length new2 = length vs"
    using assms Pair by (auto simp: one_post_def)
  then have "cols2 = cols @ (new @ new2) \<and> length (new @ new2) = length (v # vs)" by simp
  then have "\<exists>new. cols2 = cols @ new \<and> length new = length (v # vs)" by blast
  moreover have "l \<in> set locks \<or> (\<exists>u \<in> set (v # vs). l = edge_lock w u)" if "l \<in> set locks2" for l
    using assms Pair that by (auto simp: one_post_def)
  ultimately show ?thesis using assms Pair by (simp add: one_post_def)
qed

lemma one_post_color: "one_post w [v] k cols locks (cols @ [c], locks)"
  by (auto simp: one_post_def)

lemma one_post_lock:
  "one_post w [v] k cols locks (cols @ [c], locks[k := edge_lock w v])"
  using set_update_subset_insert [of locks k "edge_lock w v"] by (auto simp: one_post_def)

lemma one_post_Nil: "one_post w [] k cols locks (cols, locks)"
  by (auto simp: one_post_def)

lemma one_read_pass:
  assumes "node_num w" "\<forall>v \<in> set vs. node_num v \<and> v \<noteq> w \<and> passes \<delta> p (look_cmds w v)"
    and "\<And>res. one_post w vs k cols locks res \<Longrightarrow> Q res p"
  shows "follows \<delta> (adm n adj)
    (Color_1server.read_color_of_neighbors fuel (node_key w) a b (map decimal vs) k cols locks) p Q"
  using assms(2,3)
proof (induction vs arbitrary: cols locks k)
  case Nil
  then show ?case by (simp add: one_post_Nil)
next
  case (Cons v vs)
  have v: "node_num v" "v \<noteq> w" "passes \<delta> p (look_cmds w v)" using Cons.prems by auto
  note lock = make_lock_node [OF assms(1) v(1) v(2) [symmetric]]
  have rest: "follows \<delta> (adm n adj)
      (Color_1server.read_color_of_neighbors fuel (node_key w) a b (map decimal vs) (Suc k) (cols @ [c]) locks') p Q"
    if "one_post w [v] k cols locks (cols @ [c], locks')" for c locks'
    by (rule Cons.IH) (use Cons.prems that one_post_trans in auto)
  have take: "follows \<delta> (adm n adj) (bindp (Color_1server.get_node_color (decimal v)) (\<lambda>c.
      Color_1server.read_color_of_neighbors fuel (node_key w) a b (map decimal vs) (Suc k) (cols @ [c]) locks')) p Q"
    if "\<And>c. one_post w [v] k cols locks (cols @ [c], locks')" for locks'
    by (rule follows_take_color [OF v(1,3)]) (rule rest [OF that])
  have status: "follows \<delta> (adm n adj) (bindp (Color_1server.get_status (decimal v)) f) p Q"
    if "\<And>s. follows \<delta> (adm n adj) (f s) p Q" for f
    using v that by (simp add: follows_get_status passes_def look_cmds_def)
  have acquire: "follows \<delta> (adm n adj) (bindp (Color_1server.acquire_lock fuel (edge_lock w v)) f) p Q"
    if "follows \<delta> (adm n adj) (f ()) p Q" for f
    using one_acquire_pass [OF v(3)] that by simp
  show ?case
    using v assms(1) lock take [OF one_post_color] take [OF one_post_lock]
    by (auto simp: Let_def simp del: follows_bindp intro!: acquire status)
qed

text \<open>The pass for the watched neighbour \<open>y\<close>, and the whole loop around it.\<close>

definition one_took :: "nat \<Rightarrow> nat list \<Rightarrow> int list \<times> ClientGraphPetersonLock list \<Rightarrow> bool" where
  "one_took w vs res \<longleftrightarrow> length (fst res) = length vs \<and> (\<forall>l \<in> set (snd res). lock_of w vs l)"

definition one_looked ::
    "(nat \<Rightarrow> nat list) \<Rightarrow> nat \<Rightarrow> nat \<Rightarrow> ('p \<Rightarrow> int \<Rightarrow> bool \<Rightarrow> bool)
     \<Rightarrow> int list \<times> ClientGraphPetersonLock list \<Rightarrow> 'p \<Rightarrow> bool" where
  "one_looked adj x y F res q \<longleftrightarrow>
     (\<exists>c l. one_took x (adj x) res \<and> c \<in> set (fst res) \<and> F q c l \<and> (l \<longrightarrow> edge_lock x y \<in> set (snd res)))"

definition one_looks_at ::
    "'p monitor \<Rightarrow> nat \<Rightarrow> (nat \<Rightarrow> nat list) \<Rightarrow> nat \<Rightarrow> nat \<Rightarrow> ('p \<Rightarrow> int \<Rightarrow> bool \<Rightarrow> bool) \<Rightarrow> 'p
     \<Rightarrow> (nat \<Rightarrow> int list \<Rightarrow> ClientGraphPetersonLock list \<Rightarrow> (int list \<times> ClientGraphPetersonLock list) prog)
     \<Rightarrow> bool" where
  "one_looks_at \<delta> n adj x y F p look \<longleftrightarrow>
     (\<forall>k cols locks Q.
        (\<forall>c q. k < length locks \<and> F q c True \<longrightarrow> Q (cols @ [c], locks[k := edge_lock x y]) q)
        \<and> (\<forall>c q. F q c False \<longrightarrow> Q (cols @ [c], locks) q)
        \<longrightarrow> follows \<delta> (adm n adj) (look k cols locks) p Q)"

lemma one_read_after:
  assumes "node_num x" "vs1 @ y # vs2 = vs" "mset vs = mset (adj x)" "y \<notin> set vs2"
    and "passes_others \<delta> adj x y q" "F q c l" "c \<in> set cols" "length cols = Suc (length vs1)"
    and "\<forall>m \<in> set locks. lock_of x (adj x) m" "l \<longrightarrow> k < length locks \<and> locks ! k = edge_lock x y"
  shows "follows \<delta> (adm n adj)
    (Color_1server.read_color_of_neighbors fuel (node_key x) a b (map decimal vs2) (Suc k) cols locks) q
    (one_looked adj x y F)"
proof (rule one_read_pass [OF assms(1)])
  have adj: "set (adj x) = set vs1 \<union> insert y (set vs2)" "length (adj x) = length vs1 + Suc (length vs2)"
    unfolding mset_eq_setD [OF assms(3), symmetric] mset_eq_length [OF assms(3), symmetric]
      assms(2) [symmetric] by simp_all
  show "\<forall>v \<in> set vs2. node_num v \<and> v \<noteq> x \<and> passes \<delta> q (look_cmds x v)"
    using assms(4,5) unfolding passes_others_def adj(1) by (metis UnI2 insertI2)
  fix res assume post: "one_post x vs2 (Suc k) cols locks res"
  obtain cols2 locks2 where res: "res = (cols2, locks2)" by (cases res)
  have "lock_of x (adj x) m" if "m \<in> set locks2" for m
    using post res assms(9) that unfolding one_post_def lock_of_def adj(1) by auto
  moreover have "length cols2 = length (adj x)" "c \<in> set cols2"
    using post res assms(7,8) adj(2) by (auto simp: one_post_def)
  moreover have "edge_lock x y \<in> set locks2" if l
    using post res assms(10) that nth_mem [of k locks2] by (auto simp: one_post_def)
  ultimately show "one_looked adj x y F res q"
    using assms(6) res unfolding one_looked_def one_took_def by auto
qed

lemma one_read_watched:
  assumes "graph_ok n adj" "x < n" "y \<in> set (adj x)" "mset vs = mset (adj x)"
    and "passes_others \<delta> adj x y p" "\<And>q c l. F q c l \<Longrightarrow> passes_others \<delta> adj x y q"
    and "one_looks_at \<delta> n adj x y F p
      (\<lambda>k cols locks. Color_1server.read_color_of_neighbors fuel (node_key x) a b [decimal y] k cols locks)"
    and "\<forall>m \<in> set locks0. lock_of x (adj x) m"
  shows "follows \<delta> (adm n adj)
    (Color_1server.read_color_of_neighbors fuel (node_key x) a b (map decimal vs) 0 [] locks0) p (one_looked adj x y F)"
proof -
  let ?read = "Color_1server.read_color_of_neighbors fuel (node_key x) a b"
  note num = graph_okD(1) [OF assms(1,2)]
  have adj: "set vs = set (adj x)" "distinct vs"
    using assms(4) graph_okD(2) [OF assms(1,2)] mset_eq_setD mset_eq_imp_distinct_iff by metis+
  then obtain vs1 vs2 where vs: "vs = vs1 @ y # vs2" "y \<notin> set vs1" "y \<notin> set vs2"
    using assms(3) split_list [of y vs] by auto
  note after = one_read_after [where adj = adj and F = F, OF num vs(1) [symmetric] assms(4) vs(3)]
  have look: "follows \<delta> (adm n adj) (?read (decimal y # map decimal vs2) k cols locks) p (one_looked adj x y F)"
    if post: "one_post x vs1 0 [] locks0 (cols, locks)" for k cols locks
  proof -
    have "set vs1 \<subseteq> set (adj x)" using vs(1) adj(1) by auto
    then have locks: "\<forall>m \<in> set locks. lock_of x (adj x) m"
      using post assms(8) unfolding one_post_def lock_of_def prod.case by blast
    have len: "length cols = length vs1" using post by (auto simp: one_post_def)
    have up: "\<forall>m \<in> set (locks[k := edge_lock x y]). lock_of x (adj x) m"
      using set_update_subset_insert [of locks k "edge_lock x y"] locks assms(3) by (auto simp: lock_of_def)
    have "follows \<delta> (adm n adj) (?read (map decimal vs2) (Suc k) (cols @ [c]) (locks[k := edge_lock x y])) q
        (one_looked adj x y F)" if "k < length locks" "F q c True" for c q
      by (rule after [OF assms(6) [OF that(2)] that(2)]) (use that(1) up len in auto)
    moreover have "follows \<delta> (adm n adj) (?read (map decimal vs2) (Suc k) (cols @ [c]) locks) q
        (one_looked adj x y F)" if "F q c False" for c q
      by (rule after [OF assms(6) [OF that] that]) (use locks len in auto)
    ultimately have "follows \<delta> (adm n adj) (?read [decimal y] k cols locks) p
        (\<lambda>(cols, locks) q. follows \<delta> (adm n adj) (?read (map decimal vs2) (Suc k) cols locks) q (one_looked adj x y F))"
      using assms(7) unfolding one_looks_at_def by auto
    then show ?thesis
      using one_read_append [of fuel "node_key x" a b "[decimal y]" "map decimal vs2"]
      by (simp add: case_prod_unfold)
  qed
  have "follows \<delta> (adm n adj) (?read (map decimal vs1) 0 [] locks0) p
     (\<lambda>(cols, locks) q. follows \<delta> (adm n adj) (?read (decimal y # map decimal vs2) (length vs1) cols locks) q
        (one_looked adj x y F))"
  proof (rule one_read_pass [OF num])
    show "\<forall>v \<in> set vs1. node_num v \<and> v \<noteq> x \<and> passes \<delta> p (look_cmds x v)"
      using assms(5) vs adj(1) unfolding passes_others_def by auto
    fix res assume "one_post x vs1 0 [] locks0 res"
    then show "(case res of (cols, locks) \<Rightarrow> \<lambda>q. follows \<delta> (adm n adj)
        (?read (decimal y # map decimal vs2) (length vs1) cols locks) q (one_looked adj x y F)) p"
      by (cases res) (simp add: look del: Color_1server.read_color_of_neighbors.simps)
  qed
  then show ?thesis
    unfolding vs(1) map_append list.map one_read_append by (simp add: case_prod_unfold)
qed

section \<open>One node\<close>

lemma one_new_color:
  assumes "Color_1server.getMinimalValueNotInArray cols 0 1000 = Inr v" "length cols < 10 ^ 9"
  shows "v \<notin> set cols" "0 \<le> v" "v < 10 ^ 9" "atoi (fmt_d v) = v" "cstr (fmt_d v) = fmt_d v"
    "snprintf 10 (fmt_d v) = fmt_d v"
  using new_color [of cols v] getMinimal_same [of 0 1000 cols] assms by simp_all

text \<open>Writing the colour, the status, and releasing every entry of the array.\<close>

abbreviation one_finish :: "nat \<Rightarrow> int \<Rightarrow> ClientGraphPetersonLock list \<Rightarrow> unit prog" where
  "one_finish w v locks \<equiv> bindp (Color_1server.set_node_color (node_key w) v) (\<lambda>_.
     bindp (Color_1server.set_status (node_key w)) (\<lambda>_. Color_1server.release_all locks))"

lemma one_process_node:
  assumes "graph_ok n adj" "w < n" "harmless fresh"
    and "\<And>r. \<delta> p (SMEMBERS (neighbours_key w)) r = Some q" "\<And>r. \<delta> q (SMEMBERS (neighbours_key w)) r = Some q"
    and "\<And>vs locks0. mset vs = mset (adj w) \<Longrightarrow> \<forall>m \<in> set locks0. lock_of w (adj w) m \<Longrightarrow> follows \<delta> (adm n adj)
      (Color_1server.read_color_of_neighbors fuel (node_key w) a b (map decimal vs) 0 [] locks0) q R"
    and "\<And>cols locks q' v. R (cols, locks) q' \<Longrightarrow> Color_1server.getMinimalValueNotInArray cols 0 1000 = Inr v \<Longrightarrow>
      follows \<delta> (adm n adj) (one_finish w v locks) q' Q"
  shows "follows \<delta> (adm n adj) (Color_1server.process_node fuel fresh (node_key w) a b) p Q"
proof -
  obtain vs where vs: "Color_1server.sort_neighbours (map decimal (adj w)) = map decimal vs" "mset vs = mset (adj w)"
    by (rule sort_neighbours_decimal [of "adj w"]) (simp add: sync_same)
  have "\<forall>m \<in> set (map fresh [0..<length vs]). lock_of w (adj w) m"
    using assms(3) by (auto simp: harmless_def lock_of_def)
  note read = assms(6) [OF vs(2) this]
  have "follows \<delta> (adm n adj) (Color_1server.read_color_of_neighbors fuel (node_key w) a b (map decimal vs) 0 []
      (map fresh [0..<length vs])) q
      (\<lambda>(cols, locks) q'. follows \<delta> (adm n adj)
        (bindp (lift_result (Color_1server.getMinimalValueNotInArray cols 0 1000)) (\<lambda>v. one_finish w v locks)) q' Q)"
    using assms(7) by (auto intro!: follows_mono [OF read])
  then show ?thesis
    unfolding Color_1server.process_node_def
    using assms(1,2,4,5) vs
    by (auto simp: Let_def case_prod_unfold simp del: follows_lift_result
        intro!: follows_get_all_neighbours [where q = q] follows_check_boundary [where q = q])
qed

lemma one_finish_follows:
  assumes "node_num w" "snprintf 10 (fmt_d v) = fmt_d v"
    and "\<And>r. \<delta> p (SET (color_key w) (fmt_d v)) r = Some q" "\<And>r. \<delta> q (SET (status_key w) ''1'') r = Some q'"
    and "follows \<delta> A (Color_1server.release_all locks) q' Q"
  shows "follows \<delta> A (one_finish w v locks) p Q"
  using assms by (auto simp: Color_1server.set_node_color_def Color_1server.set_status_def Let_def)

lemma one_release_pass:
  assumes "\<forall>l \<in> set locks. \<forall>r. \<delta> p (SET (lock_key_1 l) ''0'') r = Some p" "Q () p"
  shows "follows \<delta> A (Color_1server.release_all locks) p Q"
  using assms by (induction locks) (auto simp: Color_1server.release_lock_def)

lemma one_release_end:
  assumes "x \<noteq> y" "x \<notin> set vs" "\<forall>l \<in> set locks. lock_of x vs l"
    and "p = Done \<or> p = Statused \<and> edge_lock x y \<in> set locks"
  shows "follows (end_delta x y) A (Color_1server.release_all locks) p (\<lambda>_ q. q = Done)"
  using assms(3,4)
proof (induction locks arbitrary: p)
  case (Cons l locks)
  define q where "q = (if l = edge_lock x y then Done else p)"
  have "end_delta x y p (SET (lock_key_1 l) ''0'') r = Some q" for r
  proof (cases "l = edge_lock x y")
    case True
    then show ?thesis using Cons.prems(2) assms(1) by (auto simp: q_def)
  next
    case False
    then consider "harmless_key (lock_key_1 l)" | v where "v \<in> set vs" "l = edge_lock x v" "v \<noteq> y"
      using Cons.prems(1) by (auto simp: lock_of_def)
    then show ?thesis
    proof cases
      case 1
      then show ?thesis using False harmless_skip(1) by (simp add: q_def)
    next
      case 2
      then show ?thesis using False assms(1,2) by (auto simp: q_def end_delta_def classify_def)
    qed
  qed
  moreover have "follows (end_delta x y) A (Color_1server.release_all locks) q (\<lambda>_ q. q = Done)"
    using Cons.prems by (intro Cons.IH) (auto simp: q_def)
  ultimately show ?case by (simp add: Color_1server.release_lock_def)
qed auto

lemma one_process_pass:
  assumes "graph_ok n adj" "w < n" "harmless fresh" "passes \<delta> p (node_cmds adj w)"
    and "\<And>k r. harmless_key k \<Longrightarrow> \<delta> p (SET k ''0'') r = Some p"
  shows "follows \<delta> (adm n adj) (Color_1server.process_node fuel fresh (node_key w) a b) p (\<lambda>_ q. q = p)"
proof (rule one_process_node [OF assms(1-3), where q = p and R = "\<lambda>res q. q = p \<and> one_took w (adj w) res"])
  note nodes = graph_okD [OF assms(1,2)]
  show "\<delta> p (SMEMBERS (neighbours_key w)) r = Some p" "\<delta> p (SMEMBERS (neighbours_key w)) r = Some p" for r
    using assms(4) by (auto simp: passes_def node_cmds_def)
  show "follows \<delta> (adm n adj)
      (Color_1server.read_color_of_neighbors fuel (node_key w) a b (map decimal vs) 0 [] locks0) p
      (\<lambda>res q. q = p \<and> one_took w (adj w) res)"
    if vs: "mset vs = mset (adj w)" and locks: "\<forall>m \<in> set locks0. lock_of w (adj w) m" for vs locks0
    using assms(4) nodes mset_eq_setD [OF vs] mset_eq_length [OF vs] locks
    by (intro one_read_pass) (auto simp: passes_def node_cmds_def one_post_def one_took_def lock_of_def)
  fix cols locks q v
  assume R: "q = p \<and> one_took w (adj w) (cols, locks)" and v: "Color_1server.getMinimalValueNotInArray cols 0 1000 = Inr v"
  have "\<delta> p (SET (lock_key_1 l) ''0'') r = Some p" if "l \<in> set locks" for l r
  proof -
    from R that have "harmless_key (lock_key_1 l) \<or> (\<exists>v \<in> set (adj w). l = edge_lock w v)"
      by (auto simp: one_took_def lock_of_def)
    moreover have "SET (flag_key w u) ''0'' \<in> node_cmds adj w" if "u \<in> set (adj w)" for u
      using that by (auto simp: node_cmds_def)
    ultimately show ?thesis using assms(5) passesD [OF assms(4)] by auto
  qed
  moreover have "length cols < 10 ^ 9" using R nodes(7) by (simp add: one_took_def)
  ultimately show "follows \<delta> (adm n adj) (one_finish w v locks) q (\<lambda>_ q. q = p)"
    using R assms(4) nodes(1) one_new_color [OF v]
    by (intro one_finish_follows [where q = p and q' = p])
      (auto simp: passes_def node_cmds_def intro!: one_release_pass)
qed

lemma one_look_end:
  assumes "x \<noteq> y" "node_num x" "node_num y" "int y < a \<or> b < int y"
    and "\<And>c. k < length locks \<Longrightarrow> Q (cols @ [c], locks[k := edge_lock x y]) (LockedRead c)"
    and "\<And>c. Q (cols @ [c], locks) (FreeRead c)"
  shows "follows (end_delta x y) (adm n adj)
    (Color_1server.read_color_of_neighbors fuel (node_key x) a b [decimal y] k cols locks) Scan Q"
  using assms make_lock_node [of x y]
  by (simp add: Let_def follows_get_status follows_get_node_color one_acquire_end)

lemma one_process_end:
  assumes "graph_ok n adj" "x < n" "y \<in> set (adj x)" "int y < a \<or> b < int y" "harmless fresh"
  shows "follows (end_delta x y) (adm n adj) (Color_1server.process_node fuel fresh (node_key x) a b) Idle (\<lambda>_ q. q = Done)"
proof (rule one_process_node [OF assms(1,2,5), where q = Scan])
  let ?F = "\<lambda>q c l. q = (if l then LockedRead c else FreeRead c)"
  note nodes = graph_okD [OF assms(1,2)]
  have xy: "x \<noteq> y" "x \<notin> set (adj x)" using nodes(5) assms(3) by blast+
  show "end_delta x y Idle (SMEMBERS (neighbours_key x)) r = Some Scan"
    "end_delta x y Scan (SMEMBERS (neighbours_key x)) r = Some Scan" for r using xy by simp_all
  have other: "passes_others (end_delta x y) adj x y q" for q
    using nodes(4,5) passes_end_other [of _ y x] assms(3) unfolding passes_others_def by (metis wait_ok(1))
  have look: "one_looks_at (end_delta x y) n adj x y ?F Scan
      (\<lambda>k cols locks. Color_1server.read_color_of_neighbors fuel (node_key x) a b [decimal y] k cols locks)"
    unfolding one_looks_at_def
    by (intro allI impI one_look_end [OF xy(1) nodes(1) nodes(4) [OF assms(3)] assms(4)]) auto
  show "follows (end_delta x y) (adm n adj)
      (Color_1server.read_color_of_neighbors fuel (node_key x) a b (map decimal vs) 0 [] locks0) Scan (one_looked adj x y ?F)"
    if "mset vs = mset (adj x)" "\<forall>m \<in> set locks0. lock_of x (adj x) m" for vs locks0
    by (rule one_read_watched [OF assms(1-3) that(1) other other look that(2)])
  fix cols locks q v
  assume "one_looked adj x y ?F (cols, locks) q" and v: "Color_1server.getMinimalValueNotInArray cols 0 1000 = Inr v"
  then obtain c l where res: "length cols = length (adj x)" "\<forall>m \<in> set locks. lock_of x (adj x) m"
      "c \<in> set cols" "?F q c l" "l \<longrightarrow> edge_lock x y \<in> set locks"
    by (auto simp: one_looked_def one_took_def)
  have new: "v \<noteq> c" "atoi (fmt_d v) = v" "cstr (fmt_d v) = fmt_d v" "snprintf 10 (fmt_d v) = fmt_d v"
    using one_new_color [OF v] res(1,3) nodes(7) by auto
  have "follows (end_delta x y) (adm n adj) (Color_1server.release_all locks) (if l then Statused else Done) (\<lambda>_ q. q = Done)"
    using xy res(2,5) by (intro one_release_end [where vs = "adj x"]) auto
  then show "follows (end_delta x y) (adm n adj) (one_finish x v locks) q (\<lambda>_ q. q = Done)"
    by (rule one_finish_follows [where q = "Colored l (fmt_d v)", rotated 4]) (use new res xy nodes(1) in auto)
qed

lemma lock_both_skip:
  assumes "lock_of w vs l"
  shows "both_delta x y q (SET (lock_key_1 l) ''0'') r = Some q"
proof (cases "harmless_key (lock_key_1 l)")
  case True
  then show ?thesis by (rule harmless_skip)
next
  case False
  with assms show ?thesis by (auto simp: lock_of_def both_delta_def)
qed

lemma one_process_first:
  assumes "graph_ok n adj" "x < n" "x \<noteq> y" "harmless fresh"
  shows "follows (both_delta x y) (adm n adj) (Color_1server.process_node fuel fresh (node_key x) a b) B0
    (\<lambda>_ q. \<exists>s. q = B2 s)"
proof (rule one_process_node [OF assms(1,2,4), where q = B1 and R = "\<lambda>res q. q = B1 \<and> one_took x (adj x) res"])
  note nodes = graph_okD [OF assms(1,2)]
  show "both_delta x y B0 (SMEMBERS (neighbours_key x)) r = Some B1"
    "both_delta x y B1 (SMEMBERS (neighbours_key x)) r = Some B1" for r by (simp_all add: both_delta_def)
  have pass: "passes (both_delta x y) B1 (look_cmds x v)" for v
    by (auto simp: passes_def look_cmds_def both_delta_def)
  show "follows (both_delta x y) (adm n adj)
      (Color_1server.read_color_of_neighbors fuel (node_key x) a b (map decimal vs) 0 [] locks0) B1
      (\<lambda>res q. q = B1 \<and> one_took x (adj x) res)"
    if vs: "mset vs = mset (adj x)" and locks: "\<forall>m \<in> set locks0. lock_of x (adj x) m" for vs locks0
    using nodes pass mset_eq_setD [OF vs] mset_eq_length [OF vs] locks
    by (intro one_read_pass) (auto simp: one_post_def one_took_def lock_of_def)
  fix cols locks q v
  assume R: "q = B1 \<and> one_took x (adj x) (cols, locks)" and v: "Color_1server.getMinimalValueNotInArray cols 0 1000 = Inr v"
  have "both_delta x y (B2 (fmt_d v)) (SET (lock_key_1 l) ''0'') r = Some (B2 (fmt_d v))" if "l \<in> set locks" for l r
    using lock_both_skip R that by (auto simp: one_took_def)
  then have "follows (both_delta x y) (adm n adj) (Color_1server.release_all locks) (B2 (fmt_d v)) (\<lambda>_ q. \<exists>s. q = B2 s)"
    by (intro one_release_pass) auto
  moreover have "length cols < 10 ^ 9" using R nodes(7) by (simp add: one_took_def)
  ultimately show "follows (both_delta x y) (adm n adj) (one_finish x v locks) q (\<lambda>_ q. \<exists>s. q = B2 s)"
    using R nodes(1) one_new_color [OF v] assms(3)
    by (intro one_finish_follows [where q = "B2 (fmt_d v)" and q' = "B2 (fmt_d v)"]) (auto simp: both_delta_def)
qed

lemma one_read_second:
  assumes "graph_ok n adj" "y < n" "x \<in> set (adj y)" "a \<le> int x" "int x \<le> b" "mset vs = mset (adj y)"
    and "\<forall>m \<in> set locks0. lock_of y (adj y) m"
  shows "follows (both_delta x y) (adm n adj)
    (Color_1server.read_color_of_neighbors fuel (node_key y) a b (map decimal vs) 0 [] locks0) (B3 s)
    (one_looked adj y x (\<lambda>q c l. \<not> l \<and> q = B4 s c))"
proof (rule one_read_watched [OF assms(1-3,6) _ _ _ assms(7)])
  note nodes = graph_okD [OF assms(1,2)]
  have pass: "passes (both_delta x y) q (look_cmds y v)" if "v \<noteq> x" for q v
    using that nodes(5) [OF assms(3)]
    by (cases q) (auto simp: passes_def look_cmds_def both_delta_def)
  then show "passes_others (both_delta x y) adj y x (B3 s)"
    using nodes(4,5) by (auto simp: passes_others_def)
  show "passes_others (both_delta x y) adj y x q" if "\<not> l \<and> q = B4 s c" for q c l
    using nodes(4,5) pass by (auto simp: passes_others_def)
  show "one_looks_at (both_delta x y) n adj y x (\<lambda>q c l. \<not> l \<and> q = B4 s c) (B3 s)
      (\<lambda>k cols locks. Color_1server.read_color_of_neighbors fuel (node_key y) a b [decimal x] k cols locks)"
    using assms(4,5) nodes(4) [OF assms(3)]
    by (auto simp: one_looks_at_def Let_def follows_get_node_color both_delta_def)
qed

lemma one_process_second:
  assumes "graph_ok n adj" "y < n" "x \<in> set (adj y)" "a \<le> int x" "int x \<le> b" "harmless fresh"
  shows "follows (both_delta x y) (adm n adj) (Color_1server.process_node fuel fresh (node_key y) a b) (B2 s) (\<lambda>_ q. q = B6)"
proof (rule one_process_node [OF assms(1,2,6), where q = "B3 s"])
  note nodes = graph_okD [OF assms(1,2)]
  have xy: "x \<noteq> y" using nodes(5) assms(3) by blast
  show "both_delta x y (B2 s) (SMEMBERS (neighbours_key y)) r = Some (B3 s)"
    "both_delta x y (B3 s) (SMEMBERS (neighbours_key y)) r = Some (B3 s)" for r by (simp_all add: both_delta_def)
  show "follows (both_delta x y) (adm n adj)
      (Color_1server.read_color_of_neighbors fuel (node_key y) a b (map decimal vs) 0 [] locks0) (B3 s)
      (one_looked adj y x (\<lambda>q c l. \<not> l \<and> q = B4 s c))"
    if "mset vs = mset (adj y)" "\<forall>m \<in> set locks0. lock_of y (adj y) m" for vs locks0
    by (rule one_read_second [OF assms(1-5) that])
  fix cols locks q v
  assume "one_looked adj y x (\<lambda>q c l. \<not> l \<and> q = B4 s c) (cols, locks) q"
    and v: "Color_1server.getMinimalValueNotInArray cols 0 1000 = Inr v"
  then obtain c where res: "length cols = length (adj y)" "\<forall>m \<in> set locks. lock_of y (adj y) m"
      "c \<in> set cols" "q = B4 s c" by (auto simp: one_looked_def one_took_def)
  have new: "v \<noteq> c" "atoi (fmt_d v) = v" "cstr (fmt_d v) = fmt_d v" "snprintf 10 (fmt_d v) = fmt_d v"
    using one_new_color [OF v] res(1,3) nodes(7) by auto
  have "follows (both_delta x y) (adm n adj) (Color_1server.release_all locks) B6 (\<lambda>_ q. q = B6)"
    using res(2) lock_both_skip by (intro one_release_pass) blast+
  then show "follows (both_delta x y) (adm n adj) (one_finish y v locks) q (\<lambda>_ q. q = B6)"
    using new res xy nodes(1)
    by (intro one_finish_follows [where q = "B5 s (fmt_d v)" and q' = B6]) (auto simp: both_delta_def)
qed

section \<open>The contract\<close>

lemma one_contract:
  assumes "harmless fresh"
  shows "coloring_client (\<lambda>a b nn. Color_1server.process_node fuel fresh nn a b)
    (\<lambda>keys a b i. Color_1server.process_nodes fuel fresh keys a b i)"
proof unfold_locales
  show "Color_1server.process_nodes fuel fresh keys a b i =
     (if i \<le> b then
        if 0 \<le> i \<and> i < int (length keys)
        then bindp (Color_1server.process_node fuel fresh (keys ! nat i) a b)
               (\<lambda>_. Color_1server.process_nodes fuel fresh keys a b (i + 1))
        else Crash OutOfBounds
      else Ret ())" for keys a b i
    by (subst Color_1server.process_nodes.simps) simp
qed (blast intro: assms one_process_end one_process_first one_process_second one_process_pass harmless_skip)+

interpretation one_server: coloring_client
  "\<lambda>a b nn. Color_1server.process_node fuel (\<lambda>_. zero_lock) nn a b"
  "\<lambda>keys a b i. Color_1server.process_nodes fuel (\<lambda>_. zero_lock) keys a b i"
  for fuel
  by (rule one_contract [OF harmless_zero])

end
