(* ===== verification/Alone_1server.thy ===== *)
theory Alone_1server
  imports Alone_sync Follow_1server
begin

text \<open>
  The one-server client alone at the server returns and meets the contract of theory \<open>Alone\<close>,
  again for lock arrays whose fresh contents spell no key of the graph.
\<close>

lemma one_returns_acquire:
  assumes "graph_db n adj db" "w \<noteq> v" "(v, w) \<notin> raised db"
  shows "returns (Color_1server.acquire_lock fuel (edge_lock w v)) db Q \<longleftrightarrow>
    Q () (AList.update (edge_turn_key w v) (StrObj (decimal w)) (AList.update (flag_key w v) (StrObj ''1'') db))"
proof -
  let ?db = "AList.update (edge_turn_key w v) (StrObj (decimal w)) (AList.update (flag_key w v) (StrObj ''1'') db)"
  obtain r db1 where r: "exec_cmd (GET (flag_key v w)) ?db = (r, db1)" by fastforce
  have "graph_db n adj ?db" using assms(1) by (simp add: graph_db_set)
  moreover have "(v, w) \<notin> raised ?db" using assms(2,3) by simp
  ultimately have "reply_str r \<noteq> Some ''1'' \<and> db1 = ?db" using r get_flag_calm by blast
  then show ?thesis
    using r
    by (simp add: Color_1server.acquire_lock_def returns_Cmd Color_1server.wait_loop.simps
        wait_condition_calm del: exec_cmd.simps(1)) (simp add: returns_Cmd)
qed

lemma harmless_set:
  assumes "harmless_key k" "graph_db n adj db"
  shows "graph_db n adj (AList.update k (StrObj s) db)" "same_but {} db (AList.update k (StrObj s) db)"
    "raised (AList.update k (StrObj s) db) = raised db"
  using assms by (auto simp: harmless_key_def graph_db_set same_but_def color_of_def status_of_def raised_def)

lemma one_returns_release:
  assumes "graph_db n adj db" "\<forall>l \<in> set locks. lock_of w vs l"
    and "\<And>db'. graph_db n adj db' \<Longrightarrow> same_but {} db db' \<Longrightarrow>
      raised db' = raised db - {(w, v) | v. edge_lock w v \<in> set locks} \<Longrightarrow> Q () db'"
  shows "returns (Color_1server.release_all locks) db Q"
  using assms
proof (induction locks arbitrary: db)
  case (Cons l locks)
  let ?db = "AList.update (lock_key_1 l) (StrObj ''0'') db"
  have step: "graph_db n adj ?db" "same_but {} db ?db" "raised ?db = raised db - {(w, v) | v. l = edge_lock w v}"
  proof -
    consider "harmless_key (lock_key_1 l)" | v where "l = edge_lock w v"
      using Cons.prems(2) by (auto simp: lock_of_def)
    then have "graph_db n adj ?db \<and> same_but {} db ?db \<and> raised ?db = raised db - {(w, v) | v. l = edge_lock w v}"
    proof cases
      case 1
      moreover have "l \<noteq> edge_lock w v" for v using 1 by (auto simp: harmless_key_def)
      ultimately show ?thesis using harmless_set [OF 1 Cons.prems(1)] by simp
    next
      case 2
      then have "{(w, v) | v. l = edge_lock w v} = {(w, v)}"
        by (auto dest: arg_cong [where f = lock_key_1])
      then show ?thesis using 2 set_flag_frame(1,2) [OF Cons.prems(1)] by simp
    qed
    then show "graph_db n adj ?db" "same_but {} db ?db" "raised ?db = raised db - {(w, v) | v. l = edge_lock w v}"
      by auto
  qed
  have "returns (Color_1server.release_all locks) ?db Q"
  proof (rule Cons.IH [OF step(1)])
    fix db' assume db': "graph_db n adj db'" "same_but {} ?db db'"
      "raised db' = raised ?db - {(w, v) | v. edge_lock w v \<in> set locks}"
    have "raised db' = raised db - {(w, v) | v. edge_lock w v \<in> set (l # locks)}"
      unfolding db'(3) step(3) by auto
    moreover have "same_but {} db db'" using same_but_trans [OF step(2) db'(2)] by simp
    ultimately show "Q () db'" using Cons.prems(3) db'(1) by blast
  qed (use Cons.prems(2) in simp)
  then show ?case by (simp add: Color_1server.release_lock_def returns_Cmd)
qed simp

lemma one_returns_read:
  assumes "node_num w"
    and "\<forall>v \<in> set vs. node_num v \<and> v \<noteq> w" "graph_db n adj db" "raised db \<subseteq> {w} \<times> UNIV" "k + length vs \<le> length locks"
    and "\<forall>v. (w, v) \<in> raised db \<longrightarrow> edge_lock w v \<in> set (take k locks)"
    and "\<And>locks' db'. graph_db n adj db' \<Longrightarrow> same_but {} db db' \<Longrightarrow> raised db' \<subseteq> {w} \<times> UNIV \<Longrightarrow>
      \<forall>v. (w, v) \<in> raised db' \<longrightarrow> edge_lock w v \<in> set locks' \<Longrightarrow>
      \<forall>l \<in> set locks'. l \<in> set locks \<or> (\<exists>v \<in> set vs. l = edge_lock w v) \<Longrightarrow>
      Q (cols @ map (color_of db) vs, locks') db'"
  shows "returns (Color_1server.read_color_of_neighbors fuel (node_key w) a b (map decimal vs) k cols locks) db Q"
  using assms(2-)
proof (induction vs arbitrary: cols locks k db)
  case Nil
  have "\<forall>v. (w, v) \<in> raised db \<longrightarrow> edge_lock w v \<in> set locks" using Nil.prems(5) in_set_takeD by metis
  then show ?case using Nil.prems(6) [of db locks] Nil.prems(2,3) by simp
next
  case (Cons v vs)
  have v: "node_num v" "v \<noteq> w" using Cons.prems(1) by auto
  note lock = make_lock_node [OF assms(1) v(1) v(2) [symmetric]]
  have k: "k < length locks" using Cons.prems(4) by simp
  have tail: "returns (Color_1server.read_color_of_neighbors fuel (node_key w) a b (map decimal vs) (Suc k)
      (cols @ [color_of db1 v]) locks1) db1 Q"
    if 1: "graph_db n adj db1" "same_but {} db db1" "raised db1 \<subseteq> {w} \<times> UNIV"
      "\<forall>u. (w, u) \<in> raised db1 \<longrightarrow> edge_lock w u \<in> set (take (Suc k) locks1)" "length locks1 = length locks"
      "\<forall>l \<in> set locks1. l \<in> set locks \<or> l = edge_lock w v" for db1 locks1
  proof (rule Cons.IH [OF _ 1(1,3) _ 1(4)])
    show "Suc k + length vs \<le> length locks1" using 1(5) Cons.prems(4) by simp
    fix locks' db'
    assume db': "graph_db n adj db'" "same_but {} db1 db'" "raised db' \<subseteq> {w} \<times> UNIV"
      "\<forall>v. (w, v) \<in> raised db' \<longrightarrow> edge_lock w v \<in> set locks'"
      "\<forall>l \<in> set locks'. l \<in> set locks1 \<or> (\<exists>v \<in> set vs. l = edge_lock w v)"
    have "color_of db1 = color_of db" using 1(2) by (auto simp: same_but_def)
    moreover have "same_but {} db db'" using same_but_trans [OF 1(2) db'(2)] by simp
    moreover have "\<forall>l \<in> set locks'. l \<in> set locks \<or> (\<exists>u \<in> set (v # vs). l = edge_lock w u)" using db'(5) 1(6) by auto
    ultimately show "Q ((cols @ [color_of db1 v]) @ map (color_of db1) vs, locks') db'"
      using Cons.prems(6) [of db' locks'] db'(1,3,4) by simp
  qed (use Cons.prems(1) in simp)
  let ?db1 = "AList.update (edge_turn_key w v) (StrObj (decimal w)) (AList.update (flag_key w v) (StrObj ''1'') db)"
  have plain: "returns (Color_1server.read_color_of_neighbors fuel (node_key w) a b (map decimal vs) (Suc k)
      (cols @ [color_of db v]) locks) db Q"
    by (rule tail) (use Cons.prems(2,3,5) k in \<open>auto simp: take_Suc_conv_app_nth\<close>)
  have db1: "graph_db n adj ?db1" using Cons.prems(2) by (simp add: graph_db_set)
  have locked: "returns (Color_1server.read_color_of_neighbors fuel (node_key w) a b (map decimal vs) (Suc k)
      (cols @ [color_of ?db1 v]) (locks[k := edge_lock w v])) ?db1 Q"
  proof (rule tail)
    show "graph_db n adj ?db1" "same_but {} db ?db1"
      using Cons.prems(2) by (simp_all add: graph_db_set same_but_def color_of_def status_of_def)
    show "\<forall>l \<in> set (locks[k := edge_lock w v]). l \<in> set locks \<or> l = edge_lock w v"
      using set_update_subset_insert [of locks k "edge_lock w v"] by auto
  qed (use Cons.prems(3,5) k in \<open>auto simp: take_Suc_conv_app_nth\<close>)
  have "(v, w) \<notin> raised db" using Cons.prems(3) v(2) by auto
  then show ?case
    using v assms(1) lock k plain locked
    by (simp add: Let_def returns_get_status [OF Cons.prems(2)] returns_get_node_color [OF db1]
        returns_get_node_color [OF Cons.prems(2)] one_returns_acquire [OF Cons.prems(2)])
qed

lemma one_returns_process_node:
  assumes "graph_ok n adj" "graph_db n adj db" "raised db = {}" "w < n" "harmless fresh"
  shows "returns (Color_1server.process_node fuel fresh (node_key w) a b) db (\<lambda>_. colors_node n adj w db)"
proof -
  note nodes = graph_okD [OF assms(1,4)]
  obtain vs where vs: "Color_1server.sort_neighbours (map decimal (adj w)) = map decimal vs" "mset vs = mset (adj w)"
    by (rule sort_neighbours_decimal [of "adj w"]) (simp add: sync_same)
  have sets: "set vs = set (adj w)" "length vs = length (adj w)"
    using mset_eq_setD [OF vs(2)] mset_eq_length [OF vs(2)] by auto
  let ?cols = "map (color_of db) vs"
  have len: "length ?cols < 10 ^ 9" using sets(2) nodes(7) by simp
  obtain v where v: "getMinimalValueNotInArray ?cols 0 1000 = Inr v"
    by (rule getMinimal_sync [of 0 1000 ?cols]) (use len in \<open>auto simp: INT_MAX_def\<close>)
  note new = new_color [OF v len] least_free_color [OF v len]
  have v1: "Color_1server.getMinimalValueNotInArray ?cols 0 1000 = Inr v" using v getMinimal_same [of 0 1000 ?cols] by simp
  let ?set = "\<lambda>db1. AList.update (status_key w) (StrObj ''1'') (AList.update (color_key w) (StrObj (fmt_d v)) db1)"
  have fin: "returns (Color_1server.release_all locks) (?set db1) (\<lambda>_. colors_node n adj w db)"
    if "graph_db n adj db1" "same_but {} db db1" "raised db1 \<subseteq> {w} \<times> UNIV"
      "\<forall>v. (w, v) \<in> raised db1 \<longrightarrow> edge_lock w v \<in> set locks" "\<forall>l \<in> set locks. lock_of w vs l" for db1 locks
  proof (rule one_returns_release [OF _ that(5)])
    show "graph_db n adj (?set db1)" using that(1) by (simp add: graph_db_set)
    fix db2 assume db2: "graph_db n adj db2" "same_but {} (?set db1) db2"
      "raised db2 = raised (?set db1) - {(w, v) | v. edge_lock w v \<in> set locks}"
    have "color_of (?set db1) w = v" "status_of (?set db1) w = 1" "same_but {w} db1 (?set db1)"
      using new(4,5) by (simp_all add: color_of_def status_of_def colval_def same_but_def)
    then have "color_of db2 w = v" "status_of db2 w = 1" "same_but {w} db db2"
      using db2(2) that(2) by (simp_all add: same_but_def)
    moreover have "raised db2 = {}" using db2(3) that(3,4) by auto
    ultimately show "colors_node n adj w db db2"
      using db2(1) new(7,8) sets by (auto simp: colors_node_def least_free_def)
  qed
  have "returns (Color_1server.read_color_of_neighbors fuel (node_key w) a b (map decimal vs) 0 [] (map fresh [0..<length vs])) db
     (\<lambda>(cols, locks) db1. cols = ?cols \<and> returns (Color_1server.release_all locks) (?set db1) (\<lambda>_. colors_node n adj w db))"
  proof (rule one_returns_read [OF nodes(1)])
    fix locks db1
    assume db1: "graph_db n adj db1" "same_but {} db db1" "raised db1 \<subseteq> {w} \<times> UNIV"
      "\<forall>v. (w, v) \<in> raised db1 \<longrightarrow> edge_lock w v \<in> set locks"
      "\<forall>l \<in> set locks. l \<in> set (map fresh [0..<length vs]) \<or> (\<exists>v \<in> set vs. l = edge_lock w v)"
    have "\<forall>l \<in> set locks. lock_of w vs l"
      using db1(5) assms(5) by (auto simp: lock_of_def harmless_def)
    with fin db1 show "(case ([] @ ?cols, locks) of (cols, locks) \<Rightarrow> \<lambda>db1. cols = ?cols
        \<and> returns (Color_1server.release_all locks) (?set db1) (\<lambda>_. colors_node n adj w db)) db1" by simp
  qed (use nodes(4,5) sets assms(2,3) in auto)
  then show ?thesis
    unfolding Color_1server.process_node_def
    using vs(1) v1 new(6) nodes(1)
    by (auto simp: Let_def returns_get_all_neighbours [OF assms(1,2,4)] Color_1server.set_node_color_def
        Color_1server.set_status_def returns_Cmd
        elim!: returns_mono intro!: returns_check_boundary [OF assms(1,2,4)])
qed

lemma one_lone_contract:
  assumes "harmless fresh"
  shows "lone_client (\<lambda>a b nn. Color_1server.process_node fuel fresh nn a b)
    (\<lambda>keys a b i. Color_1server.process_nodes fuel fresh keys a b i)"
proof -
  have "node_loop (\<lambda>a b nn. Color_1server.process_node fuel fresh nn a b)
    (\<lambda>keys a b i. Color_1server.process_nodes fuel fresh keys a b i)"
    using one_contract [OF assms] coloring_client_def by blast
  then show ?thesis
    using one_returns_process_node assms by (simp add: lone_client_def lone_client_axioms_def)
qed

interpretation lone_one: lone_client
  "\<lambda>a b nn. Color_1server.process_node fuel (\<lambda>_. zero_lock) nn a b"
  "\<lambda>keys a b i. Color_1server.process_nodes fuel (\<lambda>_. zero_lock) keys a b i"
  for fuel
  by (rule one_lone_contract [OF harmless_zero])

end
