(* ===== verification/Concurrent.thy ===== *)
theory Concurrent
  imports Small_graph Alone_1server
begin

text \<open>
  What the interleaved runs of several replica-waiting clients guarantee. The theorems are the
  client-independent ones of the locale \<open>coloring_client\<close> (theory \<open>Interleaving\<close>), read at the
  programs of \<open>sync/color.c\<close> through the interpretation of \<open>Follow_sync\<close>.
\<close>

text \<open>The loop of \<open>main\<close> as a client of the system.\<close>

definition sync_loop ::
    "nat \<Rightarrow> (nat \<Rightarrow> ClientGraphPetersonLock) \<Rightarrow> string option \<Rightarrow> string
     \<Rightarrow> string list \<Rightarrow> int \<Rightarrow> int \<Rightarrow> int \<Rightarrow> unit prog" where
  "sync_loop fuel fresh reps tmo keys a b i = Color_sync.process_nodes fuel fresh keys a b reps tmo i"

lemma sync_loop_eq: "(\<lambda>keys a b i. Color_sync.process_nodes fuel fresh keys a b reps tmo i) = sync_loop fuel fresh reps tmo"
  by (intro ext) (simp add: sync_loop_def)

section \<open>Two clients on a small graph\<close>

abbreviation edge_clients :: "unit prog list" where
  "edge_clients \<equiv> clients (sync_loop 3 (\<lambda>_. zero_lock) (Some ''0'') ''10000'') 2 [(0, 0), (1, 1)]"

text \<open>Both clients run, one after the other or in lock step, until they are done.\<close>

abbreviation edge_run :: system where
  "edge_run \<equiv> run_schedule (replicate 18 0 @ replicate 18 1) (edge_db, edge_clients)"

lemma edge_reach: "sys_reach (edge_db, edge_clients) (fst edge_run, snd edge_run)"
  using run_schedule_reach by simp

lemma edge_run_status: "status_of (fst edge_run) 0 = 1 \<and> status_of (fst edge_run) 1 = 1"
  by code_simp

fun returned :: "unit prog \<Rightarrow> bool" where
  "returned (Ret x) = True"
| "returned _ = False"

lemma returned_Ret: "returned p \<Longrightarrow> p = Ret ()"
  by (cases p) auto

lemma edge_run_returned: "list_all returned (snd edge_run)"
  by code_simp

text \<open>What the clients leave behind is still a graph.\<close>

context coloring_client
begin

lemma reached_graph_db:
  assumes "graph_ok n adj" "graph_db n adj db" "unstarted n db" "disjoint_tasks ts"
    and "sys_reach (db, clients process_nodes n ts) (db', ps)" "u < n" "v \<in> set (adj u)" "owned ts u" "owned ts v"
  shows "graph_db n adj db'"
  by (rule edge_cases [OF assms]) (simp_all add: inter_inv_def intra_inv_def)

end

lemma sync_finished:
  assumes "graph_ok n adj" "graph_db n adj db" "unstarted n db" "disjoint_tasks ts"
    and "sys_reach (db, clients (sync_loop fuel fresh reps tmo) n ts) (db', ps)"
    and "u < n" "v \<in> set (adj u)" "owned ts u" "owned ts v"
  shows "graph_db n adj db'" "list_all returned ps \<Longrightarrow> color_of db' u \<noteq> color_of db' v"
proof -
  note reach = assms(5) [folded sync_loop_eq]
  show "graph_db n adj db'" by (rule sync.reached_graph_db [OF assms(1-4) reach assms(6-)])
  assume "list_all returned ps"
  then have "\<forall>p \<in> set ps. p = Ret ()" using returned_Ret by (auto simp: list_all_iff)
  then show "color_of db' u \<noteq> color_of db' v" by (rule sync.finished_ends_differ [OF assms(1-4) reach assms(6-)])
qed

section \<open>Properties\<close>

text \<open>
  C1: several clients run \<open>process_nodes\<close> of \<open>sync/color.c\<close> on disjoint ranges of nodes against
  one server, their commands interleaved in any order, with any number of required replicas,
  any \<open>WAIT\<close> replies and any contents of freshly allocated memory. In every state they can
  reach, two neighbours whose status is set have different colours.
\<close>

theorem sync_clients_safe:
  assumes "graph_ok n adj" "graph_db n adj db" "unstarted n db" "disjoint_tasks ts"
    and "sys_reach (db, clients (sync_loop fuel fresh reps tmo) n ts) (db', ps)"
    and "u < n" "v \<in> set (adj u)" "owned ts u" "owned ts v"
    and "status_of db' u \<noteq> 0" "status_of db' v \<noteq> 0"
  shows "color_of db' u \<noteq> color_of db' v"
  using assms sync.colored_ends_differ [of n adj db ts fuel fresh reps tmo db' ps u v]
  unfolding sync_loop_eq by blast

theorem sync_clients_safe_witness:
  "color_of (fst edge_run) 0 \<noteq> color_of (fst edge_run) 1"
  by (rule sync_clients_safe [OF edge_graph_ok edge_graph_db edge_unstarted edge_tasks(1) edge_reach])
    (use edge_run_status edge_tasks in \<open>simp_all add: edge_adj_def\<close>)

text \<open>
  C2: when all these clients have returned, the colouring is proper: any two neighbours that
  were given to clients have different colours.
\<close>

theorem sync_clients_finished:
  assumes "graph_ok n adj" "graph_db n adj db" "unstarted n db" "disjoint_tasks ts"
    and "sys_reach (db, clients (sync_loop fuel fresh reps tmo) n ts) (db', ps)"
    and "u < n" "v \<in> set (adj u)" "owned ts u" "owned ts v"
    and "list_all returned ps"
  shows "color_of db' u \<noteq> color_of db' v"
  by (rule sync_finished(2) [OF assms])

theorem sync_clients_finished_witness:
  "list_all returned (snd edge_run) \<and> color_of (fst edge_run) 0 \<noteq> color_of (fst edge_run) 1"
proof
  show "color_of (fst edge_run) 0 \<noteq> color_of (fst edge_run) 1"
    by (rule sync_clients_finished [OF edge_graph_ok edge_graph_db edge_unstarted edge_tasks(1) edge_reach])
      (use edge_run_returned edge_tasks in \<open>simp_all add: edge_adj_def\<close>)
qed (rule edge_run_returned)

text \<open>The same loop in \<open>1server/color.c\<close>.\<close>

definition one_loop ::
    "nat \<Rightarrow> (nat \<Rightarrow> ClientGraphPetersonLock) \<Rightarrow> string list \<Rightarrow> int \<Rightarrow> int \<Rightarrow> int \<Rightarrow> unit prog" where
  "one_loop fuel fresh keys a b i = Color_1server.process_nodes fuel fresh keys a b i"

lemma one_loop_contract:
  assumes "harmless fresh"
  shows "coloring_client (\<lambda>a b nn. Color_1server.process_node fuel fresh nn a b) (one_loop fuel fresh)"
proof -
  have "one_loop fuel fresh = (\<lambda>keys a b i. Color_1server.process_nodes fuel fresh keys a b i)"
    by (intro ext) (simp add: one_loop_def)
  then show ?thesis using one_contract [OF assms] by simp
qed


abbreviation one_run :: system where
  "one_run \<equiv> run_schedule (replicate 18 0 @ replicate 18 1)
     (edge_db, clients (one_loop 3 (\<lambda>_. zero_lock)) 2 [(0, 0), (1, 1)])"


end
