(* ===== verification/Main_program.thy ===== *)
theory Main_program
  imports Alone_1server Small_graph
begin

text \<open>
  The two \<open>main\<close> functions: from the words of the command line to the coloured graph. The
  server is asked for the keys \<open>node_*_neighbours\<close>; on a graph whose nodes are numbered from
  zero without gaps, \<open>fetch_keys\<close> returns the node keys in the order of their numbers, so that
  \<open>keys[i]\<close> is the node \<open>i\<close>, which \<open>main\<close> relies on.
\<close>

section \<open>\<open>fetch_keys\<close>\<close>

text \<open>The keys of the form \<open>node_*_neighbours\<close> are those of the nodes \<open>0..<n\<close>.\<close>

definition lists_graph :: "nat \<Rightarrow> keyspace \<Rightarrow> bool" where
  "lists_graph n db \<longleftrightarrow> distinct (map fst db)
     \<and> (\<forall>m. ''node_'' @ m @ ''_neighbours'' \<in> set (map fst db) \<longleftrightarrow> (\<exists>u < n. m = decimal u))"

lemma matches_neighbours:
  "stringmatchlen ''node_*_neighbours'' k False \<longleftrightarrow> (\<exists>m. k = ''node_'' @ m @ ''_neighbours'')"
  using glob_one_star [of "''node_''" "''_neighbours''" k]
  by (simp add: plain_char_def)

lemma neighbours_key_alt: "neighbours_key u = ''node_'' @ decimal u @ ''_neighbours''"
  by (simp add: key_defs)

lemma matched_keys:
  assumes "lists_graph n db"
  shows "mset (filter (\<lambda>k. stringmatchlen ''node_*_neighbours'' k False) (map fst db))
    = mset (map neighbours_key [0..<n])"
proof -
  let ?ks = "filter (\<lambda>k. stringmatchlen ''node_*_neighbours'' k False) (map fst db)"
  have "set ?ks = neighbours_key ` {..<n}"
  proof (intro set_eqI iffI)
    fix k assume "k \<in> set ?ks"
    then obtain m where "k = ''node_'' @ m @ ''_neighbours''" "k \<in> set (map fst db)"
      unfolding set_filter matches_neighbours by blast
    then show "k \<in> neighbours_key ` {..<n}"
      using assms unfolding lists_graph_def neighbours_key_alt by blast
  next
    fix k assume "k \<in> neighbours_key ` {..<n}"
    then show "k \<in> set ?ks"
      using assms unfolding lists_graph_def neighbours_key_alt set_filter matches_neighbours by blast
  qed
  moreover have "distinct ?ks" "distinct (map neighbours_key [0..<n])"
    using assms by (simp_all add: lists_graph_def distinct_map inj_on_def)
  ultimately show ?thesis
    using set_eq_iff_mset_eq_distinct [of ?ks "map neighbours_key [0..<n]"]
    by (simp only: set_map set_upt atLeast0LessThan simp_thms)
qed

lemma cut_at_digits:
  assumes "\<forall>c \<in> set ds. is_digit c"
  shows "cut_at (CHR ''_'' # p) (ds @ CHR ''_'' # p) = ds"
  using assms
proof (induction ds)
  case (Cons d ds)
  then have "d \<noteq> CHR ''_''" using digit_not_sign by auto
  with Cons show ?case by simp
qed simp

lemma cut_at_neighbours [simp]: "cut_at ''_neighbours'' (neighbours_key u) = node_key u"
proof -
  obtain c cs where d: "decimal u = c # cs" "is_digit c"
    using decimal_digits [of u] decimal_not_Nil [of u] by (cases "decimal u") auto
  have "c \<noteq> CHR ''n''" using d(2) by (auto simp: is_digit_def)
  moreover have "cut_at ''_neighbours'' (decimal u @ ''_neighbours'') = decimal u"
    using cut_at_digits [OF decimal_digits] .
  ultimately show ?thesis
    using d(1) by (simp add: neighbours_key_alt node_key_def)
qed

lemma key_number_node [simp]: "node_num u \<Longrightarrow> Color_1server.key_number (node_key u) = Some (int u)"
  using strchr_prefix [of "CHR ''_''" "''node''" "decimal u"]
  by (simp add: Color_1server.key_number_def node_key_def)

lemma sort_keys_nodes:
  assumes "mset us = mset [0..<n]" "int n < INT_MAX"
  shows "Color_1server.sort_keys (map node_key us) = Inr (node_keys n)"
proof -
  have us: "node_num u" if "u \<in> set us" for u
    using mset_eq_setD [OF assms(1)] that assms(2) by (auto simp: node_num_def)
  let ?cmp = "\<lambda>u v. Color_1server.compare_keys (node_key u) (node_key v)"
  have "?cmp u v \<le> 0 \<longleftrightarrow> int u \<le> int v" if "u \<in> set us" "v \<in> set us" for u v
    using us [OF that(1)] us [OF that(2)]
    by (simp add: Color_1server.compare_keys_def node_num_def in_int_def INT_MAX_def INT_MIN_def)
  then have "sorted (map int (qsort ?cmp us))" by (rule sorted_qsort)
  then have "sorted (qsort ?cmp us)" by (simp add: sorted_map)
  moreover have "mset (qsort ?cmp us) = mset [0..<n]" using assms(1) by simp
  ultimately have "qsort ?cmp us = [0..<n]"
    using properties_for_sort [of "qsort ?cmp us" "[0..<n]"] properties_for_sort [of "[0..<n]" "[0..<n]"] by simp
  moreover have "\<forall>k \<in> set (map node_key us). Color_1server.key_number k \<noteq> None" using us by auto
  ultimately show ?thesis
    by (auto simp: Color_1server.sort_keys_def qsort_map)
qed

lemma no_nul_keys: "CHR 0x00 \<notin> set (neighbours_key u)"
  by (simp add: neighbours_key_alt)

lemma perm_image: "mset ks = mset (map f xs) \<Longrightarrow> \<exists>us. ks = map f us \<and> mset us = mset xs"
proof (induction ks arbitrary: xs)
  case (Cons k ks)
  have "k \<in> set (map f xs)" using mset_eq_setD [OF Cons.prems] by auto
  then obtain x where x: "x \<in> set xs" "k = f x" by auto
  then have xs: "mset xs = add_mset x (mset (remove1 x xs))" by simp
  have "add_mset k (mset ks) = add_mset k (mset (map f (remove1 x xs)))"
    using Cons.prems x(2) unfolding mset_map xs by (simp del: mset_remove1)
  then have "mset ks = mset (map f (remove1 x xs))" by (simp only: add_mset_add_mset_same_iff)
  then obtain us where "ks = map f us" "mset us = mset (remove1 x xs)" using Cons.IH by blast
  with x xs show ?case by (intro exI [of _ "x # us"]) simp
qed simp

lemma returns_fetch_keys:
  assumes "lists_graph n db" "int n < INT_MAX"
  shows "returns (Color_1server.fetch_keys ''node_*_neighbours'') db Q \<longleftrightarrow> Q (Some (node_keys n)) db"
proof -
  let ?ks = "filter (\<lambda>k. stringmatchlen ''node_*_neighbours'' k False) (map fst db)"
  obtain us where us: "?ks = map neighbours_key us" "mset us = mset [0..<n]"
    using perm_image [OF matched_keys [OF assms(1)]] by blast
  have "strdup_all (map RString ?ks) = Some ?ks"
    unfolding us(1) by (rule strdup_all_RString) (simp add: list_all_iff no_nul_keys)
  moreover have "map (cut_at ''_neighbours'') ?ks = map node_key us"
    unfolding us(1) by simp
  ultimately show ?thesis
    using sort_keys_nodes [OF us(2) assms(2)]
    by (simp add: Color_1server.fetch_keys_def returns_Cmd)
qed

section \<open>Programs that keep their connection\<close>

named_theorems keeps \<open>functions that open no connection\<close>

lemma keeps_lift [keeps]: "no_connect (lift_result r)"
  by (simp add: lift_result_def split: sum.split)

lemma keeps_write_loop [keeps]: "no_connect (write_loop fuel req rr tmo c)"
proof (induction fuel)
  case (Suc fuel)
  then show ?case by (subst write_loop.simps) (simp add: Let_def split: option.split)
qed (simp add: write_loop.simps Let_def split: option.split)

lemma keeps_write [keeps]: "no_connect (write_with_wait fuel reps tmo c k v)"
  by (simp add: write_with_wait_def keeps split: option.split)

lemma keeps_wait_loop [keeps]: "no_connect (Color_1server.wait_loop fuel l f t)"
proof (induction fuel arbitrary: f t)
  case (Suc fuel)
  then show ?case
    by (subst Color_1server.wait_loop.simps) (simp split: sum.split bool.split)
qed (simp add: Color_1server.wait_loop.simps split: sum.split bool.split)

lemma keeps_shared [keeps]:
  "no_connect (Color_1server.acquire_lock fuel l)"
  "no_connect (Color_sync.acquire_lock fuel l reps tmo)"
  "no_connect (Color_1server.get_all_neighbours nn)"
  "no_connect (Color_1server.get_node_color nn)"
  "no_connect (Color_1server.get_status nn)"
  "no_connect (Color_1server.set_node_color nn c)"
  "no_connect (Color_1server.set_status nn)"
  "no_connect (Color_sync.set_node_color fuel nn c reps tmo)"
  "no_connect (Color_1server.check_boundary_node nn b a)"
  "no_connect (Color_1server.fetch_keys p)"
  by (auto simp: Color_1server.acquire_lock_def Color_sync.acquire_lock_def sync_same keeps
      Color_1server.get_all_neighbours_def Color_1server.get_node_color_def Color_1server.get_status_def
      Color_1server.set_node_color_def Color_1server.set_status_def Color_sync.set_node_color_def Let_def
      Color_1server.check_boundary_node_def Color_1server.fetch_keys_def
      intro!: no_connect_bindp split: option.split redisReply.split)

lemma keeps_read [keeps]:
  "no_connect (Color_1server.read_color_of_neighbors fuel nn a b vs k cols locks)"
  "no_connect (Color_sync.read_color_of_neighbors fuel nn a b vs cols locks' reps tmo j)"
proof -
  show "no_connect (Color_1server.read_color_of_neighbors fuel nn a b vs k cols locks)"
    by (induction vs arbitrary: k cols locks) (auto simp: Let_def keeps intro!: no_connect_bindp)
  show "no_connect (Color_sync.read_color_of_neighbors fuel nn a b vs cols locks' reps tmo j)"
    by (induction vs arbitrary: j cols locks') (auto simp: Let_def keeps sync_same intro!: no_connect_bindp)
qed

lemma keeps_release [keeps]:
  "no_connect (Color_1server.release_all locks)" "no_connect (Color_sync.release_all fuel locks reps tmo)"
  by (induction locks)
    (auto simp: Color_1server.release_lock_def Color_sync.release_lock_def keeps intro!: no_connect_bindp)

lemma keeps_process_node [keeps]:
  "no_connect (Color_1server.process_node fuel fresh nn a b)"
  "no_connect (Color_sync.process_node fuel fresh nn a b reps tmo)"
  unfolding Color_1server.process_node_def Color_sync.process_node_def sync_same
  by (auto simp: Let_def keeps sync_same intro!: no_connect_bindp)

lemma keeps_process_nodes [keeps]:
  "no_connect (Color_1server.process_nodes fuel fresh keys a b i)"
  "no_connect (Color_sync.process_nodes fuel fresh keys a b reps tmo i)"
proof -
  show "no_connect (Color_1server.process_nodes fuel fresh keys a b i)"
    by (induction "nat (b + 1 - i)" arbitrary: i)
      (subst Color_1server.process_nodes.simps, auto simp: keeps intro!: no_connect_bindp)+
  show "no_connect (Color_sync.process_nodes fuel fresh keys a b reps tmo i)"
    by (induction "nat (b + 1 - i)" arbitrary: i)
      (subst Color_sync.process_nodes.simps, auto simp: keeps intro!: no_connect_bindp)+
qed

text \<open>Such a program on a healthy connection to \<open>h\<close> does there what it does alone.\<close>

definition connected :: "world \<Rightarrow> string \<Rightarrow> keyspace \<Rightarrow> bool" where
  "connected w h db \<longleftrightarrow> conn w = Some h \<and> map_of (servers w) h = Some db \<and> answers w = None"

lemma run_returns:
  assumes "no_connect m" "connected w h db" "returns m db Q"
  shows "\<exists>x db' w'. run m w = (Inr x, w') \<and> Q x db' \<and> connected w' h db'
    \<and> (\<forall>h'. h' \<noteq> h \<longrightarrow> map_of (servers w') h' = map_of (servers w) h')"
proof -
  obtain x db' where m: "exec m db = (Inr x, db')" "Q x db'" using assms(3) by (auto simp: returns_def)
  have "fst (run m w) = Inr x \<and> map_of (servers (snd (run m w))) h = Some db'
      \<and> (\<forall>h'. h' \<noteq> h \<longrightarrow> map_of (servers (snd (run m w))) h' = map_of (servers w) h')
      \<and> conn (snd (run m w)) = Some h \<and> answers (snd (run m w)) = None"
    using run_exec [OF assms(1), of w h db] assms(2) m(1) by (simp add: connected_def)
  with m(2) show ?thesis
    by (intro exI [of _ x] exI [of _ db'] exI [of _ "snd (run m w)"]) (simp add: connected_def prod_eq_iff)
qed

section \<open>\<open>main\<close>\<close>

definition monitor_host :: string where
  "monitor_host = ''lhotse102''"

text \<open>The common shape of the two programs after the checks of the command line.\<close>

definition main_body :: "string \<Rightarrow> (string list \<Rightarrow> unit prog) \<Rightarrow> redis_cmd option \<Rightarrow> int prog" where
  "main_body ip nodes report =
     Connect ip (\<lambda>ok.
       if \<not> ok then Ret 1
       else
         bindp (Color_1server.fetch_keys ''node_*_neighbours'') (\<lambda>keys.
           if keys = None \<or> keys = Some [] then Ret 1
           else
             bindp (nodes (the keys)) (\<lambda>_.
             Connect monitor_host (\<lambda>_.
               bindp (case report of None \<Rightarrow> Ret () | Some c \<Rightarrow> Cmd c (\<lambda>_. Ret ())) (\<lambda>_. Ret 0)))))"

lemma run_report:
  assumes "connected w ip db" "ip \<noteq> monitor_host"
  shows "\<exists>w'. run (Connect monitor_host (\<lambda>_.
      bindp (case report of None \<Rightarrow> Ret () | Some c \<Rightarrow> Cmd c (\<lambda>_. Ret ())) (\<lambda>_. Ret 0))) w = (Inr (0 :: int), w')
    \<and> map_of (servers w') ip = Some db
    \<and> map_of (servers w') monitor_host = map_option
        (\<lambda>m. case report of None \<Rightarrow> m | Some c \<Rightarrow> snd (exec_cmd c m)) (map_of (servers w) monitor_host)"
proof (cases "map_of (servers w) monitor_host")
  case None
  then have "monitor_host \<notin> set (map fst (servers w))" by (simp add: map_of_eq_None_iff)
  with None assms show ?thesis
    by (auto simp: redisConnect_def redisCommand_def connected_def Let_def split: option.split)
next
  case (Some m)
  then have "monitor_host \<in> set (map fst (servers w))"
    by (metis map_of_eq_None_iff option.distinct(1) set_map)
  with Some assms show ?thesis
    by (auto simp: redisConnect_def redisCommand_def connected_def Let_def split: option.split prod.split)
qed

lemma run_main_body:
  assumes "0 < n" "int n < INT_MAX" "lists_graph n db" "returns (nodes (node_keys n)) db (\<lambda>_. R)"
    and "\<And>keys. no_connect (nodes keys)"
    and "map_of (servers w) ip = Some db" "answers w = None" "ip \<noteq> monitor_host"
  shows "\<exists>w' db'. run (main_body ip nodes report) w = (Inr 0, w') \<and> map_of (servers w') ip = Some db' \<and> R db'
    \<and> map_of (servers w') monitor_host = map_option
        (\<lambda>m. case report of None \<Rightarrow> m | Some c \<Rightarrow> snd (exec_cmd c m)) (map_of (servers w) monitor_host)"
proof -
  have "ip \<in> set (map fst (servers w))"
    using assms(6) by (metis map_of_eq_None_iff option.distinct(1) set_map)
  then have con: "redisConnect ip w = (True, w\<lparr>conn := Some ip\<rparr>)" by (simp add: redisConnect_def)
  have w1: "connected (w\<lparr>conn := Some ip\<rparr>) ip db" using assms(6,7) by (simp add: connected_def)
  have "returns (Color_1server.fetch_keys ''node_*_neighbours'') db (\<lambda>r db'. r = Some (node_keys n) \<and> db' = db)"
    by (simp add: returns_fetch_keys [OF assms(3,2)])
  from run_returns [OF keeps_shared(10) w1 this]
  obtain w2 where fetch: "run (Color_1server.fetch_keys ''node_*_neighbours'') (w\<lparr>conn := Some ip\<rparr>) = (Inr (Some (node_keys n)), w2)"
      "connected w2 ip db" "\<forall>h'. h' \<noteq> ip \<longrightarrow> map_of (servers w2) h' = map_of (servers w) h'"
    by auto
  from run_returns [OF assms(5) fetch(2) assms(4)]
  obtain u w3 db3 where nodes: "run (nodes (node_keys n)) w2 = (Inr u, w3)" "R db3" "connected w3 ip db3"
      "\<forall>h'. h' \<noteq> ip \<longrightarrow> map_of (servers w3) h' = map_of (servers w2) h'"
    by blast
  let ?report = "Connect monitor_host (\<lambda>_.
      bindp (case report of None \<Rightarrow> Ret () | Some c \<Rightarrow> Cmd c (\<lambda>_. Ret ())) (\<lambda>_. Ret (0 :: int)))"
  have "node_keys n \<noteq> []" using assms(1) by simp
  then have "run (main_body ip nodes report) w = run ?report w3"
    unfolding main_body_def run.simps(3) [of ip] con
    using fetch(1) nodes(1) by (simp add: run_bindp del: run.simps)
  moreover have "map_of (servers w3) monitor_host = map_of (servers w) monitor_host"
    using nodes(4) fetch(3) assms(8) by metis
  ultimately show ?thesis using run_report [OF nodes(3) assms(8), of report] nodes(2) by auto
qed

lemma sync_main_body:
  assumes "length argv = 7" "atoi (argv ! 1) \<le> atoi (argv ! 2)"
  shows "Color_sync.color_main fuel fresh t argv =
    main_body (argv ! 3)
      (\<lambda>keys. Color_sync.process_nodes fuel fresh keys (atoi (argv ! 1)) (atoi (argv ! 2)) (Some (argv ! 6)) ''10000'' (atoi (argv ! 1)))
      (map_option (SET (snprintf 256 (argv ! 5 @ ''_status''))) t)"
  using assms
  by (cases t) (simp_all add: Color_sync.color_main_def main_body_def sync_same monitor_host_def
      Color_sync.set_status_to_monitor_def Let_def cong: if_cong)

lemma one_main_body:
  assumes "5 < length argv" "atoi (argv ! 1) \<le> atoi (argv ! 2)"
  shows "Color_1server.color_main fuel fresh argv =
    main_body (argv ! 3)
      (\<lambda>keys. Color_1server.process_nodes fuel fresh keys (atoi (argv ! 1)) (atoi (argv ! 2)) (atoi (argv ! 1)))
      (Some (SET (snprintf 256 (argv ! 5 @ ''_status'')) ''1''))"
  using assms
  by (simp add: Color_1server.color_main_def main_body_def monitor_host_def
      Color_1server.set_status_to_monitor_def Let_def cong: if_cong)

section \<open>Properties\<close>

lemma update_same: "map_of al k = Some v \<Longrightarrow> AList.update k v al = al"
  by (induction al) (auto split: if_splits)

lemma range_numbers:
  assumes "graph_ok n adj" "a \<le> b" "b < n"
  shows "0 < n" "int n < INT_MAX" "atoi (decimal a) = int a" "atoi (decimal b) = int b"
proof -
  have n: "n \<le> 10 ^ 9" using assms(1) unfolding graph_ok_def by blast
  then show "0 < n" "int n < INT_MAX" using assms(3) by (simp_all add: INT_MAX_def)
  have "node_num a" "node_num b" using n assms(2,3) by (simp_all add: node_num_def INT_MAX_def)
  then show "atoi (decimal a) = int a" "atoi (decimal b) = int b" by simp_all
qed

lemma edge_lists_graph: "lists_graph 2 edge_db"
proof -
  have "(\<exists>u < 2. m = decimal u) \<longleftrightarrow> m = decimal 0 \<or> m = decimal 1" for m
    by (auto simp: less_2_cases_iff)
  then show ?thesis by (simp add: lists_graph_def edge_db_def neighbours_key_alt)
qed

lemma edge_calm: "raised edge_db = {}"
  by (simp add: raised_def str_at_def edge_db_def)

definition edge_world :: world where
  "edge_world = \<lparr>servers = [(''graph'', edge_db)], conn = None, answers = None\<rparr>"

lemma sync_main_run:
  assumes "graph_ok n adj" "graph_db n adj db" "lists_graph n db" "raised db = {}"
    and "a \<le> b" "b < n" "atoi reps \<le> 0"
    and "map_of (servers w) ip = Some db" "answers w = None" "ip \<noteq> monitor_host"
  shows "\<exists>w' db'. run (Color_sync.color_main fuel fresh t [prog, decimal a, decimal b, ip, logf, host, reps]) w = (Inr 0, w')
    \<and> map_of (servers w') ip = Some db' \<and> range_done n adj (int a) (int b + 1) db db'"
proof -
  note num = range_numbers [OF assms(1,5,6)]
  let ?nodes = "\<lambda>keys. Color_sync.process_nodes fuel fresh keys (int a) (int b) (Some reps) ''10000'' (int a)"
  have "returns (?nodes (node_keys n)) db (\<lambda>_. range_done n adj (int a) (int b + 1) db)"
    by (rule lone_client.task_alone [OF sync_lone_contract [OF assms(7)] assms(1)]) (use assms in simp_all)
  from run_main_body [where nodes = ?nodes, OF num(1,2) assms(3) this _ assms(8-10)]
  show ?thesis using num(3,4) assms(5) by (simp add: sync_main_body keeps) blast
qed

text \<open>
  C11: started with the words \<open>first last ip log host replicas\<close> on a graph whose nodes are
  \<open>0..<n\<close>, with no replica required and no other client active, the program of
  \<open>sync/color.c\<close> ends with exit status 0; every node of its range then has its status set and
  a colour between 0 and its degree that differs from those of all its neighbours, the
  other nodes are as before, and no lock is left behind.
\<close>

theorem sync_main_colors:
  assumes "graph_ok n adj" "graph_db n adj db" "lists_graph n db" "raised db = {}"
    and "a \<le> b" "b < n" "atoi reps \<le> 0"
    and "map_of (servers w) ip = Some db" "answers w = None" "ip \<noteq> monitor_host"
  shows "\<exists>w' db'. run (Color_sync.color_main fuel fresh t [prog, decimal a, decimal b, ip, logf, host, reps]) w = (Inr 0, w')
    \<and> map_of (servers w') ip = Some db' \<and> range_done n adj (int a) (int b + 1) db db'"
  by (rule sync_main_run [OF assms])

theorem sync_main_colors_witness:
  "\<exists>w' db'. run (Color_sync.color_main 0 (\<lambda>_. zero_lock) (Some ''10:00:00'')
      [''color'', decimal 0, decimal 1, ''graph'', ''log'', ''host'', ''0'']) edge_world = (Inr 0, w')
    \<and> map_of (servers w') ''graph'' = Some db' \<and> range_done 2 edge_adj (int 0) (int 1 + 1) edge_db db'"
proof (rule sync_main_colors [OF edge_graph_ok edge_graph_db edge_lists_graph edge_calm])
  show "atoi ''0'' \<le> 0" by code_simp
qed (simp_all add: edge_world_def monitor_host_def)

lemma one_main_run:
  assumes "graph_ok n adj" "graph_db n adj db" "lists_graph n db" "raised db = {}"
    and "a \<le> b" "b < n" "harmless fresh"
    and "map_of (servers w) ip = Some db" "answers w = None" "ip \<noteq> monitor_host"
  shows "\<exists>w' db'. run (Color_1server.color_main fuel fresh [prog, decimal a, decimal b, ip, logf, host]) w = (Inr 0, w')
    \<and> map_of (servers w') ip = Some db' \<and> range_done n adj (int a) (int b + 1) db db'"
proof -
  note num = range_numbers [OF assms(1,5,6)]
  let ?nodes = "\<lambda>keys. Color_1server.process_nodes fuel fresh keys (int a) (int b) (int a)"
  have "returns (?nodes (node_keys n)) db (\<lambda>_. range_done n adj (int a) (int b + 1) db)"
    by (rule lone_client.task_alone [OF one_lone_contract [OF assms(7)] assms(1)]) (use assms in simp_all)
  from run_main_body [where nodes = ?nodes, OF num(1,2) assms(3) this _ assms(8-10)]
  show ?thesis using num(3,4) assms(5) by (simp add: one_main_body keeps) blast
qed



text \<open>
  C13: the program of \<open>sync/color.c\<close> gives up without changing any server when its command line is
  too short, its range is empty, its host cannot be reached or its server holds no adjacency
  set. It then exits with status 1, except with exactly four words, which the check
  \<open>argc < 5\<close> lets through: reading \<open>argv[6]\<close> then leaves the argument vector.
\<close>

theorem sync_main_refuses:
  assumes "answers w = None"
    and "length argv < 6 \<or> atoi (argv ! 1) > atoi (argv ! 2) \<or> (case map_of (servers w) (argv ! 3) of
       None \<Rightarrow> True | Some db \<Rightarrow> \<not> list_ex (\<lambda>k. stringmatchlen ''node_*_neighbours'' k False) (map fst db))"
  shows "fst (run (Color_sync.color_main fuel fresh t argv) w) = (if length argv = 5 then Inl OutOfBounds else Inr 1)
    \<and> servers (snd (run (Color_sync.color_main fuel fresh t argv) w)) = servers w"
proof (cases "length argv < 6 \<or> atoi (argv ! 1) > atoi (argv ! 2)")
  case True
  then show ?thesis by (auto simp: Color_sync.color_main_def)
next
  case False
  show ?thesis
  proof (cases "map_of (servers w) (argv ! 3)")
    case None
    then have "argv ! 3 \<notin> set (map fst (servers w))" by (simp add: map_of_eq_None_iff)
    with False show ?thesis by (simp add: Color_sync.color_main_def redisConnect_def Let_def)
  next
    case (Some db)
    then have "argv ! 3 \<in> set (map fst (servers w))"
      by (metis map_of_eq_None_iff option.distinct(1) set_map)
    moreover have "filter (\<lambda>k. stringmatchlen ''node_*_neighbours'' k False) (map fst db) = []"
      using assms(2) False Some by (simp add: list_ex_iff filter_empty_conv)
    ultimately show ?thesis
      using False Some assms(1) by (simp add: Color_sync.color_main_def redisConnect_def sync_same
          Color_1server.fetch_keys_def run_bindp redisCommand_def update_same lift_result_def Let_def
          Color_1server.sort_keys_def)
  qed
qed

theorem sync_main_refuses_witness:
  "fst (run (Color_sync.color_main 0 (\<lambda>_. zero_lock) None [''color'', ''0'', ''1'', ''graph'', ''log'']) edge_world) = Inl OutOfBounds
   \<and> fst (run (Color_sync.color_main 0 (\<lambda>_. zero_lock) None [''color'', ''0'', ''1'', ''other'', ''log'', ''host'', ''0'']) edge_world) = Inr 1"
  using sync_main_refuses [of edge_world "[''color'', ''0'', ''1'', ''graph'', ''log'']" 0 "\<lambda>_. zero_lock" None]
    sync_main_refuses [of edge_world "[''color'', ''0'', ''1'', ''other'', ''log'', ''host'', ''0'']" 0 "\<lambda>_. zero_lock" None]
  by (simp add: edge_world_def)



end
