(* ===== verification/Memory.thy ===== *)
theory Memory
  imports Prelude "HOL-Library.Word"
begin

text \<open>
  Byte memory of the C data structures: sequencing of steps that may crash, blocks of bytes
  with bounds-checked reads, writes and \<open>memmove\<close>, and the little-endian two's complement
  representation of integers that \<open>memcpy\<close> and pointer casts expose.
\<close>

section \<open>Steps that may crash\<close>

type_synonym 'a res = "crash + 'a"

fun bindr :: "'a res \<Rightarrow> ('a \<Rightarrow> 'b res) \<Rightarrow> 'b res" where
  "bindr (Inl e) f = Inl e"
| "bindr (Inr x) f = f x"

lemma bindr_Inr [simp]: "bindr m Inr = m"
  by (cases m) auto

lemma bindr_assoc: "bindr (bindr m f) g = bindr m (\<lambda>x. bindr (f x) g)"
  by (cases m) auto

lemma bindr_eq_Inr: "bindr m f = Inr y \<longleftrightarrow> (\<exists>x. m = Inr x \<and> f x = Inr y)"
  by (cases m) auto

section \<open>Unsigned arithmetic\<close>

text \<open>\<open>uint32_t\<close> and \<open>uint64_t\<close> arithmetic wraps around.\<close>

definition u32 :: "int \<Rightarrow> nat" where
  "u32 x = nat (x mod 2 ^ 32)"

definition u64 :: "int \<Rightarrow> nat" where
  "u64 x = nat (x mod 2 ^ 64)"

lemma u32_id [simp]: "n < 2 ^ 32 \<Longrightarrow> u32 (int n) = n"
  by (simp add: u32_def flip: of_nat_mod)

lemma u64_id [simp]: "n < 2 ^ 64 \<Longrightarrow> u64 (int n) = n"
  by (simp add: u64_def flip: of_nat_mod)

lemma u32_Suc: "Suc n < 2 ^ 32 \<Longrightarrow> u32 (int n + 1) = Suc n"
  using u32_id [of "Suc n"] by (simp add: add.commute)

lemma u32_pred: "0 < n \<Longrightarrow> n < 2 ^ 32 \<Longrightarrow> u32 (int n - 1) = n - 1"
  using u32_id [of "n - 1"] by (simp add: of_nat_diff)

lemma u32_bound [simp]: "u32 x < 2 ^ 32"
  by (simp add: u32_def nat_less_iff)

section \<open>Blocks of bytes\<close>

type_synonym byte = "8 word"

definition peek :: "byte list \<Rightarrow> int \<Rightarrow> nat \<Rightarrow> byte list res" where
  "peek m i k =
     (if 0 \<le> i \<and> nat i + k \<le> length m then Inr (take k (drop (nat i) m)) else Inl OutOfBounds)"

definition poke :: "byte list \<Rightarrow> int \<Rightarrow> byte list \<Rightarrow> byte list res" where
  "poke m i v =
     (if 0 \<le> i \<and> nat i + length v \<le> length m
      then Inr (take (nat i) m @ v @ drop (nat i + length v) m) else Inl OutOfBounds)"

definition memmove :: "byte list \<Rightarrow> int \<Rightarrow> int \<Rightarrow> nat \<Rightarrow> byte list res" where
  "memmove m dst src n = bindr (peek m src n) (poke m dst)"

definition zrealloc :: "(nat \<Rightarrow> byte) \<Rightarrow> byte list \<Rightarrow> nat \<Rightarrow> byte list" where
  "zrealloc junk m n = take n m @ map junk [length m..<n]"

lemma length_zrealloc [simp]: "length (zrealloc junk m n) = n"
  by (simp add: zrealloc_def)

lemma take_zrealloc: "k \<le> length m \<Longrightarrow> k \<le> n \<Longrightarrow> take k (zrealloc junk m n) = take k m"
  by (simp add: zrealloc_def min_def)

lemma peek_length: "peek m i k = Inr v \<Longrightarrow> length v = k"
  by (auto simp: peek_def split: if_splits)

lemma poke_length: "poke m i v = Inr m' \<Longrightarrow> length m' = length m"
  by (auto simp: poke_def split: if_splits)

section \<open>Little-endian integers\<close>

primrec to_le :: "nat \<Rightarrow> int \<Rightarrow> byte list" where
  "to_le 0 x = []"
| "to_le (Suc k) x = word_of_int x # to_le k (x div 256)"

primrec le_nat :: "byte list \<Rightarrow> nat" where
  "le_nat [] = 0"
| "le_nat (b # bs) = unat b + 256 * le_nat bs"

definition le_int :: "byte list \<Rightarrow> int" where
  "le_int bs =
     (let n = int (le_nat bs); w = 8 * length bs
      in if 2 * n \<ge> 2 ^ w then n - 2 ^ w else n)"

lemma length_to_le [simp]: "length (to_le k x) = k"
  by (induction k arbitrary: x) auto

lemma le_nat_bound: "le_nat bs < 256 ^ length bs"
proof (induction bs)
  case (Cons b bs)
  have "unat b < 256" using unsigned_less [of b] by simp
  with Cons show ?case by simp
qed simp

lemma le_nat_to_le: "int (le_nat (to_le k x)) = x mod 256 ^ k"
proof (induction k arbitrary: x)
  case (Suc k)
  have "int (unat (word_of_int x :: byte)) = x mod 256" by (simp add: unat_eq_nat_uint uint_word_of_int)
  then show ?case using Suc [of "x div 256"] by (simp add: mod_mult2_eq' zmod_zmult2_eq)
qed simp

definition fits :: "nat \<Rightarrow> int \<Rightarrow> bool" where
  "fits k x \<longleftrightarrow> - (2 ^ (8 * k)) \<le> 2 * x \<and> 2 * x < 2 ^ (8 * k)"

lemma pow256: "(256 :: int) ^ k = 2 ^ (8 * k)"
  by (simp add: power_mult)

lemma le_int_to_le [simp]:
  assumes "fits k x"
  shows "le_int (to_le k x) = x"
proof (cases "0 \<le> x")
  case True
  then have "x mod 2 ^ (8 * k) = x" using assms by (simp add: fits_def)
  then show ?thesis using assms by (simp add: le_int_def le_nat_to_le pow256 Let_def fits_def)
next
  case False
  then have "x mod 2 ^ (8 * k) = x + 2 ^ (8 * k)"
    using assms mod_pos_pos_trivial [of "x + 2 ^ (8 * k)" "2 ^ (8 * k)"] by (simp add: fits_def)
  then show ?thesis using assms False by (simp add: le_int_def le_nat_to_le pow256 Let_def fits_def)
qed

lemma fits_signed: "0 \<le> n \<Longrightarrow> n < m \<Longrightarrow> - m \<le> 2 * (if 2 * n \<ge> m then n - m else n)
    \<and> 2 * (if 2 * n \<ge> m then n - m else n) < (m :: int)"
  by simp

lemma fits_le_int: "fits (length bs) (le_int bs)"
proof -
  have "int (le_nat bs) < 2 ^ (8 * length bs)"
    using le_nat_bound [of bs] by (metis of_nat_less_iff of_nat_power of_nat_numeral pow256)
  then show ?thesis unfolding fits_def le_int_def Let_def by (intro fits_signed) simp_all
qed

lemma fits_mono: "fits k x \<Longrightarrow> k \<le> l \<Longrightarrow> fits l x"
proof -
  assume a: "fits k x" "k \<le> l"
  then have "(2 :: int) ^ (8 * k) \<le> 2 ^ (8 * l)" by (intro power_increasing) auto
  with a show "fits l x" unfolding fits_def by linarith
qed

end
