(* ===== verification/Graph_load.thy ===== *)
theory Graph_load
  imports Main_program Memory
begin

text \<open>
  The two ends of an experiment. \<open>addGraphCommand\<close> (\<open>custom.c\<close>, added to the server) reads a file of
  edges and stores the neighbour sets and initial colours the colouring clients work on;
  \<open>is_coloring_valid\<close> (\<open>check_color.py\<close>) counts the errors in the colours they leave behind.
  \<open>redis_writer.c\<close> stores one value and reads it back.

  The keyspace is that of theory \<open>Client\<close>. The order in which a set lists its members depends on
  its encoding; it is the parameter \<open>order\<close>, a permutation applied when a member is added. The
  contents of files are the parameter \<open>fopen\<close>. Printing to the terminal and keyspace
  notifications have no state here.
\<close>

section \<open>Loading a graph\<close>

record gstate =
  gdb :: keyspace
  greplies :: "redisReply list"
  gdirty :: nat

definition greply :: "redisReply \<Rightarrow> gstate \<Rightarrow> gstate" where
  "greply r st = st\<lparr>greplies := greplies st @ [r]\<rparr>"

definition helloWorldCommand :: "gstate \<Rightarrow> gstate" where
  "helloWorldCommand st = greply (RString ''hello'') st"

text \<open>\<open>dbAdd\<close> asserts that the key is new.\<close>

definition dbAdd :: "string \<Rightarrow> obj \<Rightarrow> keyspace \<Rightarrow> keyspace res" where
  "dbAdd k v db = (case map_of db k of None \<Rightarrow> Inr (AList.update k v db) | Some _ \<Rightarrow> Inl AssertFailed)"

text \<open>
  A key that was looked up before: a new empty set, the set that is there, or an error reply.
  \<open>addReplyError\<close> puts \<open>ERR\<close> before a text that does not start with a dash.
\<close>

definition ensure_set :: "string \<Rightarrow> obj option \<Rightarrow> gstate \<Rightarrow> (bool \<times> gstate) res" where
  "ensure_set key found st =
     (case found of
        None \<Rightarrow> bindr (dbAdd key (SetObj []) (gdb st)) (\<lambda>db. Inr (True, st\<lparr>gdb := db\<rparr>))
      | Some (SetObj xs) \<Rightarrow> Inr (True, st)
      | Some _ \<Rightarrow>
          Inr (False, greply (RError ''ERR WRONGTYPE Operation against a key holding the wrong kind of value'') st))"

definition setTypeAdd :: "(string list \<Rightarrow> string list) \<Rightarrow> string \<Rightarrow> string list \<Rightarrow> bool \<times> string list" where
  "setTypeAdd order m xs = (if m \<in> set xs then (False, xs) else (True, order (m # xs)))"

definition add_member :: "(string list \<Rightarrow> string list) \<Rightarrow> string \<Rightarrow> string \<Rightarrow> gstate \<Rightarrow> gstate" where
  "add_member order key m st =
     (case map_of (gdb st) key of
        Some (SetObj xs) \<Rightarrow>
          let (added, ys) = setTypeAdd order m xs in
          if added then st\<lparr>gdb := AList.update key (SetObj ys) (gdb st), gdirty := gdirty st + 1\<rparr> else st
      | _ \<Rightarrow> st)"

definition nbrs_name :: "int \<Rightarrow> string" where
  "nbrs_name i = snprintf 32 (''node_'' @ fmt_d i @ ''_neighbours'')"

definition color_name :: "int \<Rightarrow> string" where
  "color_name i = snprintf 32 (''node_'' @ fmt_d i @ ''_color'')"

definition process_edge :: "(string list \<Rightarrow> string list) \<Rightarrow> int \<Rightarrow> int \<Rightarrow> gstate \<Rightarrow> gstate res" where
  "process_edge order node1 node2 st =
     (let nodeKey1 = nbrs_name node1; nodeKey2 = nbrs_name node2;
          set1 = map_of (gdb st) nodeKey1; set2 = map_of (gdb st) nodeKey2
      in bindr (ensure_set nodeKey1 set1 st) (\<lambda>(ok, st).
           if \<not> ok then Inr st
           else bindr (ensure_set nodeKey2 set2 st) (\<lambda>(ok, st).
             if \<not> ok then Inr st
             else
               let st = add_member order nodeKey1 (fmt_d node2) st;
                   st = add_member order nodeKey2 (fmt_d node1) st;
                   st = st\<lparr>gdb := AList.update (color_name node1) (StrObj ''0'') (gdb st)\<rparr>
               in Inr (st\<lparr>gdb := AList.update (color_name node2) (StrObj ''0'') (gdb st)\<rparr>))))"

fun process_lines :: "(string list \<Rightarrow> string list) \<Rightarrow> string list \<Rightarrow> gstate \<Rightarrow> gstate res" where
  "process_lines order [] st = Inr st"
| "process_lines order (line # ls) st =
     (case sscanf_d_d line of
        None \<Rightarrow> process_lines order ls st
      | Some (node1, node2) \<Rightarrow> bindr (process_edge order node1 node2 st) (process_lines order ls))"

definition addGraphCommand ::
    "(string list \<Rightarrow> string list) \<Rightarrow> (string \<Rightarrow> string option) \<Rightarrow> string list \<Rightarrow> gstate \<Rightarrow> gstate res" where
  "addGraphCommand order fopen argv st =
     (if length argv < 2 then Inr (greply (RError ''ERR Not enough arguments for add_graph command'') st)
      else case fopen (cstr (argv ! 1)) of
        None \<Rightarrow> Inr (greply (RError ''ERR Could not open file'') st)
      | Some contents \<Rightarrow>
          bindr (process_lines order (fgets_all 256 contents) st) (\<lambda>st. Inr (greply (RStatus ''OK'') st)))"

section \<open>Checking the colours\<close>

text \<open>\<open>s.split("_")\<close>; a Python exception ends the script.\<close>

fun py_split :: "char \<Rightarrow> string \<Rightarrow> string \<Rightarrow> string list" where
  "py_split sep cur [] = [cur]"
| "py_split sep cur (c # s) = (if c = sep then cur # py_split sep [] s else py_split sep (cur @ [c]) s)"

definition py_get :: "keyspace \<Rightarrow> string \<Rightarrow> string option res" where
  "py_get db k =
     (case fst (exec_cmd (GET k) db) of RString s \<Rightarrow> Inr (Some s) | RNil \<Rightarrow> Inr None | _ \<Rightarrow> Inl ExitFailure)"

definition py_smembers :: "keyspace \<Rightarrow> string \<Rightarrow> string list res" where
  "py_smembers db k =
     (case map_of db k of None \<Rightarrow> Inr [] | Some (SetObj xs) \<Rightarrow> Inr xs | Some _ \<Rightarrow> Inl ExitFailure)"

fun check_neighbors :: "keyspace \<Rightarrow> string option \<Rightarrow> string list \<Rightarrow> nat res" where
  "check_neighbors db node_color [] = Inr 0"
| "check_neighbors db node_color (v # vs) =
     bindr (py_get db (''node_'' @ v @ ''_color'')) (\<lambda>neighbor_color.
     bindr (check_neighbors db node_color vs) (\<lambda>errors.
       Inr ((if node_color = neighbor_color then 1 else 0) + errors)))"

definition check_node :: "keyspace \<Rightarrow> string \<Rightarrow> nat res" where
  "check_node db key =
     (let pieces = py_split (CHR ''_'') [] key in
      if length pieces < 2 then Inl ExitFailure
      else
        bindr (py_get db (''node_'' @ pieces ! 1 @ ''_color'')) (\<lambda>node_color.
        bindr (py_smembers db key) (check_neighbors db node_color)))"

fun check_nodes :: "keyspace \<Rightarrow> string list \<Rightarrow> nat res" where
  "check_nodes db [] = Inr 0"
| "check_nodes db (k # ks) = bindr (check_node db k) (\<lambda>e. bindr (check_nodes db ks) (\<lambda>es. Inr (e + es)))"

definition is_coloring_valid :: "keyspace \<Rightarrow> nat res" where
  "is_coloring_valid db = check_nodes db (filter (\<lambda>k. stringmatchlen ''node_*_neighbours'' k False) (map fst db))"

section \<open>Writing one value\<close>

definition writer_main :: "string list \<Rightarrow> int prog" where
  "writer_main argv =
     (if length argv < 4 then Ret 1
      else Connect (argv ! 1) (\<lambda>ok.
        if \<not> ok then Ret 1
        else Cmd (SET (argv ! 2) (argv ! 3)) (\<lambda>reply.
          case reply of
            None \<Rightarrow> Ret 1
          | Some _ \<Rightarrow> Cmd (GET (argv ! 2)) (\<lambda>reply. case reply of None \<Rightarrow> Crash NullDeref | Some _ \<Rightarrow> Ret 0))))"

section \<open>The keyspace a graph is loaded into\<close>

lemma printed_names [simp]:
  assumes "node_num u"
  shows "nbrs_name (int u) = neighbours_key u" "color_name (int u) = color_key u"
  using length_node_num [OF assms] by (simp_all add: nbrs_name_def color_name_def fmt_d_def key_defs)

definition permutes_members :: "(string list \<Rightarrow> string list) \<Rightarrow> bool" where
  "permutes_members order \<longleftrightarrow> (\<forall>xs. mset (order xs) = mset xs)"

lemma mset_map_decimal:
  assumes "mset ys = mset (map decimal xs)"
  shows "\<exists>zs. ys = map decimal zs \<and> mset zs = mset xs"
proof -
  have "set ys = decimal ` set xs" using mset_eq_setD [OF assms] by simp
  then have "\<exists>zs. ys = map decimal zs" unfolding ex_map_conv by auto
  then obtain zs where zs: "ys = map decimal zs" by blast
  have "inj decimal" by (simp add: inj_def)
  moreover have "image_mset decimal (mset zs) = image_mset decimal (mset xs)" using assms zs by simp
  ultimately have "mset zs = mset xs" by (blast dest: multiset.inj_map injD)
  then show ?thesis using zs by blast
qed

text \<open>The neighbours of a node in a list of edges, and the nodes that occur.\<close>

definition nbrs :: "(nat \<times> nat) list \<Rightarrow> nat \<Rightarrow> nat set" where
  "nbrs es u = {v. (u, v) \<in> set es \<or> (v, u) \<in> set es}"

definition nodes_of :: "(nat \<times> nat) list \<Rightarrow> nat set" where
  "nodes_of es = fst ` set es \<union> snd ` set es"

text \<open>\<open>db\<close> holds exactly the graph of the edges \<open>es\<close>, with neighbour lists \<open>adj\<close> and all colours 0.\<close>

definition holds_graph :: "(nat \<times> nat) list \<Rightarrow> (nat \<Rightarrow> nat list) \<Rightarrow> keyspace \<Rightarrow> bool" where
  "holds_graph es adj db \<longleftrightarrow>
     (\<forall>u. distinct (adj u) \<and> set (adj u) = nbrs es u) \<and>
     (\<forall>u \<in> nodes_of es. map_of db (neighbours_key u) = Some (SetObj (map decimal (adj u))) \<and>
        map_of db (color_key u) = Some (StrObj ''0'')) \<and>
     (\<forall>k. map_of db k \<noteq> None \<longrightarrow> (\<exists>u \<in> nodes_of es. k = neighbours_key u \<or> k = color_key u)) \<and>
     distinct (map fst db)"

lemma holds_graph_new: "holds_graph es adj db \<Longrightarrow> u \<notin> nodes_of es \<Longrightarrow> map_of db (neighbours_key u) = None"
proof (rule ccontr)
  assume a: "holds_graph es adj db" "u \<notin> nodes_of es" "map_of db (neighbours_key u) \<noteq> None"
  then obtain v where "v \<in> nodes_of es" "neighbours_key u = neighbours_key v \<or> neighbours_key u = color_key v"
    unfolding holds_graph_def by blast
  then show False using a(2) by simp
qed

lemma ensure_set_graph:
  assumes "map_of (gdb st) (neighbours_key u) = found" "found = None \<or> found = Some (SetObj xs)"
  shows "ensure_set (neighbours_key u) found st =
    Inr (True, if found = None then st\<lparr>gdb := AList.update (neighbours_key u) (SetObj []) (gdb st)\<rparr> else st)"
  using assms by (auto simp: ensure_set_def dbAdd_def)

text \<open>The neighbour list of \<open>u\<close> after \<open>v\<close> was added.\<close>

lemma setTypeAdd_decimal:
  assumes "permutes_members order" "distinct xs"
  shows "\<exists>zs. snd (setTypeAdd order (decimal v) (map decimal xs)) = map decimal zs \<and>
    distinct zs \<and> set zs = insert v (set xs)"
proof (cases "v \<in> set xs")
  case True
  then show ?thesis using assms(2) by (auto simp: setTypeAdd_def insert_absorb)
next
  case False
  have "mset (order (map decimal (v # xs))) = mset (map decimal (v # xs))"
    using assms(1) unfolding permutes_members_def by blast
  then obtain zs where zs: "order (map decimal (v # xs)) = map decimal zs" "mset zs = mset (v # xs)"
    using mset_map_decimal by blast
  then have "distinct zs" "set zs = insert v (set xs)"
    using False assms(2) mset_eq_setD [OF zs(2)] mset_eq_imp_distinct_iff [OF zs(2)] by auto
  then show ?thesis using False zs(1) by (auto simp: setTypeAdd_def)
qed

lemma add_member_db:
  assumes "map_of (gdb st) key = Some (SetObj xs)"
  shows "map_of (gdb (add_member order key m st)) = (map_of (gdb st))(key \<mapsto> SetObj (snd (setTypeAdd order m xs)))"
    "distinct (map fst (gdb st)) \<Longrightarrow> distinct (map fst (gdb (add_member order key m st)))"
    "greplies (add_member order key m st) = greplies st"
  using assms by (auto simp: add_member_def setTypeAdd_def distinct_update split: if_splits)

lemma nodes_of_snoc: "nodes_of (es @ [(a, b)]) = nodes_of es \<union> {a, b}"
  by (auto simp: nodes_of_def)

lemma nbrs_snoc:
  "nbrs (es @ [(a, b)]) u = nbrs es u \<union> (if u = a then {b} else {}) \<union> (if u = b then {a} else {})"
  by (auto simp: nbrs_def)

lemma holds_graph_edge:
  assumes "holds_graph es adj db" "a \<noteq> b" "distinct za" "set za = insert b (set (adj a))"
    "distinct zb" "set zb = insert a (set (adj b))" "distinct (map fst db')"
    "map_of db' = (map_of db)(neighbours_key a \<mapsto> SetObj (map decimal za),
      neighbours_key b \<mapsto> SetObj (map decimal zb), color_key a \<mapsto> StrObj ''0'', color_key b \<mapsto> StrObj ''0'')"
  shows "holds_graph (es @ [(a, b)]) (adj(a := za, b := zb)) db'"
  unfolding holds_graph_def nodes_of_snoc nbrs_snoc
proof (intro conjI allI ballI impI)
  let ?adj = "adj(a := za, b := zb)"
  have adj: "distinct (adj u)" "set (adj u) = nbrs es u" for u using assms(1) unfolding holds_graph_def by blast+
  fix u
  show "distinct (?adj u)" using adj(1) assms(3,5) by simp
  show "set (?adj u) = nbrs es u \<union> (if u = a then {b} else {}) \<union> (if u = b then {a} else {})"
    using adj(2) assms(2,4,6) by auto
next
  fix u assume u: "u \<in> nodes_of es \<union> {a, b}"
  have "u \<in> nodes_of es \<Longrightarrow> map_of db (color_key u) = Some (StrObj ''0'')"
    "u \<in> nodes_of es \<Longrightarrow> map_of db (neighbours_key u) = Some (SetObj (map decimal (adj u)))"
    using assms(1) unfolding holds_graph_def by blast+
  then show "map_of db' (color_key u) = Some (StrObj ''0'')"
    "map_of db' (neighbours_key u) = Some (SetObj (map decimal ((adj(a := za, b := zb)) u)))"
    using u assms(2) by (auto simp: assms(8))
next
  fix k assume "map_of db' k \<noteq> None"
  then have "k \<in> {neighbours_key a, neighbours_key b, color_key a, color_key b} \<or> map_of db k \<noteq> None"
    by (auto simp: assms(8) split: if_splits)
  moreover have "map_of db k \<noteq> None \<Longrightarrow> \<exists>u \<in> nodes_of es. k = neighbours_key u \<or> k = color_key u"
    using assms(1) unfolding holds_graph_def by blast
  ultimately show "\<exists>u \<in> nodes_of es \<union> {a, b}. k = neighbours_key u \<or> k = color_key u" by auto
qed (rule assms(7))

text \<open>One edge: the neighbour lists of its ends grow, everything else stays.\<close>

lemma process_edge_graph:
  assumes "permutes_members order" "holds_graph es adj (gdb st)" "a \<noteq> b" "node_num a" "node_num b"
  shows "\<exists>st' adj'. process_edge order (int a) (int b) st = Inr st' \<and> greplies st' = greplies st \<and>
    holds_graph (es @ [(a, b)]) adj' (gdb st')"
proof -
  define db0 where "db0 = gdb st"
  note h = assms(2) [folded db0_def]
  have adj: "distinct (adj u)" "set (adj u) = nbrs es u" for u using h unfolding holds_graph_def by blast+
  have at: "map_of db0 (neighbours_key u) = (if u \<in> nodes_of es then Some (SetObj (map decimal (adj u))) else None)" for u
    using h holds_graph_new [OF h, of u] unfolding holds_graph_def by auto
  have none: "u \<notin> nodes_of es \<Longrightarrow> adj u = []" for u
  proof -
    assume "u \<notin> nodes_of es"
    then have "nbrs es u = {}" by (force simp: nbrs_def nodes_of_def)
    then show "adj u = []" using adj(2) [of u] by simp
  qed
  define st1 where "st1 = (if a \<in> nodes_of es then st else st\<lparr>gdb := AList.update (neighbours_key a) (SetObj []) (gdb st)\<rparr>)"
  define st2 where "st2 = (if b \<in> nodes_of es then st1 else st1\<lparr>gdb := AList.update (neighbours_key b) (SetObj []) (gdb st1)\<rparr>)"
  have m2: "map_of (gdb st2) = (map_of db0)(neighbours_key a \<mapsto> SetObj (map decimal (adj a)), neighbours_key b \<mapsto> SetObj (map decimal (adj b)))"
    using at [of a] at [of b] none assms(3) by (auto simp: st2_def st1_def db0_def fun_eq_iff)
  have d2: "distinct (map fst (gdb st2))" "greplies st2 = greplies st"
    using h by (auto simp: st2_def st1_def db0_def holds_graph_def intro!: distinct_update)
  obtain za where za: "snd (setTypeAdd order (decimal b) (map decimal (adj a))) = map decimal za" "distinct za" "set za = insert b (set (adj a))"
    using setTypeAdd_decimal [OF assms(1) adj(1)] by blast
  obtain zb where zb: "snd (setTypeAdd order (decimal a) (map decimal (adj b))) = map decimal zb" "distinct zb" "set zb = insert a (set (adj b))"
    using setTypeAdd_decimal [OF assms(1) adj(1)] by blast
  define st3 where "st3 = add_member order (neighbours_key a) (decimal b) st2"
  define st4 where "st4 = add_member order (neighbours_key b) (decimal a) st3"
  note i3 = add_member_db [of st2 "neighbours_key a" "map decimal (adj a)" order "decimal b", folded st3_def]
  have m3: "map_of (gdb st3) = (map_of (gdb st2))(neighbours_key a \<mapsto> SetObj (map decimal za))"
    using i3(1) m2 assms(3) za(1) by simp
  note i4 = add_member_db [of st3 "neighbours_key b" "map decimal (adj b)" order "decimal a", folded st4_def]
  have m4: "map_of (gdb st4) = (map_of (gdb st3))(neighbours_key b \<mapsto> SetObj (map decimal zb))"
    using i4(1) m3 m2 assms(3) zb(1) by simp
  have d4: "distinct (map fst (gdb st4))" "greplies st4 = greplies st"
    using i3(2,3) i4(2,3) d2 m2 m3 assms(3) by simp_all
  define st5 where "st5 = st4\<lparr>gdb := AList.update (color_key b) (StrObj ''0'') (AList.update (color_key a) (StrObj ''0'') (gdb st4))\<rparr>"
  define adj' where "adj' = adj(a := za, b := zb)"
  have e: "process_edge order (int a) (int b) st = Inr st5"
  proof -
    have "ensure_set (neighbours_key a) (map_of (gdb st) (neighbours_key a)) st = Inr (True, st1)"
      using ensure_set_graph [of st a _ "map decimal (adj a)"] at [of a] by (simp add: st1_def db0_def)
    moreover have "ensure_set (neighbours_key b) (map_of (gdb st) (neighbours_key b)) st1 = Inr (True, st2)"
      using ensure_set_graph [of st1 b _ "map decimal (adj b)"] at [of b] assms(3)
      by (auto simp: st1_def st2_def db0_def)
    moreover have "fmt_d (int a) = decimal a" "fmt_d (int b) = decimal b" by (simp_all add: fmt_d_def)
    ultimately show ?thesis
      using assms(4,5) by (simp add: process_edge_def Let_def st3_def [symmetric] st4_def [symmetric] st5_def)
  qed
  have m5: "map_of (gdb st5) = (map_of db0)(neighbours_key a \<mapsto> SetObj (map decimal za),
      neighbours_key b \<mapsto> SetObj (map decimal zb), color_key a \<mapsto> StrObj ''0'', color_key b \<mapsto> StrObj ''0'')"
    using assms(3) by (simp add: st5_def m4 m3 m2 fun_upd_twist)
  have "distinct (map fst (gdb st5))" using d4(1) by (simp add: st5_def distinct_update)
  then have "holds_graph (es @ [(a, b)]) adj' (gdb st5)"
    unfolding adj'_def by (rule holds_graph_edge [OF h assms(3) za(2,3) zb(2,3) _ m5])
  then show ?thesis using e d4 by (auto simp: st5_def)
qed

text \<open>A file with one edge per line.\<close>

definition edge_line :: "nat \<times> nat \<Rightarrow> string" where
  "edge_line e = decimal (fst e) @ '','' @ decimal (snd e) @ [newline]"

definition graph_text :: "(nat \<times> nat) list \<Rightarrow> string" where
  "graph_text es = concat (map edge_line es)"

definition edges_ok :: "nat \<Rightarrow> (nat \<times> nat) list \<Rightarrow> bool" where
  "edges_ok n es \<longleftrightarrow> n \<le> 10 ^ 9 \<and> list_all (\<lambda>(u, v). u \<noteq> v \<and> u < n \<and> v < n) es"

lemma fgets_line:
  assumes "newline \<notin> set l" "length l < 255"
  shows "fgets_all 256 (l @ newline # r) = (l @ [newline]) # fgets_all 256 r"
proof -
  have "takeWhile (\<lambda>c. c \<noteq> newline) (l @ newline # r) = l"
    using assms(1) by (subst takeWhile_append2) auto
  then have "fgets 256 (l @ newline # r) = (l @ [newline], r)"
    using assms(2) by (simp add: fgets_def Let_def)
  then show ?thesis by (subst fgets_all.simps) simp
qed

lemma newline_not_decimal: "newline \<notin> set (decimal n)"
  using decimal_digits [of n] by (auto simp: newline_def is_digit_def)

lemma fgets_graph_text:
  "list_all (\<lambda>(u, v). node_num u \<and> node_num v) es \<Longrightarrow>
     fgets_all 256 (graph_text es @ r) = map edge_line es @ fgets_all 256 r"
proof (induction es)
  case (Cons e es)
  obtain u v where e: "e = (u, v)" by (cases e)
  have "length (decimal u @ '','' @ decimal v) < 255"
    using Cons.prems length_node_num [of u] length_node_num [of v] by (simp add: e)
  moreover have "newline \<notin> set (decimal u @ '','' @ decimal v)" using newline_not_decimal by (simp add: newline_def)
  ultimately show ?case
    using Cons fgets_line [of "decimal u @ '','' @ decimal v" "graph_text es @ r"]
    by (simp add: graph_text_def edge_line_def e)
qed (simp add: graph_text_def)

lemma edges_ok_nums: "edges_ok n es \<Longrightarrow> list_all (\<lambda>(u, v). node_num u \<and> node_num v) es"
  by (auto simp: edges_ok_def node_num_def INT_MAX_def list_all_iff)

lemma fgets_all_Nil [simp]: "fgets_all 256 [] = []"
  by (simp add: fgets_all.simps)

lemma sscanf_edge_line: "node_num u \<Longrightarrow> node_num v \<Longrightarrow> sscanf_d_d (edge_line (u, v)) = Some (int u, int v)"
  unfolding edge_line_def fst_conv snd_conv
  by (rule sscanf_d_d_printed) (auto simp: node_num_def newline_def is_digit_def)

lemma process_lines_append:
  "process_lines order (ls @ ls') st = bindr (process_lines order ls st) (process_lines order ls')"
proof (induction ls arbitrary: st)
  case (Cons l ls)
  then have "process_lines order (ls @ ls') = (\<lambda>st. bindr (process_lines order ls st) (process_lines order ls'))" by blast
  then show ?case by (simp add: bindr_assoc split: option.split prod.split)
qed simp

lemma process_lines_graph:
  assumes "permutes_members order"
  shows "edges_ok n es' \<Longrightarrow> holds_graph es adj (gdb st) \<Longrightarrow>
    \<exists>st' adj'. process_lines order (map edge_line es') st = Inr st' \<and> greplies st' = greplies st \<and> holds_graph (es @ es') adj' (gdb st')"
proof (induction es' arbitrary: es adj st)
  case Nil
  then show ?case by auto
next
  case (Cons e es')
  obtain a b where e: "e = (a, b)" by (cases e)
  have ok: "a \<noteq> b" "node_num a" "node_num b" "edges_ok n es'"
    using Cons.prems(1) by (auto simp: edges_ok_def e node_num_def INT_MAX_def)
  obtain st1 adj1 where st1: "process_edge order (int a) (int b) st = Inr st1" "greplies st1 = greplies st"
      "holds_graph (es @ [(a, b)]) adj1 (gdb st1)"
    using process_edge_graph [OF assms Cons.prems(2) ok(1-3)] by blast
  obtain st' adj' where "process_lines order (map edge_line es') st1 = Inr st'" "greplies st' = greplies st1"
      "holds_graph ((es @ [(a, b)]) @ es') adj' (gdb st')"
    using Cons.IH [OF ok(4) st1(3)] by blast
  then show ?case using st1(1,2) by (auto simp: e sscanf_edge_line [OF ok(2,3)])
qed

section \<open>What the clients need\<close>

lemma color_key_not_neighbours: "''node_'' @ m @ ''_neighbours'' \<noteq> color_key u"
  using is_neighbours_key_simps(2) [of u] unfolding is_neighbours_key_def by metis

lemma holds_graph_ready:
  assumes "holds_graph es adj db" "edges_ok n es" "nodes_of es = {..<n}"
  shows "graph_ok n adj" "graph_db n adj db" "lists_graph n db" "raised db = {}" "unstarted n db"
    "\<And>u. u < n \<Longrightarrow> color_of db u = 0"
proof -
  have adj: "distinct (adj u)" "set (adj u) = nbrs es u" for u using assms(1) unfolding holds_graph_def by blast+
  have at: "u < n \<Longrightarrow> map_of db (neighbours_key u) = Some (SetObj (map decimal (adj u)))"
      "u < n \<Longrightarrow> map_of db (color_key u) = Some (StrObj ''0'')" for u
    using assms(1,3) unfolding holds_graph_def by blast+
  have only: "map_of db k \<noteq> None \<Longrightarrow> \<exists>u < n. k = neighbours_key u \<or> k = color_key u" for k
    using assms(1,3) unfolding holds_graph_def by blast
  have none: "map_of db (status_key u) = None" "map_of db (flag_key u v) = None" for u v
    using only [of "status_key u"] only [of "flag_key u v"] by (auto intro: ccontr)
  have edge: "u \<noteq> v \<and> u < n \<and> v < n" if "(u, v) \<in> set es" for u v
    using assms(2) that by (auto simp: edges_ok_def list_all_iff)
  show "graph_ok n adj"
    using assms(2) adj edge by (fastforce simp: graph_ok_def edges_ok_def nbrs_def)
  show "graph_db n adj db"
    unfolding graph_db_def
  proof (intro conjI allI impI)
    fix k
    show "map_of db k = None \<or> (\<exists>s. map_of db k = Some (StrObj s))" if "\<not> is_neighbours_key k"
      using only [of k] at(2) that by fastforce
    show "map_of db k = None \<or> (\<exists>u < n. k = neighbours_key u)" if "is_neighbours_key k"
      using only [of k] that by fastforce
  qed (rule at(1))
  show "lists_graph n db"
    unfolding lists_graph_def
  proof (intro conjI allI)
    show "distinct (map fst db)" using assms(1) unfolding holds_graph_def by blast
    fix m
    have "''node_'' @ m @ ''_neighbours'' \<in> set (map fst db) \<longleftrightarrow> map_of db (''node_'' @ m @ ''_neighbours'') \<noteq> None"
      by (simp add: map_of_eq_None_iff)
    also have "\<dots> \<longleftrightarrow> (\<exists>u < n. ''node_'' @ m @ ''_neighbours'' = neighbours_key u)"
      using only [of "''node_'' @ m @ ''_neighbours''"] at(1) color_key_not_neighbours by (metis option.distinct(1))
    finally show "''node_'' @ m @ ''_neighbours'' \<in> set (map fst db) \<longleftrightarrow> (\<exists>u < n. m = decimal u)"
      by (simp add: neighbours_key_alt)
  qed
  show "raised db = {}" by (simp add: raised_def str_at_def none)
  show "unstarted n db" by (simp add: unstarted_def status_of_def str_at_def none statval_def)
  show "color_of db u = 0" if "u < n" for u
    using at(2) [OF that] by (simp add: color_of_def str_at_def colval_def) (code_simp)
qed

section \<open>What the checker counts\<close>

text \<open>The colour of a node as the checker sees it: the stored string, if there is one.\<close>

definition shown :: "keyspace \<Rightarrow> nat \<Rightarrow> string option" where
  "shown db u = (case map_of db (color_key u) of Some (StrObj s) \<Rightarrow> Some s | _ \<Rightarrow> None)"

definition clashes :: "(nat \<Rightarrow> nat list) \<Rightarrow> keyspace \<Rightarrow> nat \<Rightarrow> nat" where
  "clashes adj db u = length (filter (\<lambda>v. shown db u = shown db v) (adj u))"

lemma shown_color: "color_of db u \<noteq> color_of db v \<Longrightarrow> shown db u \<noteq> shown db v"
  by (auto simp: shown_def color_of_def str_at_def split: option.splits obj.splits)

lemma py_split_piece:
  "sep \<notin> set a \<Longrightarrow> py_split sep cur (a @ sep # r) = (cur @ a) # py_split sep [] r"
  by (induction a arbitrary: cur) auto

lemma py_split_key: "\<exists>r. py_split (CHR ''_'') [] (neighbours_key u) = ''node'' # decimal u # r"
proof -
  have "CHR ''_'' \<notin> set (decimal u)" using decimal_digits [of u] by (auto simp: is_digit_def)
  then show ?thesis
    using py_split_piece [of "CHR ''_''" "''node''" "[]" "decimal u @ ''_neighbours''"]
      py_split_piece [of "CHR ''_''" "decimal u" "[]" "''neighbours''"] by (simp add: neighbours_key_alt)
qed

lemma color_key_alt: "''node_'' @ decimal u @ ''_color'' = color_key u"
  by (simp add: key_defs)

lemma py_get_color:
  assumes "graph_db n adj db"
  shows "py_get db (color_key u) = Inr (shown db u)"
  using graph_dbD(2) [OF assms, of "color_key u"] by (auto simp: py_get_def shown_def)

lemma check_neighbors_counts:
  assumes "graph_db n adj db"
  shows "check_neighbors db c (map decimal vs) = Inr (length (filter (\<lambda>v. c = shown db v) vs))"
proof (induction vs)
  case (Cons v vs)
  then show ?case
    unfolding list.map check_neighbors.simps color_key_alt py_get_color [OF assms] by simp
qed simp

lemma check_node_counts:
  assumes "graph_db n adj db" "u < n"
  shows "check_node db (neighbours_key u) = Inr (clashes adj db u)"
proof -
  obtain r where "py_split (CHR ''_'') [] (neighbours_key u) = ''node'' # decimal u # r"
    using py_split_key by blast
  moreover have "py_smembers db (neighbours_key u) = Inr (map decimal (adj u))"
    using graph_dbD(1) [OF assms] by (simp add: py_smembers_def)
  ultimately show ?thesis
    unfolding check_node_def Let_def clashes_def
    by (simp add: color_key_alt [simplified] py_get_color [OF assms(1)] check_neighbors_counts [OF assms(1)])
qed

lemma check_nodes_counts:
  assumes "graph_db n adj db"
  shows "list_all (\<lambda>u. u < n) us \<Longrightarrow> check_nodes db (map neighbours_key us) = Inr (\<Sum>u \<leftarrow> us. clashes adj db u)"
  by (induction us) (simp_all add: check_node_counts [OF assms])

text \<open>The keys the checker asks for, as nodes.\<close>

lemma checked_nodes:
  assumes "graph_db n adj db"
  shows "\<exists>us. filter (\<lambda>k. stringmatchlen ''node_*_neighbours'' k False) (map fst db) = map neighbours_key us
    \<and> list_all (\<lambda>u. u < n) us"
proof -
  let ?ks = "filter (\<lambda>k. stringmatchlen ''node_*_neighbours'' k False) (map fst db)"
  have "\<exists>u. u < n \<and> k = neighbours_key u" if "k \<in> set ?ks" for k
  proof -
    have "is_neighbours_key k" "map_of db k \<noteq> None"
      using that unfolding set_filter matches_neighbours is_neighbours_key_def map_of_eq_None_iff by auto
    then show ?thesis using graph_dbD(3) [OF assms, of k] by auto
  qed
  then have "\<forall>k \<in> set ?ks. \<exists>u. u < n \<and> k = neighbours_key u" by blast
  from bchoice [OF this] obtain g where g: "\<And>k. k \<in> set ?ks \<Longrightarrow> g k < n \<and> k = neighbours_key (g k)" by blast
  then have "map neighbours_key (map g ?ks) = ?ks" by (metis (no_types, lifting) map_idI map_map comp_apply)
  moreover have "list_all (\<lambda>u. u < n) (map g ?ks)" using g by (simp only: list_all_iff set_map) blast
  ultimately show ?thesis by metis
qed

lemma is_coloring_valid_proper:
  assumes "graph_db n adj db" "\<And>u v. u < n \<Longrightarrow> v \<in> set (adj u) \<Longrightarrow> color_of db u \<noteq> color_of db v"
  shows "is_coloring_valid db = Inr 0"
proof -
  obtain us where us: "filter (\<lambda>k. stringmatchlen ''node_*_neighbours'' k False) (map fst db) = map neighbours_key us"
      "list_all (\<lambda>u. u < n) us"
    using checked_nodes [OF assms(1)] by blast
  have "clashes adj db u = 0" if "u < n" for u
    using shown_color [OF assms(2) [OF that]] unfolding clashes_def by (simp add: filter_empty_conv)
  then have "(\<Sum>u \<leftarrow> us. clashes adj db u) = 0" using us(2) by (auto simp: list_all_iff)
  then show ?thesis
    unfolding is_coloring_valid_def us(1) using check_nodes_counts [OF assms(1) us(2)] by simp
qed

lemma addGraph_run:
  assumes "permutes_members order" "edges_ok n es" "holds_graph es0 adj (gdb st)"
    and "fopen (cstr file) = Some (graph_text es)"
  shows "\<exists>st' adj'. addGraphCommand order fopen [cmd, file] st = Inr st' \<and>
    greplies st' = greplies st @ [RStatus ''OK''] \<and> holds_graph (es0 @ es) adj' (gdb st')"
  using process_lines_graph [OF assms(1-3)] assms(4) fgets_graph_text [OF edges_ok_nums [OF assms(2)], of "[]"]
  by (auto simp: addGraphCommand_def greply_def)

lemma self_loop_new:
  assumes "node_num u" "map_of (gdb st) (neighbours_key u) = None"
  shows "process_edge order (int u) (int u) st = Inl AssertFailed"
  using assms by (simp add: process_edge_def ensure_set_def dbAdd_def)

text \<open>An empty server, and a file that holds a path of three nodes.\<close>

definition empty_server :: gstate where
  "empty_server = \<lparr>gdb = [], greplies = [], gdirty = 0\<rparr>"

lemma empty_server_graph: "holds_graph [] (\<lambda>_. []) (gdb empty_server)"
  by (simp add: holds_graph_def empty_server_def nodes_of_def nbrs_def)

lemma rev_permutes: "permutes_members rev"
  by (simp add: permutes_members_def)

section \<open>Properties\<close>

text \<open>
  C16: \<open>addGraphCommand\<close> on a file of lines \<open>u,v\<close> (different nodes, numbers below a billion) ends
  with the single reply \<open>OK\<close>. A keyspace that held exactly the graph of some edges then holds
  exactly the graph of these edges and those of the file: under the neighbours key of every
  node the set of its neighbours without repetition, in both directions of every edge, under its
  colour key the colour 0, and no other key, whatever the order in which sets list their members.
\<close>

theorem addGraph_loads:
  assumes "permutes_members order" "edges_ok n es" "holds_graph es0 adj (gdb st)"
    and "fopen (cstr file) = Some (graph_text es)"
  shows "\<exists>st' adj'. addGraphCommand order fopen [cmd, file] st = Inr st' \<and>
    greplies st' = greplies st @ [RStatus ''OK''] \<and> holds_graph (es0 @ es) adj' (gdb st')"
  using assms by (rule addGraph_run)

theorem addGraph_loads_witness:
  "\<exists>st' adj'. addGraphCommand rev (\<lambda>_. Some (graph_text [(0, 1), (1, 2)])) [''add_graph'', ''g.txt''] empty_server = Inr st' \<and>
    greplies st' = greplies empty_server @ [RStatus ''OK''] \<and> holds_graph ([] @ [(0, 1), (1, 2)]) adj' (gdb st')"
  by (rule addGraph_loads [where n = 3, OF rev_permutes _ empty_server_graph]) (simp_all add: edges_ok_def)

text \<open>
  C17: a line \<open>u,u\<close> for a node that has no neighbour set yet stops the server: both lookups found
  nothing, so the second \<open>dbAdd\<close> meets the key the first one added and its assertion fails. Any
  good edges may come before the line, and anything after it.
\<close>

theorem addGraph_self_loop:
  assumes "permutes_members order" "edges_ok n es" "holds_graph es0 adj (gdb st)"
    and "node_num u" "u \<notin> nodes_of (es0 @ es)"
    and "fopen (cstr file) = Some (graph_text (es @ [(u, u)]) @ rest)"
  shows "addGraphCommand order fopen [cmd, file] st = Inl AssertFailed"
proof -
  have "list_all (\<lambda>(u, v). node_num u \<and> node_num v) (es @ [(u, u)])"
    using edges_ok_nums [OF assms(2)] assms(4) by simp
  note lines = fgets_graph_text [OF this, of rest]
  obtain st' adj' where st': "process_lines order (map edge_line es) st = Inr st'" "holds_graph (es0 @ es) adj' (gdb st')"
    using process_lines_graph [OF assms(1-3)] by blast
  note self_loop_new [OF assms(4) holds_graph_new [OF st'(2) assms(5)]]
  then show ?thesis
    using assms(6) lines st'(1)
    by (simp add: addGraphCommand_def process_lines_append sscanf_edge_line [OF assms(4,4)])
qed

theorem addGraph_self_loop_witness:
  "addGraphCommand rev (\<lambda>_. Some (graph_text ([(0, 1)] @ [(2, 2)]) @ ''3,4'')) [''add_graph'', ''g.txt''] empty_server = Inl AssertFailed"
  by (rule addGraph_self_loop [where n = 3 and es = "[(0, 1)]" and u = 2 and rest = "''3,4''", OF rev_permutes _ empty_server_graph])
    (simp_all add: edges_ok_def node_num_def INT_MAX_def nodes_of_def)

text \<open>
  C18: on a stored graph the checker of \<open>check_color.py\<close> runs to its end and returns the number of
  pairs of a node and a neighbour that show the same colour, so every clashing edge counts twice;
  colours are compared as stored strings, and two missing colours count as equal.
\<close>

theorem is_coloring_valid_counts:
  assumes "graph_ok n adj" "graph_db n adj db" "lists_graph n db"
  shows "is_coloring_valid db = Inr (card {(u, v). u < n \<and> v \<in> set (adj u) \<and> shown db u = shown db v})"
proof -
  obtain us where us: "filter (\<lambda>k. stringmatchlen ''node_*_neighbours'' k False) (map fst db) = map neighbours_key us"
      "list_all (\<lambda>u. u < n) us"
    using checked_nodes [OF assms(2)] by blast
  have "image_mset neighbours_key (mset us) = image_mset neighbours_key (mset [0..<n])"
    using matched_keys [OF assms(3)] us(1) by simp
  moreover have "inj neighbours_key" by (simp add: inj_def)
  ultimately have "mset us = mset [0..<n]" by (blast dest: multiset.inj_map injD)
  then have "(\<Sum>u \<leftarrow> us. clashes adj db u) = (\<Sum>u \<leftarrow> [0..<n]. clashes adj db u)"
    by (metis mset_map sum_mset_sum_list)
  also have "\<dots> = (\<Sum>u < n. clashes adj db u)" by (simp add: interv_sum_list_conv_sum_set_nat atLeast0LessThan)
  also have "\<dots> = (\<Sum>u < n. card {v \<in> set (adj u). shown db u = shown db v})"
    using graph_okD(2) [OF assms(1)] by (intro sum.cong) (simp_all add: clashes_def distinct_length_filter Int_def conj_commute)
  also have "\<dots> = card (SIGMA u:{..<n}. {v \<in> set (adj u). shown db u = shown db v})" by simp
  also have "(SIGMA u:{..<n}. {v \<in> set (adj u). shown db u = shown db v})
    = {(u, v). u < n \<and> v \<in> set (adj u) \<and> shown db u = shown db v}" by auto
  finally show ?thesis
    unfolding is_coloring_valid_def us(1) using check_nodes_counts [OF assms(2) us(2)] by simp
qed

theorem is_coloring_valid_counts_witness:
  "is_coloring_valid edge_db = Inr (card {(u, v). u < 2 \<and> v \<in> set (edge_adj u) \<and> shown edge_db u = shown edge_db v}) \<and>
   is_coloring_valid edge_db = Inr 2"
proof
  show "is_coloring_valid edge_db = Inr 2" by code_simp
qed (rule is_coloring_valid_counts [OF edge_graph_ok edge_graph_db edge_lists_graph])

end
