(* ===== verification/Intset.thy ===== *)
theory Intset
  imports Memory
begin

text \<open>
  The integer sets of \<open>intset.c\<close>: a header and a block of bytes that holds the elements in
  ascending order, all with the same width. The model works on the bytes, so that the
  change of width in place, the shifts with \<open>memmove\<close> and the binary search are
  those of the source. The functions \<open>_intsetGet\<close> and \<open>_intsetSet\<close> are called \<open>intset_get\<close>
  and \<open>intset_set\<close>. The machine is little-endian, so the \<open>...ifbe\<close> conversions do nothing.

  \<open>intset_ok\<close> is the invariant, \<open>intset_vals\<close> the list of elements. The lemmas show that no
  operation leaves the block of bytes, that each keeps the invariant, and what each does to
  the list of elements.
\<close>

section \<open>The operations\<close>

record intset =
  encoding :: nat
  ilength :: nat
  contents :: "byte list"

definition intsetValueEncoding :: "int \<Rightarrow> nat" where
  "intsetValueEncoding v =
     (if v < - (2 ^ 31) \<or> v > 2 ^ 31 - 1 then 8
      else if v < - (2 ^ 15) \<or> v > 2 ^ 15 - 1 then 4
      else 2)"

text \<open>The three branches on the encoding: any value but 8 and 4 is taken for 2.\<close>

definition enc_size :: "nat \<Rightarrow> nat" where
  "enc_size enc = (if enc = 8 then 8 else if enc = 4 then 4 else 2)"

definition intsetGetEncoded :: "intset \<Rightarrow> int \<Rightarrow> nat \<Rightarrow> int res" where
  "intsetGetEncoded is pos enc =
     (let k = enc_size enc in bindr (peek (contents is) (pos * int k) k) (\<lambda>b. Inr (le_int b)))"

definition intset_get :: "intset \<Rightarrow> int \<Rightarrow> int res" where
  "intset_get is pos = intsetGetEncoded is pos (encoding is)"

definition intset_set :: "intset \<Rightarrow> int \<Rightarrow> int \<Rightarrow> intset res" where
  "intset_set is pos value =
     (let k = enc_size (encoding is) in
      bindr (poke (contents is) (pos * int k) (to_le k value)) (\<lambda>c. Inr (is\<lparr>contents := c\<rparr>)))"

definition intsetNew :: intset where
  "intsetNew = \<lparr>encoding = 2, ilength = 0, contents = []\<rparr>"

text \<open>\<open>junk\<close> stands for the bytes that \<open>zrealloc\<close> leaves uninitialised.\<close>

definition intsetResize :: "(nat \<Rightarrow> byte) \<Rightarrow> intset \<Rightarrow> nat \<Rightarrow> intset res" where
  "intsetResize junk is len =
     (let size = u64 (int len * int (encoding is)) in
      if size \<le> 2 ^ 64 - 1 - 8 then Inr (is\<lparr>contents := zrealloc junk (contents is) size\<rparr>)
      else Inl AssertFailed)"

fun search_loop :: "nat \<Rightarrow> intset \<Rightarrow> int \<Rightarrow> int \<Rightarrow> int \<Rightarrow> int \<Rightarrow> int \<Rightarrow> (int \<times> int \<times> int) res" where
  "search_loop 0 is value mn mx mid cur = Inl OutOfFuel"
| "search_loop (Suc fuel) is value mn mx mid cur =
     (if mx \<ge> mn then
        let mid = int (u32 (int (u32 mn) + int (u32 mx)) div 2) in
        bindr (intset_get is mid) (\<lambda>cur.
          if value > cur then search_loop fuel is value (mid + 1) mx mid cur
          else if value < cur then search_loop fuel is value mn (mid - 1) mid cur
          else Inr (mn, mid, cur))
      else Inr (mn, mid, cur))"

definition intsetSearch :: "intset \<Rightarrow> int \<Rightarrow> (bool \<times> nat) res" where
  "intsetSearch is value =
     (let len = ilength is; mx = int_cast (int len - 1) in
      if len = 0 then Inr (False, 0)
      else
        bindr (intset_get is mx) (\<lambda>l.
        if value > l then Inr (False, len)
        else
          bindr (intset_get is 0) (\<lambda>f.
          if value < f then Inr (False, 0)
          else
            bindr (search_loop (Suc len) is value 0 mx (-1) (-1)) (\<lambda>(mn, mid, cur).
              Inr (if value = cur then (True, u32 mid) else (False, u32 mn))))))"

fun upgrade_loop :: "nat \<Rightarrow> nat \<Rightarrow> nat \<Rightarrow> intset \<Rightarrow> intset res" where
  "upgrade_loop 0 prepend curenc is = Inr is"
| "upgrade_loop (Suc len) prepend curenc is =
     bindr (intsetGetEncoded is (int len) curenc) (\<lambda>v.
     bindr (intset_set is (int (len + prepend)) v) (\<lambda>is.
       upgrade_loop len prepend curenc is))"

definition intsetUpgradeAndAdd :: "(nat \<Rightarrow> byte) \<Rightarrow> intset \<Rightarrow> int \<Rightarrow> intset res" where
  "intsetUpgradeAndAdd junk is value =
     (let curenc = encoding is; newenc = intsetValueEncoding value; len = ilength is;
          prepend = (if value < 0 then 1 else 0) in
      bindr (intsetResize junk (is\<lparr>encoding := newenc\<rparr>) (u32 (int (ilength is) + 1))) (\<lambda>is.
      bindr (upgrade_loop len prepend curenc is) (\<lambda>is.
      bindr (if prepend \<noteq> 0 then intset_set is 0 value else intset_set is (int (ilength is)) value) (\<lambda>is.
      Inr (is\<lparr>ilength := u32 (int (ilength is) + 1)\<rparr>)))))"

text \<open>The number of bytes is computed in a \<open>uint32_t\<close>.\<close>

definition tail_bytes :: "nat \<Rightarrow> nat \<Rightarrow> nat \<Rightarrow> nat" where
  "tail_bytes len start enc = u32 (int (u32 (int len - int start)) * int (enc_size enc))"

definition intsetMoveTail :: "intset \<Rightarrow> nat \<Rightarrow> nat \<Rightarrow> intset res" where
  "intsetMoveTail is start dest =
     (let k = int (enc_size (encoding is)) in
      bindr (memmove (contents is) (int dest * k) (int start * k) (tail_bytes (ilength is) start (encoding is)))
        (\<lambda>c. Inr (is\<lparr>contents := c\<rparr>)))"

definition intsetAdd :: "(nat \<Rightarrow> byte) \<Rightarrow> intset \<Rightarrow> int \<Rightarrow> (intset \<times> bool) res" where
  "intsetAdd junk is value =
     (let valenc = intsetValueEncoding value in
      if valenc > encoding is then
        bindr (intsetUpgradeAndAdd junk is value) (\<lambda>is. Inr (is, True))
      else
        bindr (intsetSearch is value) (\<lambda>(found, pos).
          if found then Inr (is, False)
          else
            bindr (intsetResize junk is (u32 (int (ilength is) + 1))) (\<lambda>is.
            bindr (if pos < ilength is then intsetMoveTail is pos (pos + 1) else Inr is) (\<lambda>is.
            bindr (intset_set is (int pos) value) (\<lambda>is.
            Inr (is\<lparr>ilength := u32 (int (ilength is) + 1)\<rparr>, True))))))"

definition intsetRemove :: "(nat \<Rightarrow> byte) \<Rightarrow> intset \<Rightarrow> int \<Rightarrow> (intset \<times> bool) res" where
  "intsetRemove junk is value =
     (let valenc = intsetValueEncoding value in
      if valenc \<le> encoding is then
        bindr (intsetSearch is value) (\<lambda>(found, pos).
          if found then
            let len = ilength is in
            bindr (if pos < u32 (int len - 1) then intsetMoveTail is (pos + 1) pos else Inr is) (\<lambda>is.
            bindr (intsetResize junk is (u32 (int len - 1))) (\<lambda>is.
            Inr (is\<lparr>ilength := u32 (int len - 1)\<rparr>, True)))
          else Inr (is, False))
      else Inr (is, False))"

definition intsetFind :: "intset \<Rightarrow> int \<Rightarrow> bool res" where
  "intsetFind is value =
     (let valenc = intsetValueEncoding value in
      if valenc \<le> encoding is then bindr (intsetSearch is value) (\<lambda>(found, pos). Inr found) else Inr False)"

text \<open>\<open>r\<close> is the value of \<open>rand()\<close>.\<close>

definition intsetRandom :: "nat \<Rightarrow> intset \<Rightarrow> int res" where
  "intsetRandom r is =
     (let len = ilength is in if len = 0 then Inl AssertFailed else intset_get is (int (r mod len)))"

definition intsetMax :: "intset \<Rightarrow> int res" where
  "intsetMax is = intset_get is (int_cast (int (ilength is) - 1))"

definition intsetMin :: "intset \<Rightarrow> int res" where
  "intsetMin is = intset_get is 0"

definition intsetGet :: "intset \<Rightarrow> nat \<Rightarrow> int option res" where
  "intsetGet is pos =
     (if pos < ilength is then bindr (intset_get is (int_cast (int pos))) (\<lambda>v. Inr (Some v)) else Inr None)"

definition intsetLen :: "intset \<Rightarrow> nat" where
  "intsetLen is = ilength is"

definition intsetBlobLen :: "intset \<Rightarrow> nat" where
  "intsetBlobLen is = 8 + ilength is * encoding is"

text \<open>The bytes of the struct, and the struct that a pointer to such bytes denotes.\<close>

definition intset_blob :: "intset \<Rightarrow> byte list" where
  "intset_blob is = to_le 4 (int (encoding is)) @ to_le 4 (int (ilength is)) @ contents is"

definition intset_at :: "byte list \<Rightarrow> intset" where
  "intset_at p = \<lparr>encoding = le_nat (take 4 p), ilength = le_nat (take 4 (drop 4 p)), contents = drop 8 p\<rparr>"

fun order_loop :: "nat \<Rightarrow> intset \<Rightarrow> nat \<Rightarrow> int \<Rightarrow> bool res" where
  "order_loop 0 is i prev = Inr True"
| "order_loop (Suc n) is i prev =
     bindr (intset_get is (int_cast (int i))) (\<lambda>cur.
       if cur \<le> prev then Inr False else order_loop n is (i + 1) cur)"

definition intsetValidateIntegrity :: "byte list \<Rightarrow> bool \<Rightarrow> bool res" where
  "intsetValidateIntegrity p deep =
     (let size = length p in
      if size < 8 then Inr False
      else
        let is = intset_at p; enc = encoding is in
        if enc \<noteq> 8 \<and> enc \<noteq> 4 \<and> enc \<noteq> 2 then Inr False
        else
          let record_size = enc; count = ilength is in
          if u64 (8 + int count * int record_size) \<noteq> size then Inr False
          else if count = 0 then Inr False
          else if \<not> deep then Inr True
          else bindr (intset_get is 0) (\<lambda>prev. order_loop (count - 1) is 1 prev))"

section \<open>Cells of a block\<close>

definition cell :: "nat \<Rightarrow> byte list \<Rightarrow> nat \<Rightarrow> byte list" where
  "cell k m i = take k (drop (i * k) m)"

lemma cell_before: "i < j \<Longrightarrow> i * k + k \<le> j * (k :: nat)"
  by (metis Suc_leI add.commute mult_Suc mult_le_mono1)

lemma length_cell: "i < n \<Longrightarrow> n * k \<le> length m \<Longrightarrow> length (cell k m i) = k"
  using cell_before [of i n k] by (simp add: cell_def)

lemma poke_outside:
  assumes "poke m i v = Inr m'" "int (j + n) \<le> i \<or> i + int (length v) \<le> int j"
  shows "take n (drop j m') = take n (drop j m)"
proof -
  have i: "0 \<le> i" "nat i + length v \<le> length m" "m' = take (nat i) m @ v @ drop (nat i + length v) m"
    using assms(1) by (auto simp: poke_def split: if_splits)
  show ?thesis
  proof (cases "j + n \<le> nat i")
    case True
    then show ?thesis using i by (intro nth_equalityI) (auto simp: nth_append)
  next
    case False
    then have "nat i + length v \<le> j" using assms(2) i(1) by auto
    then show ?thesis using i by (simp add: le_add_diff_inverse2)
  qed
qed

lemma poke_at:
  assumes "poke m (int i) v = Inr m'"
  shows "take (length v) (drop i m') = v"
  using assms by (auto simp: poke_def split: if_splits)

lemma poke_cell:
  assumes "i < n" "n * k \<le> length m" "length v = k"
  obtains m' where "poke m (int i * int k) v = Inr m'" "length m' = length m"
    "cell k m' i = v" "\<And>j. j \<noteq> i \<Longrightarrow> cell k m' j = cell k m j"
proof -
  have le: "i * k + length v \<le> length m" using cell_before [OF assms(1), of k] assms(2,3) by simp
  then obtain m' where m': "poke m (int (i * k)) v = Inr m'" by (auto simp: poke_def simp del: of_nat_mult)
  have "cell k m' j = cell k m j" if "j \<noteq> i" for j
    unfolding cell_def
  proof (rule poke_outside [OF m'])
    show "int (j * k + k) \<le> int (i * k) \<or> int (i * k) + int (length v) \<le> int (j * k)"
      using cell_before [of i j k] cell_before [of j i k] that assms(3) by (cases "i < j") (auto simp flip: of_nat_add of_nat_mult)
  qed
  with that [of m'] m' poke_at [OF m'] poke_length [OF m'] assms(3) show thesis by (simp add: cell_def)
qed

lemma cell_take: "j < n \<Longrightarrow> cell k (take (n * k) m) j = cell k m j"
  using cell_before [of j n k] by (simp add: cell_def drop_take min_def)

lemma cell_drop: "cell k (drop (i * k) m) j = cell k m (i + j)"
  by (simp add: cell_def add_mult_distrib add.commute)

lemma memmove_cells:
  assumes "start + n \<le> N" "dest + n \<le> N" "N * k \<le> length m"
  obtains m' where "memmove m (int dest * int k) (int start * int k) (n * k) = Inr m'" "length m' = length m"
    "\<And>j. j < n \<Longrightarrow> cell k m' (dest + j) = cell k m (start + j)"
    "\<And>j. j < dest \<or> dest + n \<le> j \<Longrightarrow> cell k m' j = cell k m j"
proof -
  let ?v = "take (n * k) (drop (start * k) m)"
  have le: "start * k + n * k \<le> length m" "dest * k + n * k \<le> length m"
    using assms by (metis add_mult_distrib le_trans mult_le_mono1)+
  then have v: "length ?v = n * k" "peek m (int (start * k)) (n * k) = Inr ?v"
    by (simp_all add: peek_def del: of_nat_mult)
  obtain m' where m': "poke m (int (dest * k)) ?v = Inr m'"
    using le v(1) by (auto simp: poke_def simp del: of_nat_mult)
  have "cell k m' (dest + j) = cell k m (start + j)" if "j < n" for j
  proof -
    have "cell k m' (dest + j) = cell k (take (length ?v) (drop (dest * k) m')) j"
      by (simp only: v(1) cell_take [OF that] cell_drop)
    then show ?thesis by (simp only: poke_at [OF m'] cell_take [OF that] cell_drop)
  qed
  moreover have "cell k m' j = cell k m j" if "j < dest \<or> dest + n \<le> j" for j
    unfolding cell_def
  proof (rule poke_outside [OF m'])
    have "(dest + n) * k \<le> j * k" if "dest + n \<le> j" using that by (rule mult_le_mono1)
    then show "int (j * k + k) \<le> int (dest * k) \<or> int (dest * k) + int (length ?v) \<le> int (j * k)"
      using that cell_before [of j dest k] unfolding v(1)
      by (auto simp: add_mult_distrib simp flip: of_nat_add of_nat_mult)
  qed
  ultimately show thesis using that [of m'] m' poke_length [OF m'] v(2) by (simp add: memmove_def)
qed

section \<open>The invariant\<close>

definition intset_vals :: "intset \<Rightarrow> int list" where
  "intset_vals is = map (\<lambda>i. le_int (cell (encoding is) (contents is) i)) [0..<ilength is]"

definition intset_ok :: "intset \<Rightarrow> bool" where
  "intset_ok is \<longleftrightarrow> encoding is \<in> {2, 4, 8} \<and> length (contents is) = ilength is * encoding is
     \<and> ilength is * encoding is < 2 ^ 32 \<and> sorted_wrt (<) (intset_vals is)"

lemma enc_size_id [simp]: "enc \<in> {2, 4, 8} \<Longrightarrow> enc_size enc = enc"
  by (auto simp: enc_size_def)

lemma valueEncoding_range: "intsetValueEncoding v \<in> {2, 4, 8}"
  by (simp add: intsetValueEncoding_def)

lemma fits_encoding:
  "fits 8 v \<Longrightarrow> enc \<in> {2, 4, 8} \<Longrightarrow> fits enc v \<longleftrightarrow> intsetValueEncoding v \<le> enc"
  by (auto simp: fits_def intsetValueEncoding_def)

lemma length_intset_vals [simp]: "length (intset_vals is) = ilength is"
  by (simp add: intset_vals_def)

lemma intset_vals_nth: "i < ilength is \<Longrightarrow> intset_vals is ! i = le_int (cell (encoding is) (contents is) i)"
  by (simp add: intset_vals_def)

lemma getEncoded_cell:
  assumes "enc \<in> {2, 4, 8}" "i < n" "n * enc \<le> length (contents is)"
  shows "intsetGetEncoded is (int i) enc = Inr (le_int (cell enc (contents is) i))"
  using assms cell_before [of i n enc]
  by (simp add: intsetGetEncoded_def peek_def cell_def Let_def flip: of_nat_mult)

lemma intset_get_nth:
  assumes "intset_ok is" "i < ilength is"
  shows "intset_get is (int i) = Inr (intset_vals is ! i)"
  using assms getEncoded_cell [of "encoding is" i "ilength is" "is"]
  by (simp add: intset_get_def intset_ok_def intset_vals_nth)

lemma intset_set_cell:
  assumes "encoding is \<in> {2, 4, 8}" "i < n" "n * encoding is \<le> length (contents is)" "fits (encoding is) v"
  obtains c where "intset_set is (int i) v = Inr (is\<lparr>contents := c\<rparr>)" "length c = length (contents is)"
    "le_int (cell (encoding is) c i) = v"
    "\<And>j. j \<noteq> i \<Longrightarrow> cell (encoding is) c j = cell (encoding is) (contents is) j"
    "\<And>j n. j + n \<le> i * encoding is \<Longrightarrow> take n (drop j c) = take n (drop j (contents is))"
proof -
  obtain c where c: "poke (contents is) (int i * int (encoding is)) (to_le (encoding is) v) = Inr c"
      "length c = length (contents is)" "cell (encoding is) c i = to_le (encoding is) v"
      "\<And>j. j \<noteq> i \<Longrightarrow> cell (encoding is) c j = cell (encoding is) (contents is) j"
    using poke_cell [OF assms(2,3), of "to_le (encoding is) v"] by auto
  have "take n (drop j c) = take n (drop j (contents is))" if "j + n \<le> i * encoding is" for j n
    by (rule poke_outside [OF c(1)]) (use that in \<open>simp flip: of_nat_mult of_nat_add\<close>)
  then show thesis using that [of c] c assms(1,4) by (simp add: intset_set_def Let_def)
qed

lemma intset_ok_bounds:
  assumes "intset_ok is"
  shows "int (ilength is) < 2 ^ 31" "ilength is < 2 ^ 32" "int_cast (int (ilength is) - 1) = int (ilength is) - 1"
proof -
  have "ilength is * 2 \<le> ilength is * encoding is" using assms by (auto simp: intset_ok_def)
  then have "ilength is * 2 < 2 ^ 32" using assms unfolding intset_ok_def by (blast intro: le_less_trans)
  then show *: "int (ilength is) < 2 ^ 31" by simp
  then show "ilength is < 2 ^ 32" "int_cast (int (ilength is) - 1) = int (ilength is) - 1"
    by (simp_all add: in_int_def INT_MAX_def INT_MIN_def)
qed

section \<open>Binary search\<close>

definition ins_pos :: "int \<Rightarrow> int list \<Rightarrow> nat" where
  "ins_pos v xs = length (takeWhile (\<lambda>x. x < v) xs)"

lemma ins_pos_eq:
  assumes "p \<le> length xs" "\<And>j. j < p \<Longrightarrow> xs ! j < v" "p < length xs \<Longrightarrow> v \<le> xs ! p"
  shows "ins_pos v xs = p"
proof -
  have "takeWhile (\<lambda>x. x < v) xs = take p xs"
    by (rule takeWhile_eq_take_P_nth) (use assms in auto)
  with assms(1) show ?thesis by (simp add: ins_pos_def)
qed

lemma sorted_mem_pos:
  assumes "sorted_wrt (<) (xs :: int list)" "j < length xs"
  shows "ins_pos (xs ! j) xs = j"
  by (rule ins_pos_eq) (use assms in \<open>auto simp: sorted_wrt_iff_nth_less\<close>)

lemma midpoint:
  assumes "0 \<le> mn" "mn \<le> mx" "mx < (2 :: int) ^ 31"
  shows "int (u32 (int (u32 mn) + int (u32 mx)) div 2) = (mn + mx) div 2"
proof -
  have "int (u32 mn) = mn" "int (u32 mx) = mx" using assms by (simp_all add: u32_def)
  moreover have "int (u32 (mn + mx)) = mn + mx" using assms by (simp add: u32_def)
  ultimately show ?thesis by simp
qed

lemma search_loop_correct:
  assumes ok: "intset_ok is" and xs: "xs = intset_vals is"
  shows "\<lbrakk>0 \<le> mn; mx < int (ilength is); mn \<le> mx + 1; \<And>j. int j < mn \<Longrightarrow> xs ! j < v;
    \<And>j. mx < int j \<Longrightarrow> j < ilength is \<Longrightarrow> v < xs ! j; nat (mx - mn + 1) < fuel; cur = v \<Longrightarrow> mn \<le> mx\<rbrakk>
    \<Longrightarrow> \<exists>mn' mid' cur'. search_loop fuel is v mn mx mid cur = Inr (mn', mid', cur')
        \<and> (cur' = v \<longleftrightarrow> v \<in> set xs) \<and> (if v \<in> set xs then mid' else mn') = int (ins_pos v xs)"
proof (induction fuel arbitrary: mn mx mid cur)
  case (Suc fuel)
  have sorted: "sorted_wrt (<) xs" and len: "length xs = ilength is" using ok xs by (auto simp: intset_ok_def)
  show ?case
  proof (cases "mx \<ge> mn")
    case False
    then have "mn = mx + 1" using Suc.prems(3) by simp
    have "v \<notin> set xs"
    proof
      assume "v \<in> set xs"
      then obtain j where "j < length xs" "xs ! j = v" by (auto simp: in_set_conv_nth)
      with Suc.prems(4,5) [of j] \<open>mn = mx + 1\<close> len show False by force
    qed
    moreover have "ins_pos v xs = nat mn"
      by (rule ins_pos_eq) (use Suc.prems \<open>mn = mx + 1\<close> len in \<open>auto simp: less_imp_le\<close>)
    ultimately show ?thesis using False Suc.prems(1,7) by auto
  next
    case True
    define m where "m = (mn + mx) div 2"
    have m: "mn \<le> m" "m \<le> mx" using True by (auto simp: m_def)
    have mid: "int (u32 (int (u32 mn) + int (u32 mx)) div 2) = m"
      using midpoint [of mn mx] True Suc.prems(1,2) intset_ok_bounds(1) [OF ok] by (simp add: m_def)
    have lt: "nat m < ilength is" using m Suc.prems(1,2) by auto
    have get: "intset_get is m = Inr (xs ! nat m)"
      using intset_get_nth [OF ok lt] m Suc.prems(1) xs by simp
    consider "v > xs ! nat m" | "v < xs ! nat m" | "v = xs ! nat m" by linarith
    then show ?thesis
    proof cases
      case 1
      have below: "xs ! j < v" if "int j < m + 1" for j
      proof -
        have "j < nat m \<or> j = nat m" using that by linarith
        then show ?thesis using 1 sorted_wrt_nth_less [OF sorted, of j "nat m"] lt len by auto
      qed
      have eq: "search_loop (Suc fuel) is v mn mx mid cur = search_loop fuel is v (m + 1) mx m (xs ! nat m)"
        using 1 get mid True by (simp add: Let_def)
      show ?thesis unfolding eq
        by (rule Suc.IH) (use 1 below Suc.prems m in \<open>simp_all (no_asm_simp)\<close>)
    next
      case 2
      have below: "v < xs ! j" if "m - 1 < int j" "j < ilength is" for j
      proof -
        have "nat m < j \<or> j = nat m" using that by linarith
        then show ?thesis using 2 sorted_wrt_nth_less [OF sorted, of "nat m" j] that(2) len by auto
      qed
      have eq: "search_loop (Suc fuel) is v mn mx mid cur = search_loop fuel is v mn (m - 1) m (xs ! nat m)"
        using 2 get mid True by (simp add: Let_def)
      show ?thesis unfolding eq
        by (rule Suc.IH) (use 2 below Suc.prems m in \<open>simp_all (no_asm_simp)\<close>)
    next
      case 3
      then have "v \<in> set xs" "ins_pos v xs = nat m"
        using lt len sorted_mem_pos [OF sorted, of "nat m"] by auto
      with 3 get mid True m Suc.prems(1) show ?thesis by (simp add: Let_def)
    qed
  qed
qed simp

lemma intsetSearch_correct:
  assumes ok: "intset_ok is"
  shows "intsetSearch is v = Inr (v \<in> set (intset_vals is), ins_pos v (intset_vals is))"
proof (cases "ilength is = 0")
  case True
  then have "intset_vals is = []" by (simp add: intset_vals_def)
  with True show ?thesis by (simp add: intsetSearch_def ins_pos_def)
next
  case False
  define xs where "xs = intset_vals is"
  define l where "l = ilength is - 1"
  have l: "ilength is = Suc l" using False by (simp add: l_def)
  have sorted: "sorted_wrt (<) xs" and len: "length xs = Suc l" using ok l by (auto simp: intset_ok_def xs_def)
  have get: "intset_get is 0 = Inr (xs ! 0)" "intset_get is (int l) = Inr (xs ! l)"
    using intset_get_nth [OF ok, of 0] intset_get_nth [OF ok, of l] l by (simp_all add: xs_def)
  have mx: "int_cast (int (ilength is) - 1) = int l" using intset_ok_bounds(3) [OF ok] l by simp
  have lo: "xs ! 0 \<le> xs ! j" if "j \<le> l" for j
    using sorted_wrt_nth_less [OF sorted, of 0 j] that len by (cases j) auto
  have hi: "xs ! j \<le> xs ! l" if "j \<le> l" for j
    using sorted_wrt_nth_less [OF sorted, of j l] that len by (cases "j = l") auto
  have range: "xs ! 0 \<le> x \<and> x \<le> xs ! l" if "x \<in> set xs" for x
    using that lo hi len by (auto simp: in_set_conv_nth less_Suc_eq_le)
  consider "v > xs ! l" | "v \<le> xs ! l" "v < xs ! 0" | "v \<le> xs ! l" "xs ! 0 \<le> v" by linarith
  then show ?thesis
  proof cases
    case 1
    then have "v \<notin> set xs" using range [of v] by auto
    moreover have "ins_pos v xs = ilength is"
    proof (rule ins_pos_eq)
      show "xs ! j < v" if "j < ilength is" for j using 1 hi [of j] that l by simp
    qed (use l len in auto)
    ultimately show ?thesis using 1 l mx get by (simp add: intsetSearch_def Let_def flip: xs_def)
  next
    case 2
    then have "v \<notin> set xs" using range [of v] by auto
    moreover have "ins_pos v xs = 0" by (rule ins_pos_eq) (use 2 in auto)
    ultimately show ?thesis using 2 l mx get by (simp add: intsetSearch_def Let_def flip: xs_def)
  next
    case 3
    have "ins_pos v xs \<le> Suc l" using len by (metis ins_pos_def length_takeWhile_le)
    then have u: "u32 (int (ins_pos v xs)) = ins_pos v xs" using l intset_ok_bounds(2) [OF ok] by (intro u32_id) simp
    have "nat (int l - 0 + 1) < Suc (ilength is)" using l by simp
    then obtain mn mid cur where "search_loop (Suc (ilength is)) is v 0 (int l) (-1) (-1) = Inr (mn, mid, cur)"
        "cur = v \<longleftrightarrow> v \<in> set xs" "(if v \<in> set xs then mid else mn) = int (ins_pos v xs)"
      using search_loop_correct [OF ok xs_def, of 0 "int l" v "Suc (ilength is)" "-1" "-1"] l
      by (auto simp del: search_loop.simps)
    then show ?thesis using 3 False mx get u
      by (cases "v \<in> set xs") (simp_all add: intsetSearch_def Let_def del: search_loop.simps flip: xs_def)
  qed
qed

lemma fits_vals: "intset_ok is \<Longrightarrow> x \<in> set (intset_vals is) \<Longrightarrow> fits (encoding is) x"
proof -
  assume ok: "intset_ok is" and x: "x \<in> set (intset_vals is)"
  then obtain i where "i < ilength is" "x = le_int (cell (encoding is) (contents is) i)"
    by (auto simp: intset_vals_def)
  with ok show "fits (encoding is) x"
    using fits_le_int [of "cell (encoding is) (contents is) i"] length_cell [of i "ilength is" "encoding is" "contents is"]
    by (simp add: intset_ok_def)
qed

lemma larger_not_member:
  assumes "intset_ok is" "fits 8 v" "encoding is < intsetValueEncoding v"
  shows "v \<notin> set (intset_vals is)"
  using assms fits_vals [OF assms(1), of v] fits_encoding [OF assms(2), of "encoding is"]
  by (auto simp: intset_ok_def)

lemma intsetFind_member:
  assumes "intset_ok is" "fits 8 v"
  shows "intsetFind is v = Inr (v \<in> set (intset_vals is))"
  using larger_not_member [OF assms]
  by (auto simp: intsetFind_def intsetSearch_correct [OF assms(1)] not_le)

section \<open>Adding and removing\<close>

lemma insort_pos: "take (ins_pos v xs) xs @ v # drop (ins_pos v xs) xs = insort v xs"
proof -
  have "takeWhile (\<lambda>x. x < v) xs @ v # dropWhile (\<lambda>x. x < v) xs = insort v xs"
    by (induction xs) auto
  then show ?thesis by (simp only: ins_pos_def takeWhile_eq_take [symmetric] dropWhile_eq_drop [symmetric])
qed

lemma strict_insort: "sorted_wrt (<) xs \<Longrightarrow> (v :: int) \<notin> set xs \<Longrightarrow> sorted_wrt (<) (insort v xs)"
  by (simp add: strict_sorted_iff sorted_insort distinct_insort)

lemma ins_pos_le: "ins_pos v xs \<le> length xs"
  by (simp add: ins_pos_def length_takeWhile_le)

lemma cell_zrealloc:
  assumes "i < n" "n * k \<le> length m" "n * k \<le> sz"
  shows "cell k (zrealloc junk m sz) i = cell k m i"
proof -
  have "take (n * k) (zrealloc junk m sz) = take (n * k) m" by (rule take_zrealloc [OF assms(2,3)])
  then show ?thesis using cell_take [OF assms(1), of k] by metis
qed

lemma resize_room:
  assumes "encoding is \<in> {2, 4, 8}" "n * encoding is < 2 ^ 32"
  shows "intsetResize junk is n = Inr (is\<lparr>contents := zrealloc junk (contents is) (n * encoding is)\<rparr>)"
  using assms(2) u64_id [of "n * encoding is"] by (simp add: intsetResize_def Let_def)

lemma tail_bytes_exact:
  assumes "start \<le> len" "enc \<in> {2, 4, 8}" "len * enc < 2 ^ 32"
  shows "tail_bytes len start enc = (len - start) * enc"
proof -
  have "len * 1 \<le> len * enc" using assms(2) by (intro mult_le_mono2) auto
  then have len: "len - start < 2 ^ 32" using assms(3) by linarith
  have "(len - start) * enc \<le> len * enc" by (simp add: mult_le_mono1)
  then have "u32 (int ((len - start) * enc)) = (len - start) * enc" using assms(3) by (intro u32_id) linarith
  then show ?thesis using u32_id [OF len] assms by (simp add: tail_bytes_def of_nat_diff)
qed

text \<open>What the three steps of an insertion without a change of width do to the cells.\<close>

lemma insert_cells:
  assumes enc: "encoding is \<in> {2, 4, 8}" and len: "length (contents is) = Suc (ilength is) * encoding is"
    and room: "Suc (ilength is) * encoding is < 2 ^ 32" and p: "p \<le> ilength is" and v: "fits (encoding is) v"
  obtains c where
    "bindr (if p < ilength is then intsetMoveTail is p (p + 1) else Inr is) (\<lambda>is. intset_set is (int p) v) = Inr (is\<lparr>contents := c\<rparr>)"
    "length c = length (contents is)" "le_int (cell (encoding is) c p) = v"
    "\<And>j. j < p \<Longrightarrow> cell (encoding is) c j = cell (encoding is) (contents is) j"
    "\<And>j. p < j \<Longrightarrow> j \<le> ilength is \<Longrightarrow> cell (encoding is) c j = cell (encoding is) (contents is) (j - 1)"
proof -
  let ?k = "encoding is" and ?n = "ilength is"
  have small: "?n * ?k < 2 ^ 32" using room by simp
  obtain c1 where c1: "(if p < ?n then intsetMoveTail is p (p + 1) else Inr is) = Inr (is\<lparr>contents := c1\<rparr>)"
      "length c1 = length (contents is)" "\<And>j. j < p \<Longrightarrow> cell ?k c1 j = cell ?k (contents is) j"
      "\<And>j. p < j \<Longrightarrow> j \<le> ?n \<Longrightarrow> cell ?k c1 j = cell ?k (contents is) (j - 1)"
  proof (cases "p < ?n")
    case True
    have "p + (?n - p) \<le> Suc ?n" "p + 1 + (?n - p) \<le> Suc ?n" using True by auto
    from memmove_cells [OF this, of ?k "contents is"] len obtain m where
        m: "memmove (contents is) (int (p + 1) * int ?k) (int p * int ?k) ((?n - p) * ?k) = Inr m"
          "length m = length (contents is)"
          "\<And>j. j < ?n - p \<Longrightarrow> cell ?k m (p + 1 + j) = cell ?k (contents is) (p + j)"
          "\<And>j. j < p + 1 \<or> p + 1 + (?n - p) \<le> j \<Longrightarrow> cell ?k m j = cell ?k (contents is) j"
      by auto
    have "cell ?k m j = cell ?k (contents is) (j - 1)" if "p < j" "j \<le> ?n" for j
      using m(3) [of "j - Suc p"] that by simp
    with that [of m] m True tail_bytes_exact [OF p enc small] enc show thesis
      by (simp add: intsetMoveTail_def Let_def)
  next
    case False
    with that [of "contents is"] p show thesis by simp
  qed
  obtain c where "intset_set (is\<lparr>contents := c1\<rparr>) (int p) v = Inr (is\<lparr>contents := c1\<rparr>\<lparr>contents := c\<rparr>)"
      "length c = length c1" "le_int (cell ?k c p) = v" "\<And>j. j \<noteq> p \<Longrightarrow> cell ?k c j = cell ?k c1 j"
    using intset_set_cell [of "is\<lparr>contents := c1\<rparr>" p "Suc ?n" v] enc p len v c1(2) by auto
  with that [of c] c1 show thesis by simp
qed

lemma upgrade_loop_cells:
  assumes "encoding is = k" "k \<in> {2, 4, 8}" "c \<in> {2, 4, 8}" "c \<le> k" "len + prepend \<le> n" "n * k \<le> length (contents is)"
  shows "\<exists>m. upgrade_loop len prepend c is = Inr (is\<lparr>contents := m\<rparr>) \<and> length m = length (contents is)
    \<and> (\<forall>i < len. le_int (cell k m (i + prepend)) = le_int (cell c (contents is) i))
    \<and> (\<forall>j \<ge> len + prepend. cell k m j = cell k (contents is) j)"
  using assms
proof (induction len arbitrary: "is")
  case (Suc len)
  let ?old = "contents is" and ?v = "le_int (cell c (contents is) len)"
  have room: "Suc len * c \<le> length ?old"
    using Suc.prems mult_le_mono [of "Suc len" n c k] by simp
  have get: "intsetGetEncoded is (int len) c = Inr ?v"
    using getEncoded_cell [of c len "Suc len"] Suc.prems(3) room by simp
  have "length (cell c ?old len) = c" using length_cell [of len "Suc len" c ?old] room by simp
  then have "fits k ?v" using fits_le_int [of "cell c ?old len"] Suc.prems(4) by (auto intro: fits_mono)
  then obtain m1 where m1: "intset_set is (int (len + prepend)) ?v = Inr (is\<lparr>contents := m1\<rparr>)"
      "length m1 = length ?old" "le_int (cell k m1 (len + prepend)) = ?v"
      "\<And>j. j \<noteq> len + prepend \<Longrightarrow> cell k m1 j = cell k ?old j"
      "\<And>j n. j + n \<le> (len + prepend) * k \<Longrightarrow> take n (drop j m1) = take n (drop j ?old)"
    using intset_set_cell [of "is" "len + prepend" n ?v] Suc.prems by auto
  have same: "cell c m1 i = cell c ?old i" if "i < len" for i
  proof -
    have "len * c \<le> (len + prepend) * k" using Suc.prems(4) by (intro mult_le_mono) auto
    then have "i * c + c \<le> (len + prepend) * k" using cell_before [OF that, of c] by linarith
    from m1(5) [OF this] show ?thesis by (simp add: cell_def)
  qed
  obtain m where "upgrade_loop len prepend c (is\<lparr>contents := m1\<rparr>) = Inr (is\<lparr>contents := m\<rparr>)" "length m = length m1"
      "\<forall>i < len. le_int (cell k m (i + prepend)) = le_int (cell c m1 i)"
      "\<forall>j \<ge> len + prepend. cell k m j = cell k m1 j"
    using Suc.IH [of "is\<lparr>contents := m1\<rparr>"] Suc.prems m1(2) by auto
  then show ?case using get m1 same by (auto simp: less_Suc_eq)
next
  case 0
  show ?case by (intro exI [where x = "contents is"]) simp
qed

lemma intset_vals_eqI:
  assumes "ilength is = length xs" "\<And>i. i < length xs \<Longrightarrow> le_int (cell (encoding is) (contents is) i) = xs ! i"
  shows "intset_vals is = xs"
  by (rule nth_equalityI) (use assms in \<open>auto simp: intset_vals_nth\<close>)

lemma insert_result:
  assumes "intset_ok is" "v \<notin> set (intset_vals is)" "enc \<in> {2, 4, 8}" "Suc (ilength is) * enc < 2 ^ 32"
    and "length c = Suc (ilength is) * enc"
    and "\<And>i. i \<le> ilength is \<Longrightarrow> le_int (cell enc c i) = insort v (intset_vals is) ! i"
  shows "let is' = \<lparr>encoding = enc, ilength = Suc (ilength is), contents = c\<rparr>
    in intset_ok is' \<and> intset_vals is' = insort v (intset_vals is)"
proof -
  let ?is = "\<lparr>encoding = enc, ilength = Suc (ilength is), contents = c\<rparr>"
  have "intset_vals ?is = insort v (intset_vals is)"
    by (rule intset_vals_eqI) (use assms(6) in auto)
  then show ?thesis using assms strict_insort [of "intset_vals is" v] by (simp add: intset_ok_def Let_def)
qed

lemma insert_nth:
  assumes "p \<le> length xs" "i \<le> length xs"
  shows "(take p xs @ v # drop p xs) ! i = (if i < p then xs ! i else if i = p then v else xs ! (i - 1))"
  using assms by (auto simp: nth_append nth_Cons')

lemma add_same_width:
  assumes ok: "intset_ok is" and v: "fits (encoding is) v" "v \<notin> set (intset_vals is)"
    and room: "Suc (ilength is) * encoding is < 2 ^ 32" and enc: "intsetValueEncoding v \<le> encoding is"
  shows "\<exists>is'. intsetAdd junk is v = Inr (is', True) \<and> encoding is' = encoding is
    \<and> ilength is' = Suc (ilength is) \<and> intset_ok is' \<and> intset_vals is' = insort v (intset_vals is)"
proof -
  let ?k = "encoding is" and ?n = "ilength is" and ?p = "ins_pos v (intset_vals is)"
  define big where "big = is\<lparr>contents := zrealloc junk (contents is) (Suc ?n * ?k)\<rparr>"
  have k: "?k \<in> {2, 4, 8}" "length (contents is) = ?n * ?k" using ok by (auto simp: intset_ok_def)
  have n: "u32 (int ?n + 1) = Suc ?n" using intset_ok_bounds(1) [OF ok] by (intro u32_Suc) simp
  have p: "?p \<le> ?n" using ins_pos_le [of v "intset_vals is"] by simp
  have cells: "cell ?k (contents big) j = cell ?k (contents is) j" if "j < ?n" for j
    unfolding big_def using cell_zrealloc [OF that] k(2) by simp
  obtain c where c: "bindr (if ?p < ?n then intsetMoveTail big ?p (?p + 1) else Inr big) (\<lambda>is. intset_set is (int ?p) v)
        = Inr (big\<lparr>contents := c\<rparr>)" "length c = Suc ?n * ?k" "le_int (cell ?k c ?p) = v"
      "\<And>j. j < ?p \<Longrightarrow> cell ?k c j = cell ?k (contents big) j"
      "\<And>j. ?p < j \<Longrightarrow> j \<le> ?n \<Longrightarrow> cell ?k c j = cell ?k (contents big) (j - 1)"
    using insert_cells [of big ?p v] k(1) room p v(1) by (auto simp: big_def)
  have "le_int (cell ?k c i) = insort v (intset_vals is) ! i" if "i \<le> ?n" for i
    unfolding insort_pos [symmetric] using that p c(3) c(4,5) [of i] cells
    by (auto simp: insert_nth intset_vals_nth)
  from insert_result [OF ok v(2) k(1) room c(2) this]
  have r: "intset_ok \<lparr>encoding = ?k, ilength = Suc ?n, contents = c\<rparr>"
      "intset_vals \<lparr>encoding = ?k, ilength = Suc ?n, contents = c\<rparr> = insort v (intset_vals is)" by (simp_all add: Let_def)
  have "intsetAdd junk is v = bindr (bindr (if ?p < ?n then intsetMoveTail big ?p (?p + 1) else Inr big)
      (\<lambda>is. intset_set is (int ?p) v)) (\<lambda>is. Inr (is\<lparr>ilength := u32 (int (ilength is) + 1)\<rparr>, True))"
    using v(2) enc room k(1) resize_room [OF k(1) room, of junk]
    by (simp add: intsetAdd_def intsetSearch_correct [OF ok] n bindr_assoc big_def)
  also have "\<dots> = Inr (\<lparr>encoding = ?k, ilength = Suc ?n, contents = c\<rparr>, True)"
    unfolding c(1) by (simp add: n big_def)
  finally show ?thesis using r by simp
qed

text \<open>A value that needs a wider encoding lies outside all elements, on the side of its sign.\<close>

lemma wider_outside:
  assumes ok: "intset_ok is" and "encoding is < intsetValueEncoding v" "fits 8 v"
  shows "insort v (intset_vals is) = (if v < 0 then v # intset_vals is else intset_vals is @ [v])"
proof -
  have nf: "\<not> fits (encoding is) v"
    using fits_encoding [OF assms(3), of "encoding is"] assms ok by (auto simp: intset_ok_def)
  have x: "fits (encoding is) x" if "x \<in> set (intset_vals is)" for x using fits_vals [OF ok that] .
  have "v \<le> x" if "x \<in> set (intset_vals is)" "v < 0" for x
    using x [OF that(1)] nf that(2) unfolding fits_def by linarith
  moreover have "x < v" if "x \<in> set (intset_vals is)" "0 \<le> v" for x
    using x [OF that(1)] nf that(2) unfolding fits_def by linarith
  moreover have "insort v xs = v # xs" if "\<forall>x \<in> set xs. v \<le> x" for xs using that by (cases xs) auto
  moreover have "insort v xs = xs @ [v]" if "\<forall>x \<in> set xs. x < v" for xs using that by (induction xs) auto
  ultimately show ?thesis by auto
qed

lemma add_wider:
  assumes ok: "intset_ok is" and v: "fits 8 v" and wider: "encoding is < intsetValueEncoding v"
    and room: "Suc (ilength is) * intsetValueEncoding v < 2 ^ 32"
  shows "\<exists>is'. intsetAdd junk is v = Inr (is', True) \<and> encoding is' = intsetValueEncoding v
    \<and> ilength is' = Suc (ilength is) \<and> intset_ok is' \<and> intset_vals is' = insort v (intset_vals is)"
proof -
  let ?c = "encoding is" and ?k = "intsetValueEncoding v" and ?n = "ilength is" and ?xs = "intset_vals is"
  let ?pre = "if v < 0 then 1 else 0 :: nat"
  define big where "big = is\<lparr>encoding := ?k, contents := zrealloc junk (contents is) (Suc ?n * ?k)\<rparr>"
  have c: "?c \<in> {2, 4, 8}" "length (contents is) = ?n * ?c" using ok by (auto simp: intset_ok_def)
  have k: "?k \<in> {2, 4, 8}" by (rule valueEncoding_range)
  have n: "u32 (int ?n + 1) = Suc ?n" using intset_ok_bounds(1) [OF ok] by (intro u32_Suc) simp
  have old: "cell ?c (contents big) j = cell ?c (contents is) j" if "j < ?n" for j
    using cell_zrealloc [OF that, of ?c "contents is" "Suc ?n * ?k" junk] c(2) wider mult_le_mono [of ?n "Suc ?n" ?c ?k]
    by (simp add: big_def)
  have big: "encoding big = ?k" "length (contents big) = Suc ?n * ?k" by (simp_all add: big_def)
  have "?n + ?pre \<le> Suc ?n" by simp
  from upgrade_loop_cells [OF big(1) k c(1) less_imp_le [OF wider] this] big(2)
  obtain m where m: "upgrade_loop ?n ?pre ?c big = Inr (big\<lparr>contents := m\<rparr>)" "length m = Suc ?n * ?k"
      "\<forall>i < ?n. le_int (cell ?k m (i + ?pre)) = le_int (cell ?c (contents is) i)"
    using old by (metis order_refl)
  have "fits ?k v" using fits_encoding [OF v k] by simp
  define up where "up = big\<lparr>contents := m\<rparr>"
  define pos where "pos = (if v < 0 then 0 else ?n)"
  have up: "encoding up = ?k" "contents up = m" "pos < Suc ?n" by (simp_all add: up_def big pos_def)
  obtain d where d: "intset_set up (int pos) v = Inr (up\<lparr>contents := d\<rparr>)" "length d = Suc ?n * ?k"
      "le_int (cell ?k d pos) = v" "\<And>j. j \<noteq> pos \<Longrightarrow> cell ?k d j = cell ?k m j"
    using intset_set_cell [of up pos "Suc ?n" v, unfolded up, OF k up(3) eq_refl [OF m(2) [symmetric]] \<open>fits ?k v\<close>] m(2)
    by metis
  have "le_int (cell ?k d i) = insort v ?xs ! i" if "i \<le> ?n" for i
  proof (cases "i = pos")
    case True
    then show ?thesis using d(3) wider_outside [OF ok wider v] by (auto simp: nth_append pos_def)
  next
    case False
    then have i: "i - ?pre < ?n" "i = i - ?pre + ?pre" using that by (auto simp: pos_def)
    have "insort v ?xs ! i = ?xs ! (i - ?pre)"
      using wider_outside [OF ok wider v] i False by (cases i) (auto simp: nth_append pos_def)
    then show ?thesis using d(4) [OF False] m(3) i intset_vals_nth [OF i(1)] by metis
  qed
  from insert_result [OF ok larger_not_member [OF ok v wider] k room d(2) this]
  have r: "intset_ok \<lparr>encoding = ?k, ilength = Suc ?n, contents = d\<rparr>"
      "intset_vals \<lparr>encoding = ?k, ilength = Suc ?n, contents = d\<rparr> = insort v ?xs" by (simp_all add: Let_def)
  have "intsetResize junk (is\<lparr>encoding := ?k\<rparr>) (Suc ?n) = Inr big"
    using resize_room [of "is\<lparr>encoding := ?k\<rparr>" "Suc ?n" junk] k room by (simp add: big_def)
  then have "intsetAdd junk is v = Inr (\<lparr>encoding = ?k, ilength = Suc ?n, contents = d\<rparr>, True)"
    using wider m(1) d(1) n
    by (cases "v < 0") (simp_all add: intsetAdd_def intsetUpgradeAndAdd_def Let_def up_def pos_def big_def)
  then show ?thesis using r by simp
qed

lemma intsetAdd_correct:
  assumes ok: "intset_ok is" and v: "fits 8 v"
    and room: "Suc (ilength is) * max (encoding is) (intsetValueEncoding v) < 2 ^ 32"
  shows "\<exists>is'. intsetAdd junk is v = Inr (is', v \<notin> set (intset_vals is)) \<and> intset_ok is'
    \<and> intset_vals is' = (if v \<in> set (intset_vals is) then intset_vals is else insort v (intset_vals is))
    \<and> encoding is' = max (encoding is) (intsetValueEncoding v)"
proof (cases "encoding is < intsetValueEncoding v")
  case True
  with add_wider [OF ok v True, of junk] room larger_not_member [OF ok v True] show ?thesis
    by (auto simp: max_def)
next
  case False
  then have enc: "intsetValueEncoding v \<le> encoding is" "max (encoding is) (intsetValueEncoding v) = encoding is" by auto
  show ?thesis
  proof (cases "v \<in> set (intset_vals is)")
    case True
    with enc ok show ?thesis by (simp add: intsetAdd_def intsetSearch_correct [OF ok])
  next
    case new: False
    have "fits (encoding is) v" using fits_encoding [OF v] enc(1) ok by (auto simp: intset_ok_def)
    from add_same_width [OF ok this new _ enc(1), of junk] room enc(2) new show ?thesis by auto
  qed
qed

lemma remove1_pos:
  assumes "sorted_wrt (<) (xs :: int list)" "v \<in> set xs"
  shows "remove1 v xs = take (ins_pos v xs) xs @ drop (Suc (ins_pos v xs)) xs"
  using assms by (induction xs) (auto simp: ins_pos_def)

lemma strict_remove1: "sorted_wrt (<) (xs :: int list) \<Longrightarrow> sorted_wrt (<) (remove1 v xs)"
  by (simp add: strict_sorted_iff sorted_remove1 distinct_remove1)

lemma remove1_nth:
  assumes "sorted_wrt (<) (xs :: int list)" "v \<in> set xs" "i < length xs - 1"
  shows "remove1 v xs ! i = (if i < ins_pos v xs then xs ! i else xs ! (i + 1))"
  using assms(3) ins_pos_le [of v xs] by (auto simp: remove1_pos [OF assms(1,2)] nth_append)

text \<open>What the two steps of a removal do to the cells.\<close>

lemma remove_cells:
  assumes enc: "encoding is \<in> {2, 4, 8}" and len: "length (contents is) = ilength is * encoding is"
    and small: "ilength is * encoding is < 2 ^ 32" and p: "p < ilength is"
  obtains c where
    "bindr (if p < ilength is - 1 then intsetMoveTail is (p + 1) p else Inr is) (\<lambda>s. intsetResize junk s (ilength is - 1))
       = Inr (is\<lparr>contents := c\<rparr>)"
    "length c = (ilength is - 1) * encoding is"
    "\<And>j. j < p \<Longrightarrow> cell (encoding is) c j = cell (encoding is) (contents is) j"
    "\<And>j. p \<le> j \<Longrightarrow> j < ilength is - 1 \<Longrightarrow> cell (encoding is) c j = cell (encoding is) (contents is) (j + 1)"
proof -
  let ?k = "encoding is" and ?n = "ilength is"
  obtain c1 where c1: "(if p < ?n - 1 then intsetMoveTail is (p + 1) p else Inr is) = Inr (is\<lparr>contents := c1\<rparr>)"
      "length c1 = length (contents is)" "\<And>j. j < p \<Longrightarrow> cell ?k c1 j = cell ?k (contents is) j"
      "\<And>j. p \<le> j \<Longrightarrow> j < ?n - 1 \<Longrightarrow> cell ?k c1 j = cell ?k (contents is) (j + 1)"
  proof (cases "p < ?n - 1")
    case True
    have "p + 1 + (?n - (p + 1)) \<le> ?n" "p + (?n - (p + 1)) \<le> ?n" using True by auto
    from memmove_cells [OF this, of ?k "contents is"] len obtain m where
        m: "memmove (contents is) (int p * int ?k) (int (p + 1) * int ?k) ((?n - (p + 1)) * ?k) = Inr m"
          "length m = length (contents is)"
          "\<And>j. j < ?n - (p + 1) \<Longrightarrow> cell ?k m (p + j) = cell ?k (contents is) (p + 1 + j)"
          "\<And>j. j < p \<or> p + (?n - (p + 1)) \<le> j \<Longrightarrow> cell ?k m j = cell ?k (contents is) j"
      by auto
    have "cell ?k m j = cell ?k (contents is) (j + 1)" if "p \<le> j" "j < ?n - 1" for j
      using m(3) [of "j - p"] that by simp
    with that [of m] m True tail_bytes_exact [of "p + 1" ?n ?k] enc small show thesis
      by (simp add: intsetMoveTail_def Let_def)
  next
    case False
    with that [of "contents is"] p show thesis by simp
  qed
  let ?c = "zrealloc junk c1 ((?n - 1) * ?k)"
  have "(?n - 1) * ?k \<le> ?n * ?k" by (simp add: mult_le_mono1)
  then have keep: "cell ?k ?c j = cell ?k c1 j" if "j < ?n - 1" for j
    using cell_zrealloc [OF that, of ?k c1] c1(2) len by simp
  have "(?n - 1) * ?k < 2 ^ 32" using small \<open>(?n - 1) * ?k \<le> ?n * ?k\<close> by linarith
  then have "intsetResize junk (is\<lparr>contents := c1\<rparr>) (?n - 1) = Inr (is\<lparr>contents := ?c\<rparr>)"
    using resize_room [of "is\<lparr>contents := c1\<rparr>" "?n - 1" junk] enc by simp
  with that [of ?c] c1 keep p show thesis by simp
qed

lemma intsetRemove_correct:
  assumes ok: "intset_ok is" and v: "fits 8 v"
  shows "\<exists>is'. intsetRemove junk is v = Inr (is', v \<in> set (intset_vals is)) \<and> intset_ok is'
    \<and> intset_vals is' = remove1 v (intset_vals is)"
proof (cases "v \<in> set (intset_vals is)")
  case False
  then have "remove1 v (intset_vals is) = intset_vals is" by (rule remove1_idem)
  with False ok show ?thesis by (simp add: intsetRemove_def intsetSearch_correct [OF ok])
next
  case True
  let ?k = "encoding is" and ?n = "ilength is" and ?xs = "intset_vals is"
  let ?p = "ins_pos v ?xs"
  have k: "?k \<in> {2, 4, 8}" "length (contents is) = ?n * ?k" "?n * ?k < 2 ^ 32" using ok by (auto simp: intset_ok_def)
  have enc: "intsetValueEncoding v \<le> ?k" using larger_not_member [OF ok v] True by (metis not_le)
  have sorted: "sorted_wrt (<) ?xs" using ok by (simp add: intset_ok_def)
  obtain j where j: "j < ?n" "?xs ! j = v" using True by (auto simp: in_set_conv_nth)
  have p: "?p < ?n" using sorted_mem_pos [OF sorted, of j] j by simp
  then have n: "u32 (int ?n - 1) = ?n - 1" using intset_ok_bounds(2) [OF ok] by (intro u32_pred) auto
  obtain c where c: "bindr (if ?p < ?n - 1 then intsetMoveTail is (?p + 1) ?p else Inr is) (\<lambda>s. intsetResize junk s (?n - 1))
        = Inr (is\<lparr>contents := c\<rparr>)" "length c = (?n - 1) * ?k"
      "\<And>j. j < ?p \<Longrightarrow> cell ?k c j = cell ?k (contents is) j"
      "\<And>j. ?p \<le> j \<Longrightarrow> j < ?n - 1 \<Longrightarrow> cell ?k c j = cell ?k (contents is) (j + 1)"
    by (rule remove_cells [OF k p, of junk]) (rule that)
  let ?is = "is\<lparr>contents := c, ilength := ?n - 1\<rparr>"
  have vals: "intset_vals ?is = remove1 v ?xs"
  proof (rule intset_vals_eqI)
    fix i
    assume i: "i < length (remove1 v ?xs)"
    then have "i < ?n - 1" using True by (simp add: length_remove1)
    then show "le_int (cell (encoding ?is) (contents ?is) i) = remove1 v ?xs ! i"
      using remove1_nth [OF sorted True, of i] c(3,4) [of i] by (simp add: intset_vals_nth)
  qed (use True in \<open>simp add: length_remove1\<close>)
  have "(?n - 1) * ?k \<le> ?n * ?k" by (simp add: mult_le_mono1)
  then have "(?n - 1) * ?k < 2 ^ 32" using k(3) by linarith
  then have "intset_ok ?is" using k(1) c(2) vals strict_remove1 [OF sorted, of v] by (simp add: intset_ok_def)
  moreover have "intsetRemove junk is v = bindr (bindr (if ?p < ?n - 1 then intsetMoveTail is (?p + 1) ?p else Inr is)
      (\<lambda>s. intsetResize junk s (?n - 1))) (\<lambda>s. Inr (s\<lparr>ilength := ?n - 1\<rparr>, True))"
    using True enc by (simp add: intsetRemove_def intsetSearch_correct [OF ok] n Let_def bindr_assoc)
  ultimately show ?thesis using c(1) vals True by simp
qed

section \<open>Reading and validating\<close>

definition intset_shape :: "intset \<Rightarrow> bool" where
  "intset_shape is \<longleftrightarrow> encoding is \<in> {2, 4, 8} \<and> length (contents is) = ilength is * encoding is
     \<and> ilength is * encoding is < 2 ^ 32"

lemma intset_ok_shape: "intset_ok is \<longleftrightarrow> intset_shape is \<and> sorted_wrt (<) (intset_vals is)"
  by (auto simp: intset_ok_def intset_shape_def)

lemma shape_get_nth:
  assumes "intset_shape is" "i < ilength is"
  shows "intset_get is (int_cast (int i)) = Inr (intset_vals is ! i)"
proof -
  have "ilength is * 2 \<le> ilength is * encoding is" using assms(1) by (auto simp: intset_shape_def)
  then have "ilength is * 2 < 2 ^ 32" using assms(1) unfolding intset_shape_def by (blast intro: le_less_trans)
  then have "int_cast (int i) = int i" using assms(2) by (simp add: in_int_def INT_MAX_def INT_MIN_def)
  then show ?thesis using assms getEncoded_cell [of "encoding is" i "ilength is" "is"]
    by (simp add: intset_get_def intset_shape_def intset_vals_nth)
qed

lemma order_loop_sorted:
  assumes "intset_shape is"
  shows "i + n = ilength is \<Longrightarrow> 0 < i \<Longrightarrow>
    order_loop n is i (intset_vals is ! (i - 1)) = Inr (sorted_wrt (<) (drop (i - 1) (intset_vals is)))"
proof (induction n arbitrary: i)
  case 0
  then have "drop (i - 1) (intset_vals is) = [intset_vals is ! (i - 1)]"
    by (simp add: Cons_nth_drop_Suc [symmetric])
  then show ?case by simp
next
  case (Suc n)
  let ?xs = "intset_vals is"
  have i: "i < ilength is" using Suc.prems(1) by simp
  have d: "drop (i - 1) ?xs = ?xs ! (i - 1) # ?xs ! i # drop (Suc i) ?xs"
    using i Suc.prems(2) Cons_nth_drop_Suc [of "i - 1" ?xs] Cons_nth_drop_Suc [of i ?xs] by simp
  have "sorted_wrt (<) (drop (i - 1) ?xs) \<longleftrightarrow> ?xs ! (i - 1) < ?xs ! i \<and> sorted_wrt (<) (drop i ?xs)"
    unfolding d sorted_wrt2 [OF transp_on_less] using i by (simp add: Cons_nth_drop_Suc)
  then show ?case using Suc.IH [of "i + 1"] Suc.prems shape_get_nth [OF assms i] by (auto simp: not_le)
qed

lemma le_nat_small: "x < 256 ^ k \<Longrightarrow> le_nat (to_le k (int x)) = x"
proof -
  assume "x < 256 ^ k"
  then have "int x mod 256 ^ k = int x" by (metis mod_pos_pos_trivial of_nat_0_le_iff of_nat_less_iff of_nat_numeral of_nat_power)
  then show ?thesis using le_nat_to_le [of k "int x"] by linarith
qed

lemma intset_at_blob:
  "encoding is < 2 ^ 32 \<Longrightarrow> ilength is < 2 ^ 32 \<Longrightarrow> intset_at (intset_blob is) = is"
  using le_nat_small [of "encoding is" 4] le_nat_small [of "ilength is" 4]
  by (simp add: intset_at_def intset_blob_def)

lemma validate_header:
  assumes "length p < 2 ^ 32"
  shows "intset_shape (intset_at p) \<and> 8 \<le> length p \<longleftrightarrow>
    (let is = intset_at p in encoding is \<in> {2, 4, 8} \<and> length p = 8 + ilength is * encoding is)"
proof -
  have aux: "((E \<and> l - 8 = x \<and> x < 2 ^ 32) \<and> 8 \<le> l) = (E \<and> l = 8 + x)" if "l < 2 ^ 32" for E and l x :: nat
    using that by auto
  have "length (contents (intset_at p)) = length p - 8" by (simp add: intset_at_def)
  then show ?thesis unfolding intset_shape_def Let_def by (simp only: aux [OF assms])
qed

lemma header_size:
  assumes "encoding (intset_at p) \<in> {2, 4, 8}"
  shows "u64 (8 + int (ilength (intset_at p)) * int (encoding (intset_at p))) = 8 + ilength (intset_at p) * encoding (intset_at p)"
proof -
  have "le_nat (take 4 (drop 4 p)) < 256 ^ length (take 4 (drop 4 p))" by (rule le_nat_bound)
  also have "\<dots> \<le> 256 ^ 4" by (intro power_increasing) auto
  finally have "ilength (intset_at p) < 2 ^ 32" by (simp add: intset_at_def)
  then have "8 + ilength (intset_at p) * encoding (intset_at p) < 2 ^ 64" using assms by auto
  from u64_id [OF this] show ?thesis by simp
qed

lemma validate_unfold:
  "intsetValidateIntegrity p deep =
     (let is = intset_at p in
      if \<not> (8 \<le> length p \<and> encoding is \<in> {2, 4, 8} \<and> length p = 8 + ilength is * encoding is \<and> 0 < ilength is) then Inr False
      else if deep then bindr (intset_get is 0) (\<lambda>prev. order_loop (ilength is - 1) is 1 prev) else Inr True)"
proof (cases "encoding (intset_at p) \<in> {2, 4, 8}")
  case True
  then show ?thesis unfolding intsetValidateIntegrity_def Let_def header_size [OF True] by auto
next
  case False
  then show ?thesis unfolding intsetValidateIntegrity_def Let_def by simp
qed

lemma validate_iff:
  assumes "length p < 2 ^ 32"
  shows "intsetValidateIntegrity p deep = Inr (8 \<le> length p \<and> intset_shape (intset_at p) \<and> 0 < ilength (intset_at p)
    \<and> (deep \<longrightarrow> sorted_wrt (<) (intset_vals (intset_at p))))"
proof -
  let ?is = "intset_at p"
  have head: "8 \<le> length p \<and> encoding ?is \<in> {2, 4, 8} \<and> length p = 8 + ilength ?is * encoding ?is \<and> 0 < ilength ?is
      \<longleftrightarrow> 8 \<le> length p \<and> intset_shape ?is \<and> 0 < ilength ?is"
    using validate_header [OF assms] unfolding Let_def by blast
  have "bindr (intset_get ?is 0) (\<lambda>prev. order_loop (ilength ?is - 1) ?is 1 prev) = Inr (sorted_wrt (<) (intset_vals ?is))"
    if "intset_shape ?is" "0 < ilength ?is"
    using shape_get_nth [OF that] order_loop_sorted [OF that(1), of 1 "ilength ?is - 1"] that(2)
    by (simp add: int_cast_def)
  then show ?thesis unfolding validate_unfold Let_def head by auto
qed

section \<open>Properties\<close>

definition small_intset :: intset where
  "small_intset = \<lparr>encoding = 2, ilength = 2, contents = [0xFF, 0xFF, 7, 0]\<rparr>"

lemma small_intset_ok: "intset_ok small_intset" "intset_vals small_intset = [-1, 7]"
    "encoding small_intset = 2" "ilength small_intset = 2"
proof -
  show "intset_vals small_intset = [-1, 7]"
    by (simp add: small_intset_def intset_vals_def cell_def le_int_def Let_def upt_rec)
  then show "intset_ok small_intset" by (simp add: intset_ok_def small_intset_def)
qed (simp_all add: small_intset_def)

text \<open>
  C19: \<open>intsetAdd\<close> implements insertion into a set of integers. On a well-formed intset with room
  for one more element it returns, reports whether the value was new, and leaves a well-formed
  intset whose sorted elements are the old ones and the value; the width of the elements
  grows exactly when the value needs it.
\<close>

theorem intset_add_refines:
  assumes "intset_ok is" "fits 8 v" "Suc (ilength is) * max (encoding is) (intsetValueEncoding v) < 2 ^ 32"
  shows "\<exists>is'. intsetAdd junk is v = Inr (is', v \<notin> set (intset_vals is)) \<and> intset_ok is'
    \<and> set (intset_vals is') = insert v (set (intset_vals is))
    \<and> encoding is' = max (encoding is) (intsetValueEncoding v)"
  using intsetAdd_correct [OF assms, of junk] by (auto simp: set_insort_key)

theorem intset_add_refines_witness:
  "\<exists>is'. intsetAdd (\<lambda>_. 0) small_intset 100000 = Inr (is', True) \<and> intset_ok is'
    \<and> set (intset_vals is') = {100000, -1, 7} \<and> encoding is' = 4"
  using intset_add_refines [OF small_intset_ok(1), of 100000 "\<lambda>_. 0"]
  by (simp add: fits_def small_intset_ok(2-4) intsetValueEncoding_def)



text \<open>
  C21: deep validation of a serialized intset accepts exactly the byte strings that hold a
  well-formed, nonempty intset, and never reads outside them.
\<close>

theorem intset_validate_exact:
  assumes "length p < 2 ^ 32"
  shows "intsetValidateIntegrity p True = Inr (8 \<le> length p \<and> intset_ok (intset_at p) \<and> 0 < intsetLen (intset_at p))"
  using validate_iff [OF assms, of True] by (auto simp: intset_ok_shape intsetLen_def)

theorem intset_validate_exact_witness:
  "intsetValidateIntegrity (intset_blob small_intset) True = Inr True"
proof -
  have "intset_at (intset_blob small_intset) = small_intset"
    by (rule intset_at_blob) (simp_all add: small_intset_def)
  then show ?thesis using intset_validate_exact [of "intset_blob small_intset"] small_intset_ok
    by (simp add: intset_blob_def small_intset_def intsetLen_def)
qed



text \<open>
  C23: the byte count of \<open>intsetMoveTail\<close> is exact as long as the tail takes less than 4 GiB, and
  wraps to zero for a tail of \<open>2\<^sup>29\<close> eight-byte elements.
\<close>

theorem intset_tail_bytes:
  assumes "start \<le> len" "enc \<in> {2, 4, 8}" "len * enc < 2 ^ 32"
  shows "tail_bytes len start enc = (len - start) * enc \<and> tail_bytes (start + 2 ^ 29) start 8 = 0"
  using tail_bytes_exact [OF assms] by (simp add: tail_bytes_def u32_def enc_size_def)

theorem intset_tail_bytes_witness:
  "tail_bytes 10 4 8 = (10 - 4) * 8 \<and> tail_bytes (4 + 2 ^ 29) 4 8 = 0"
  by (rule intset_tail_bytes) simp_all

end
