(* ===== verification/Numbers.thy ===== *)
theory Numbers
  imports Memory
begin

text \<open>
  The conversions between numbers and strings of \<open>util.c\<close>. Output buffers are lists of
  characters whose length is the \<open>dstlen\<close> of the source; writes outside crash. Strings with
  an explicit length are lists of that length; strings that end with a NUL are lists
  without it.

  The lemmas relate the optimised routines to the plain decimal notation of \<open>Prelude\<close>:
  \<open>digits10\<close> is the length of the notation, \<open>ull2string\<close> and \<open>ll2string\<close> write it, and
  \<open>string2ll\<close> accepts exactly the strings that \<open>ll2string\<close> produces.
\<close>

section \<open>The functions\<close>

definition ULLONG_MAX :: nat where "ULLONG_MAX = 18446744073709551615"

definition lower :: "char \<Rightarrow> char" where
  "lower c = (if 65 \<le> (of_char c :: nat) \<and> (of_char c :: nat) \<le> 90 then char_of ((of_char c :: nat) + 32) else c)"

definition strcasecmp_eq :: "string \<Rightarrow> string \<Rightarrow> bool" where
  "strcasecmp_eq s t \<longleftrightarrow> map lower s = map lower t"

text \<open>
  \<open>strtoull\<close> in base 10: the value saturates, the pair holds the value and the rest; a
  leading minus negates the value in the unsigned type.
\<close>

definition strtoull :: "string \<Rightarrow> nat \<times> string \<times> bool" where
  "strtoull s =
     (let (neg, ds) = strtol_sign s; v = dec_value 0 (takeWhile is_digit ds) in
      if takeWhile is_digit ds = [] then (0, s, False)
      else if v > ULLONG_MAX then (ULLONG_MAX, dropWhile is_digit ds, True)
      else (if neg then u64 (- int v) else v, dropWhile is_digit ds, False))"

text \<open>\<open>None\<close> is \<open>*err = 1\<close>.\<close>

definition memtoull :: "string \<Rightarrow> nat option" where
  "memtoull p =
     (if p \<noteq> [] \<and> hd p = CHR ''-'' then None
      else
        let digits = takeWhile is_digit p; u = dropWhile is_digit p;
            mul = (if u = [] \<or> strcasecmp_eq u ''b'' then Some 1
                   else if strcasecmp_eq u ''k'' then Some 1000
                   else if strcasecmp_eq u ''kb'' then Some 1024
                   else if strcasecmp_eq u ''m'' then Some (1000 * 1000)
                   else if strcasecmp_eq u ''mb'' then Some (1024 * 1024)
                   else if strcasecmp_eq u ''g'' then Some (1000 * 1000 * 1000)
                   else if strcasecmp_eq u ''gb'' then Some (1024 * 1024 * 1024)
                   else None)
        in case mul of
             None \<Rightarrow> None
           | Some mul \<Rightarrow>
               if length digits \<ge> 128 then None
               else case strtoull digits of (val, endptr, erange) \<Rightarrow>
                      if endptr \<noteq> [] then None else Some (u64 (int val * int mul)))"

fun mempbrk :: "string \<Rightarrow> string \<Rightarrow> string option" where
  "mempbrk [] chars = None"
| "mempbrk (c # s) chars = (if list_ex (\<lambda>x. c = x) chars then Some (c # s) else mempbrk s chars)"

fun map_char :: "char \<Rightarrow> (char \<times> char) list \<Rightarrow> char" where
  "map_char c [] = c"
| "map_char c ((f, t) # ps) = (if c = f then t else map_char c ps)"

definition memmapchars :: "string \<Rightarrow> string \<Rightarrow> string \<Rightarrow> string" where
  "memmapchars s src dst = map (\<lambda>c. map_char c (zip src dst)) s"

fun digits10 :: "nat \<Rightarrow> nat" where
  "digits10 v =
     (if v < 10 then 1
      else if v < 100 then 2
      else if v < 1000 then 3
      else if v < 1000000000000 then
        if v < 100000000 then
          if v < 1000000 then
            if v < 10000 then 4 else 5 + of_bool (v \<ge> 100000)
          else 7 + of_bool (v \<ge> 10000000)
        else if v < 10000000000 then 9 + of_bool (v \<ge> 1000000000)
        else 11 + of_bool (v \<ge> 100000000000)
      else 12 + digits10 (v div 1000000000000))"

declare digits10.simps [simp del]

definition sdigits10 :: "int \<Rightarrow> nat" where
  "sdigits10 v =
     (if v < 0 then
        let uv = (if v \<noteq> LONG_MIN then u64 (- v) else u64 LONG_MAX + 1) in digits10 uv + 1
      else digits10 (nat v))"

definition store :: "'a list \<Rightarrow> nat \<Rightarrow> 'a \<Rightarrow> 'a list res" where
  "store dst i c = (if i < length dst then Inr (dst[i := c]) else Inl OutOfBounds)"

definition digit_pairs :: string where
  "digit_pairs =
     ''0001020304050607080910111213141516171819'' @
     ''2021222324252627282930313233343536373839'' @
     ''4041424344454647484950515253545556575859'' @
     ''6061626364656667686970717273747576777879'' @
     ''8081828384858687888990919293949596979899''"

function ull_loop :: "string \<Rightarrow> nat \<Rightarrow> nat \<Rightarrow> (string \<times> nat \<times> nat) res" where
  "ull_loop dst next value =
     (if value \<ge> 100 then
        let i = (value mod 100) * 2 in
        bindr (store dst next (digit_pairs ! (i + 1))) (\<lambda>dst.
        bindr (store dst (u32 (int next - 1)) (digit_pairs ! i)) (\<lambda>dst.
          ull_loop dst (u32 (int next - 2)) (value div 100)))
      else Inr (dst, next, value))"
  by pat_completeness auto
termination by (relation "measure (\<lambda>(dst, next, value). value)") auto

declare ull_loop.simps [simp del]

definition nul_terminate :: "string \<Rightarrow> string res" where
  "nul_terminate dst = (if length dst > 0 then store dst 0 (CHR 0x00) else Inr dst)"

definition ull2string :: "string \<Rightarrow> nat \<Rightarrow> (nat \<times> string) res" where
  "ull2string dst value =
     (let len = digits10 value in
      if len \<ge> length dst then bindr (nul_terminate dst) (\<lambda>dst. Inr (0, dst))
      else
        let next = u32 (int len - 1) in
        bindr (store dst (next + 1) (CHR 0x00)) (\<lambda>dst.
        bindr (ull_loop dst next value) (\<lambda>(dst, next, value).
        bindr (if value < 10 then store dst next (digit_char value)
               else
                 let i = value * 2 in
                 bindr (store dst next (digit_pairs ! (i + 1))) (\<lambda>dst.
                   store dst (u32 (int next - 1)) (digit_pairs ! i)))
          (\<lambda>dst. Inr (len, dst)))))"

definition ll2string :: "string \<Rightarrow> int \<Rightarrow> (nat \<times> string) res" where
  "ll2string dst svalue =
     (if svalue < 0 then
        let value = (if svalue \<noteq> LONG_MIN then u64 (- svalue) else u64 LONG_MAX + 1) in
        if length dst < 2 then bindr (nul_terminate dst) (\<lambda>dst. Inr (0, dst))
        else
          bindr (ull2string (tl dst) value) (\<lambda>(len, rest).
            Inr (if len = 0 then 0 else len + 1, CHR ''-'' # rest))
      else ull2string dst (u64 svalue))"

fun s2ll_loop :: "nat \<Rightarrow> string \<Rightarrow> (nat \<times> string) option" where
  "s2ll_loop v [] = Some (v, [])"
| "s2ll_loop v (c # p) =
     (if is_digit c then
        if v > ULLONG_MAX div 10 then None
        else if v * 10 > ULLONG_MAX - digit_val c then None
        else s2ll_loop (v * 10 + digit_val c) p
      else Some (v, c # p))"

definition string2ll :: "string \<Rightarrow> int option" where
  "string2ll s =
     (if length s = 0 \<or> length s \<ge> 21 then None
      else if length s = 1 \<and> s ! 0 = CHR ''0'' then Some 0
      else
        let negative = (s ! 0 = CHR ''-''); p = (if negative then tl s else s) in
        if p = [] then None
        else if is_digit (p ! 0) \<and> p ! 0 \<noteq> CHR ''0'' then
          case s2ll_loop (digit_val (p ! 0)) (tl p) of
            None \<Rightarrow> None
          | Some (v, rest) \<Rightarrow>
              if rest \<noteq> [] then None
              else if negative then
                if v > u64 (- (LONG_MIN + 1)) + 1 then None else Some (- int v)
              else if int v > LONG_MAX then None else Some (int v)
        else None)"

definition string2ull :: "string \<Rightarrow> nat option" where
  "string2ull s =
     (case string2ll s of
        Some ll \<Rightarrow> if ll < 0 then None else Some (nat ll)
      | None \<Rightarrow>
          (case strtoull s of (v, endptr, erange) \<Rightarrow>
             if erange \<or> \<not> (s \<noteq> [] \<and> endptr = []) then None else Some v))"

definition string2l :: "string \<Rightarrow> int option" where
  "string2l s =
     (case string2ll s of
        None \<Rightarrow> None
      | Some ll \<Rightarrow> if ll < LONG_MIN \<or> ll > LONG_MAX then None else Some ll)"

definition safe_is_c_in_range :: "char \<Rightarrow> char \<Rightarrow> char \<Rightarrow> bool" where
  "safe_is_c_in_range c start end' \<longleftrightarrow>
     (of_char start :: nat) \<le> of_char c \<and> of_char c \<le> (of_char end' :: nat)"

definition base_16_char_type :: "char \<Rightarrow> int" where
  "base_16_char_type c =
     (if safe_is_c_in_range c (CHR ''0'') (CHR ''9'') then 0
      else if safe_is_c_in_range c (CHR ''a'') (CHR ''f'') then 1
      else if safe_is_c_in_range c (CHR ''A'') (CHR ''F'') then 2
      else -1)"

definition hex_val :: "char \<Rightarrow> int \<Rightarrow> nat" where
  "hex_val c char_type =
     of_char c - (if char_type = 0 then 48 else if char_type = 1 then 97 - 10 else 65 - 10)"

text \<open>\<open>src\<close> holds the readable bytes, the terminating NUL included: the loop looks at
  \<open>src[slen]\<close> before it compares the index with \<open>slen\<close>. \<open>Inr None\<close> is the result \<open>-1\<close>.\<close>

function base16_loop :: "string \<Rightarrow> nat \<Rightarrow> nat \<Rightarrow> nat \<Rightarrow> nat option res" where
  "base16_loop src slen idx result =
     (if idx \<ge> length src then Inl OutOfBounds
      else
        let char_type = base_16_char_type (src ! idx) in
        if char_type \<noteq> -1 \<and> idx < slen then
          let curr_val = hex_val (src ! idx) char_type in
          if result > ULLONG_MAX div 16 \<or> result > (ULLONG_MAX - curr_val) div 16 then Inr None
          else base16_loop src slen (idx + 1) (result * 16 + curr_val)
        else Inr (Some result))"
  by pat_completeness auto
termination by (relation "measure (\<lambda>(src, slen, idx, result). length src - idx)") auto

declare base16_loop.simps [simp del]

definition string2ul_base16_async_signal_safe :: "string \<Rightarrow> nat \<Rightarrow> nat option res" where
  "string2ul_base16_async_signal_safe src slen = base16_loop src slen 0 0"

section \<open>Decimal notation\<close>

lemma length_decimal_rec: "length (decimal n) = (if n < 10 then 1 else Suc (length (decimal (n div 10))))"
  by (simp add: decimal.simps [of n])

lemma length_decimal_pow: "10 ^ k \<le> n \<Longrightarrow> length (decimal n) = k + length (decimal (n div 10 ^ k))"
proof (induction k arbitrary: n)
  case (Suc k)
  then have "10 \<le> n" by (metis le_trans one_le_numeral one_le_power mult_le_mono2 mult.right_neutral power_Suc)
  moreover have "10 ^ k \<le> n div 10" using Suc.prems by (simp add: less_eq_div_iff_mult_less_eq)
  ultimately show ?case using Suc.IH [of "n div 10"] by (simp add: length_decimal_rec [of n] div_mult2_eq)
qed simp

lemma length_decimal_between:
  assumes "10 ^ k \<le> n" "n < 10 ^ Suc k"
  shows "length (decimal n) = Suc k"
proof -
  have "n div 10 ^ k < 10" using assms(2) by (simp add: div_less_iff_less_mult)
  then show ?thesis using length_decimal_pow [OF assms(1)] by (simp add: length_decimal_rec [of "n div 10 ^ k"])
qed

lemma decimal_magnitude:
  assumes "0 < (n :: nat)"
  shows "\<exists>k. 10 ^ k \<le> n \<and> n < 10 ^ Suc k"
  using assms
proof (induction n rule: decimal.induct)
  case (1 n)
  show ?case
  proof (cases "n < 10")
    case True
    with 1 show ?thesis by (intro exI [where x = 0]) simp
  next
    case False
    then have "0 < n div 10" by (simp add: div_greater_zero_iff)
    with False obtain k where "10 ^ k \<le> n div 10" "n div 10 < 10 ^ Suc k" using 1 by auto
    then show ?thesis
      by (intro exI [where x = "Suc k"]) (simp add: less_eq_div_iff_mult_less_eq div_less_iff_less_mult mult.commute)
  qed
qed

lemma digits10_small: "10 ^ k \<le> v \<Longrightarrow> v < 10 ^ Suc k \<Longrightarrow> k < 12 \<Longrightarrow> digits10 v = Suc k"
proof -
  assume v: "10 ^ k \<le> v" "v < 10 ^ Suc k" and "k < 12"
  from \<open>k < 12\<close> have "k \<in> set [0..<12]" by simp
  then have "k \<in> {0, 1, 2, 3, 4, 5, 6, 7, 8, 9, 10, 11}" by (auto simp add: upt_rec numeral_eq_Suc)
  with v show ?thesis by (elim insertE emptyE) (simp_all add: digits10.simps [of v])
qed

lemma digits10_length: "digits10 v = length (decimal v)"
proof (induction v rule: digits10.induct)
  case (1 v)
  consider "v = 0" | "0 < v" "v < 10 ^ 12" | "10 ^ 12 \<le> v" by linarith
  then show ?case
  proof cases
    case 1
    then show ?thesis by (simp add: digits10.simps [of 0] decimal.simps [of 0])
  next
    case 2
    then obtain k where k: "10 ^ k \<le> v" "v < 10 ^ Suc k" using decimal_magnitude by blast
    then have "(10 :: nat) ^ k < 10 ^ 12" using 2 by linarith
    then have "k < 12" by (simp only: power_strict_increasing_iff)
    then show ?thesis using digits10_small [OF k] length_decimal_between [OF k] by simp
  next
    case 3
    then have "digits10 v = 12 + digits10 (v div 1000000000000)" by (simp add: digits10.simps [of v])
    then show ?thesis using 1 3 length_decimal_pow [OF 3] by simp
  qed
qed

section \<open>Writing numbers\<close>

lemma digit_chars:
  "digit_char 0 = CHR ''0''" "digit_char (Suc 0) = CHR ''1''" "digit_char 2 = CHR ''2''"
  "digit_char 3 = CHR ''3''" "digit_char 4 = CHR ''4''" "digit_char 5 = CHR ''5''" "digit_char 6 = CHR ''6''"
  "digit_char 7 = CHR ''7''" "digit_char 8 = CHR ''8''" "digit_char 9 = CHR ''9''"
proof -
  have "map digit_char [0, 1, 2, 3, 4, 5, 6, 7, 8, 9] = ''0123456789''" by code_simp
  then show "digit_char 0 = CHR ''0''" "digit_char (Suc 0) = CHR ''1''" "digit_char 2 = CHR ''2''"
    "digit_char 3 = CHR ''3''" "digit_char 4 = CHR ''4''" "digit_char 5 = CHR ''5''" "digit_char 6 = CHR ''6''"
    "digit_char 7 = CHR ''7''" "digit_char 8 = CHR ''8''" "digit_char 9 = CHR ''9''" by simp_all
qed

lemma upt_100: "[0..<100 :: nat] = [0, 1, 2, 3, 4, 5, 6, 7, 8, 9, 10, 11, 12, 13, 14, 15, 16, 17, 18, 19,
    20, 21, 22, 23, 24, 25, 26, 27, 28, 29, 30, 31, 32, 33, 34, 35, 36, 37, 38, 39, 40, 41, 42, 43, 44, 45, 46,
    47, 48, 49, 50, 51, 52, 53, 54, 55, 56, 57, 58, 59, 60, 61, 62, 63, 64, 65, 66, 67, 68, 69, 70, 71, 72, 73,
    74, 75, 76, 77, 78, 79, 80, 81, 82, 83, 84, 85, 86, 87, 88, 89, 90, 91, 92, 93, 94, 95, 96, 97, 98, 99]"
  by code_simp

lemma digit_pairs_concat:
  "digit_pairs = concat (map (\<lambda>k. [digit_char (k div 10), digit_char (k mod 10)]) [0..<100])"
  unfolding upt_100 digit_pairs_def by (simp add: digit_chars)

lemma nth_pairs:
  "k < length xs \<Longrightarrow> concat (map (\<lambda>k. [f k, g k]) xs) ! (k * 2) = f (xs ! k)
    \<and> concat (map (\<lambda>k. [f k, g k]) xs) ! Suc (k * 2) = g (xs ! k)"
  by (induction xs arbitrary: k) (auto simp: nth_Cons' less_Suc_eq_0_disj)

lemma digit_pairs_nth:
  assumes "k < 100"
  shows "digit_pairs ! (k * 2) = digit_char (k div 10)" "digit_pairs ! Suc (k * 2) = digit_char (k mod 10)"
  using nth_pairs [of k "[0..<100]" "\<lambda>k. digit_char (k div 10)" "\<lambda>k. digit_char (k mod 10)"] assms
  by (simp_all add: digit_pairs_concat)

lemma decimal_pair:
  assumes "10 \<le> v" "v < 100"
  shows "decimal v = [digit_char (v div 10), digit_char (v mod 10)]"
  using assms decimal.simps [of v] decimal.simps [of "v div 10"] by simp

lemma decimal_100:
  assumes "100 \<le> v"
  shows "decimal v = decimal (v div 100) @ [digit_char (v mod 100 div 10), digit_char (v mod 100 mod 10)]"
proof -
  have "v mod 100 = 10 * (v div 10 mod 10) + v mod 10" using mod_mult2_eq [of v 10 10] by simp
  then have "v mod 100 div 10 = v div 10 mod 10" "v mod 100 mod 10 = v mod 10" by simp_all
  moreover have "\<not> v div 10 < 10" using assms by (simp add: div_less_iff_less_mult)
  moreover have "v div 10 div 10 = v div 100" by (simp add: div_mult2_eq [symmetric])
  ultimately show ?thesis using assms decimal.simps [of v] decimal.simps [of "v div 10"] by simp
qed

lemma store_update [simp]: "i < length dst \<Longrightarrow> store dst i c = Inr (dst[i := c])"
  by (simp add: store_def)

text \<open>The digits end at position \<open>next\<close>; \<open>p\<close> is where they begin.\<close>

definition ull_digits :: "string \<Rightarrow> nat \<Rightarrow> nat \<Rightarrow> string res" where
  "ull_digits dst next value =
     bindr (ull_loop dst next value) (\<lambda>(dst, next, value).
       if value < 10 then store dst next (digit_char value)
       else
         let i = value * 2 in
         bindr (store dst next (digit_pairs ! (i + 1))) (\<lambda>dst. store dst (u32 (int next - 1)) (digit_pairs ! i)))"

lemma update_two:
  assumes "Suc q < length dst"
  shows "dst[Suc q := b, q := a] = take q dst @ [a, b] @ drop (q + 2) dst"
proof -
  have "dst[Suc q := b] = take q dst @ [dst ! q, b] @ drop (q + 2) dst"
    using assms id_take_nth_drop [of q dst] upd_conv_take_nth_drop [of "Suc q" dst b]
    by (simp add: take_Suc_conv_app_nth)
  then show ?thesis using assms by (simp add: list_update_append)
qed

lemma u32_minus: "k \<le> n \<Longrightarrow> n < 2 ^ 32 \<Longrightarrow> u32 (int n - int k) = n - k"
  using u32_id [of "n - k"] by (simp add: of_nat_diff)

lemma ull_digits_writes:
  assumes "p + length (decimal v) \<le> length dst" "length dst < 2 ^ 32"
  shows "ull_digits dst (p + length (decimal v) - 1) v = Inr (take p dst @ decimal v @ drop (p + length (decimal v)) dst)"
  using assms
proof (induction v arbitrary: dst rule: less_induct)
  case (less v)
  consider "v < 10" | "10 \<le> v" "v < 100" | "100 \<le> v" by linarith
  then show ?case
  proof cases
    case 1
    then have "decimal v = [digit_char v]" by (simp add: decimal.simps)
    with 1 less.prems show ?thesis
      by (simp add: ull_digits_def ull_loop.simps upd_conv_take_nth_drop)
  next
    case 2
    have "u32 (int (Suc p) - int 1) = p" using u32_minus [of 1 "Suc p"] less.prems decimal_pair [OF 2] by simp
    with 2 less.prems decimal_pair [OF 2] show ?thesis
      by (simp add: ull_digits_def ull_loop.simps Let_def digit_pairs_nth update_two)
  next
    case 3
    let ?w = "v div 100" and ?l = "length (decimal (v div 100))"
    let ?a = "digit_char (v mod 100 div 10)" and ?b = "digit_char (v mod 100 mod 10)"
    have dec: "decimal v = decimal ?w @ [?a, ?b]" by (rule decimal_100 [OF 3])
    let ?dst = "take (p + ?l) dst @ [?a, ?b] @ drop (p + ?l + 2) dst"
    have room: "Suc (p + ?l) < length dst" using less.prems(1) dec by simp
    have l: "0 < ?l" by simp
    have idx: "p + length (decimal v) - 1 = Suc (p + ?l)" "u32 (int (Suc (p + ?l)) - 1) = p + ?l"
        "u32 (int (Suc (p + ?l)) - 2) = p + ?l - 1"
      using dec u32_minus [of 1 "Suc (p + ?l)"] u32_minus [of 2 "Suc (p + ?l)"] room less.prems(2) l by simp_all
    have "ull_digits dst (p + length (decimal v) - 1) v = ull_digits ?dst (p + ?l - 1) ?w"
      using 3 room idx by (simp add: ull_digits_def ull_loop.simps [of dst] Let_def digit_pairs_nth update_two)
    also have "\<dots> = Inr (take p ?dst @ decimal ?w @ drop (p + ?l) ?dst)"
      using less.IH [of ?w ?dst] 3 room less.prems(2) by simp
    finally show ?thesis using room by (simp add: dec)
  qed
qed

lemma ull2string_alt:
  "ull2string dst v =
     (if length (decimal v) \<ge> length dst then bindr (nul_terminate dst) (\<lambda>dst. Inr (0, dst))
      else bindr (store dst (u32 (int (length (decimal v)) - 1) + 1) (CHR 0x00)) (\<lambda>dst.
           bindr (ull_digits dst (u32 (int (length (decimal v)) - 1)) v) (\<lambda>dst. Inr (length (decimal v), dst))))"
  unfolding ull2string_def digits10_length Let_def ull_digits_def bindr_assoc
  by (simp add: case_prod_unfold)

lemma ull2string_writes:
  assumes "length (decimal v) < length dst" "length dst < 2 ^ 32"
  shows "ull2string dst v = Inr (length (decimal v), decimal v @ CHR 0x00 # drop (Suc (length (decimal v))) dst)"
proof -
  let ?l = "length (decimal v)"
  have l: "0 < ?l" by simp
  have n: "u32 (int ?l - 1) = ?l - 1" using l assms by (intro u32_pred) auto
  let ?dst = "dst[?l := CHR 0x00]"
  have "drop ?l ?dst = CHR 0x00 # drop (Suc ?l) dst"
    using assms(1) by (simp add: drop_update_swap Cons_nth_drop_Suc [symmetric])
  then show ?thesis
    using assms n l ull_digits_writes [of 0 v ?dst] by (simp add: ull2string_alt)
qed

lemma ull2string_short:
  "length dst \<le> length (decimal v) \<Longrightarrow> ull2string dst v = Inr (0, dst[0 := CHR 0x00])"
  by (cases dst) (simp_all add: ull2string_alt nul_terminate_def)

definition in_ll :: "int \<Rightarrow> bool" where
  "in_ll x \<longleftrightarrow> LONG_MIN \<le> x \<and> x \<le> LONG_MAX"

lemma u64_magnitude: "in_ll x \<Longrightarrow> x < 0 \<Longrightarrow> (if x \<noteq> LONG_MIN then u64 (- x) else u64 LONG_MAX + 1) = nat (- x)"
  by (auto simp: in_ll_def u64_def LONG_MIN_def LONG_MAX_def)

lemma ll2string_writes:
  assumes "in_ll x" "length (fmt_d x) < length dst" "length dst < 2 ^ 32"
  shows "ll2string dst x = Inr (length (fmt_d x), fmt_d x @ CHR 0x00 # drop (Suc (length (fmt_d x))) dst)"
proof (cases "x < 0")
  case True
  have "0 < length (decimal (nat (- x)))" by simp
  then obtain c rest where dst: "dst = c # rest" "2 \<le> length dst"
    using assms(2) True by (cases dst) (auto simp: fmt_d_def simp del: length_greater_0_conv)
  have "ull2string rest (nat (- x)) =
      Inr (length (decimal (nat (- x))), decimal (nat (- x)) @ CHR 0x00 # drop (Suc (length (decimal (nat (- x))))) rest)"
    using assms dst True by (intro ull2string_writes) (auto simp: fmt_d_def)
  then show ?thesis using True dst u64_magnitude [OF assms(1) True]
    by (cases rest) (simp_all add: ll2string_def fmt_d_def Let_def)
next
  case False
  then have "u64 x = nat x" using assms(1) by (simp add: in_ll_def u64_def LONG_MAX_def)
  then show ?thesis using False assms ull2string_writes [of "nat x" dst] by (simp add: ll2string_def fmt_d_def)
qed

lemma ll2string_short:
  assumes "in_ll x" "length dst \<le> length (fmt_d x)"
  shows "\<exists>dst'. ll2string dst x = Inr (0, dst') \<and> length dst' = length dst \<and> (dst = [] \<or> CHR 0x00 \<in> set dst')"
proof (cases "x < 0")
  case True
  show ?thesis
  proof (cases "length dst < 2")
    case short: True
    with True show ?thesis by (cases dst) (auto simp: ll2string_def nul_terminate_def)
  next
    case False
    then obtain c d rest where dst: "dst = c # d # rest" by (metis One_nat_def length_Cons list.exhaust list.size(3) lessI not_less_eq numeral_2_eq_2 zero_less_Suc)
    have "ull2string (d # rest) (nat (- x)) = Inr (0, CHR 0x00 # rest)"
      using assms(2) True dst ull2string_short [of "d # rest" "nat (- x)"] by (simp add: fmt_d_def)
    then show ?thesis using True dst u64_magnitude [OF assms(1) True] by (simp add: ll2string_def Let_def)
  qed
next
  case False
  then have "u64 x = nat x" using assms(1) by (simp add: in_ll_def u64_def LONG_MAX_def)
  then show ?thesis using False assms(2) ull2string_short [of dst "nat x"]
    by (cases dst) (simp_all add: ll2string_def fmt_d_def)
qed

section \<open>Reading numbers\<close>

lemma dec_value_mono: "v \<le> dec_value v ds"
proof (induction ds arbitrary: v)
  case (Cons c ds)
  have "v \<le> 10 * v + digit_val c" by simp
  also have "\<dots> \<le> dec_value (10 * v + digit_val c) ds" by (rule Cons)
  finally show ?case by simp
qed simp

lemma s2ll_loop_value:
  "s2ll_loop v p = (if dec_value v (takeWhile is_digit p) \<le> ULLONG_MAX \<or> takeWhile is_digit p = []
     then Some (dec_value v (takeWhile is_digit p), dropWhile is_digit p) else None)"
proof (induction v p rule: s2ll_loop.induct)
  case (2 v c p)
  show ?case
  proof (cases "is_digit c")
    case True
    have d: "digit_val c \<le> 9" using True unfolding is_digit_def digit_val_def by linarith
    have step: "v * 10 + digit_val c \<le> dec_value (v * 10 + digit_val c) (takeWhile is_digit p)" by (rule dec_value_mono)
    have "ULLONG_MAX div 10 * 10 \<le> ULLONG_MAX" by simp
    consider "v > ULLONG_MAX div 10" | "v \<le> ULLONG_MAX div 10" "v * 10 > ULLONG_MAX - digit_val c"
      | "v \<le> ULLONG_MAX div 10" "v * 10 + digit_val c \<le> ULLONG_MAX"
      using d by (simp add: ULLONG_MAX_def) linarith
    then show ?thesis
    proof cases
      case 3
      then have "\<not> v > ULLONG_MAX div 10" "\<not> v * 10 > ULLONG_MAX - digit_val c" by auto
      then show ?thesis using 2 [OF True] True 3 by (auto simp: mult.commute)
    qed (use True step d in \<open>auto simp: mult.commute ULLONG_MAX_def\<close>)
  qed simp
qed simp

lemma decimal_append_digit:
  assumes "0 < n" "is_digit c"
  shows "decimal (10 * n + digit_val c) = decimal n @ [c]"
proof -
  have d: "digit_val c < 10" "digit_char (digit_val c) = c"
    using assms(2) unfolding is_digit_def digit_val_def digit_char_def by (linarith, simp)
  then show ?thesis using assms(1) by (simp add: decimal.simps [of "10 * n + digit_val c"])
qed

lemma decimal_dec_value:
  "0 < v \<Longrightarrow> \<forall>c \<in> set ds. is_digit c \<Longrightarrow> decimal (dec_value v ds) = decimal v @ ds"
proof (induction ds arbitrary: v)
  case (Cons c ds)
  then show ?case using decimal_append_digit [of v c] by simp
qed simp

text \<open>A nonempty digit string without leading zero is the notation of its value.\<close>

lemma canonical_digits:
  assumes "is_digit c" "c \<noteq> CHR ''0''" "\<forall>c \<in> set ds. is_digit c"
  shows "0 < digit_val c" "decimal (dec_value (digit_val c) ds) = c # ds"
proof -
  have d: "digit_val c < 10" "digit_char (digit_val c) = c"
    using assms(1) unfolding is_digit_def digit_val_def digit_char_def by (linarith, simp)
  have "digit_val c \<noteq> 0" using d(2) assms(2) digit_chars(1) by metis
  then show "0 < digit_val c" by simp
  then show "decimal (dec_value (digit_val c) ds) = c # ds"
    using decimal_dec_value [OF _ assms(3)] d by (simp add: decimal.simps [of "digit_val c"])
qed

lemma decimal_canonical:
  assumes "0 < n" "decimal n = c # ds"
  shows "is_digit c" "c \<noteq> CHR ''0''" "\<forall>c \<in> set ds. is_digit c" "dec_value (digit_val c) ds = n"
proof -
  show digits: "is_digit c" "\<forall>c \<in> set ds. is_digit c" using decimal_digits [of n] assms(2) by auto
  show "dec_value (digit_val c) ds = n" using dec_value_decimal [of n] assms(2) by simp
  show "c \<noteq> CHR ''0''"
  proof
    assume c: "c = CHR ''0''"
    then have v: "digit_val c = 0" by (simp add: digit_val_def)
    obtain k where k: "10 ^ k \<le> n" "n < 10 ^ Suc k" using decimal_magnitude [OF assms(1)] by blast
    have "dec_value 0 ds < 10 ^ length ds" using digits(2)
    proof (induction ds rule: rev_induct)
      case (snoc d ds)
      have "digit_val d \<le> 9" using snoc.prems unfolding is_digit_def digit_val_def by (simp, linarith)
      then show ?case using snoc by (simp add: dec_value_append)
    qed simp
    moreover have "length ds = k" using length_decimal_between [OF k] assms(2) by simp
    ultimately show False using k(1) v \<open>dec_value (digit_val c) ds = n\<close> by simp
  qed
qed

lemma in_ll_length: "in_ll x \<Longrightarrow> length (fmt_d x) < 21"
  using length_decimal [of "nat x" 19] length_decimal [of "nat (- x)" 19]
  by (cases "x < 0") (simp_all add: in_ll_def fmt_d_def LONG_MIN_def LONG_MAX_def nat_less_iff)

lemma s2ll_digits:
  assumes "is_digit c"
  shows "(case s2ll_loop (digit_val c) p of None \<Rightarrow> None | Some (v, rest) \<Rightarrow> if rest \<noteq> [] then None else f v) =
    (if list_all is_digit p \<and> dec_value (digit_val c) p \<le> ULLONG_MAX then f (dec_value (digit_val c) p) else None)"
proof (cases "list_all is_digit p")
  case True
  then have tw: "takeWhile is_digit p = p" "dropWhile is_digit p = []"
    by (auto simp: list_all_iff takeWhile_eq_all_conv dropWhile_eq_Nil_conv)
  have "digit_val c \<le> 9" using assms unfolding is_digit_def digit_val_def by linarith
  with True show ?thesis unfolding s2ll_loop_value tw by (auto simp: ULLONG_MAX_def)
next
  case False
  then have "dropWhile is_digit p \<noteq> []" by (auto simp: list_all_iff dropWhile_eq_Nil_conv)
  with False show ?thesis by (simp add: s2ll_loop_value)
qed

lemma string2ll_positive:
  assumes "p \<noteq> []" "length p < 21" "p \<noteq> ''0''" "hd p \<noteq> CHR ''-''"
  shows "string2ll p = (if list_all is_digit p \<and> hd p \<noteq> CHR ''0'' \<and> int (dec_value 0 p) \<le> LONG_MAX
    then Some (int (dec_value 0 p)) else None)"
proof -
  obtain c q where p: "p = c # q" using assms(1) by (cases p) auto
  have small: "v \<le> ULLONG_MAX" if "int v \<le> LONG_MAX" for v using that by (simp add: LONG_MAX_def ULLONG_MAX_def)
  then show ?thesis using assms p by (cases "is_digit c") (auto simp: string2ll_def Let_def s2ll_digits small)
qed

lemma string2ll_negative:
  assumes "p \<noteq> []" "length p < 20"
  shows "string2ll (CHR ''-'' # p) = (if list_all is_digit p \<and> hd p \<noteq> CHR ''0'' \<and> - int (dec_value 0 p) \<ge> LONG_MIN
    then Some (- int (dec_value 0 p)) else None)"
proof -
  obtain c q where p: "p = c # q" using assms(1) by (cases p) auto
  have "u64 (- (LONG_MIN + 1)) + 1 = 9223372036854775808" by (simp add: u64_def LONG_MIN_def)
  moreover have "v > 9223372036854775808 \<longleftrightarrow> \<not> - int v \<ge> LONG_MIN" for v by (simp add: LONG_MIN_def) linarith
  moreover have "v > 9223372036854775808 \<or> v \<le> ULLONG_MAX" for v by (simp add: ULLONG_MAX_def) linarith
  ultimately show ?thesis using assms p by (cases "is_digit c") (auto simp: string2ll_def Let_def s2ll_digits)
qed

lemma decimal_list_all: "list_all is_digit (decimal n)"
  using decimal_digits by (simp add: list_all_iff)

lemma string2ll_fmt_d:
  assumes "in_ll x"
  shows "string2ll (fmt_d x) = Some x"
proof -
  have len: "length (fmt_d x) < 21" by (rule in_ll_length [OF assms])
  have hd: "hd (decimal n) \<noteq> CHR ''0'' \<and> hd (decimal n) \<noteq> CHR ''-''" if "0 < n" for n
    using decimal_canonical [OF that] digit_not_sign by (cases "decimal n") auto
  consider "x = 0" | "0 < x" | "x < 0" by linarith
  then show ?thesis
  proof cases
    case 1
    then show ?thesis by (simp add: fmt_d_def decimal.simps [of 0] digit_chars string2ll_def)
  next
    case 2
    then have "decimal (nat x) \<noteq> ''0''" using hd [of "nat x"] by auto
    with 2 len hd [of "nat x"] assms show ?thesis
      by (simp add: fmt_d_def string2ll_positive decimal_list_all in_ll_def)
  next
    case 3
    with len hd [of "nat (- x)"] assms show ?thesis
      by (simp add: fmt_d_def string2ll_negative decimal_list_all in_ll_def)
  qed
qed

lemma canonical_string:
  assumes "p \<noteq> []" "list_all is_digit p" "hd p \<noteq> CHR ''0''"
  shows "0 < dec_value 0 p" "decimal (dec_value 0 p) = p"
proof -
  obtain c q where p: "p = c # q" using assms(1) by (cases p) auto
  have c: "is_digit c" "c \<noteq> CHR ''0''" "\<forall>c \<in> set q. is_digit c" using assms p by (auto simp: list_all_iff)
  show "decimal (dec_value 0 p) = p" using canonical_digits(2) [OF c] p by simp
  show "0 < dec_value 0 p" using canonical_digits(1) [OF c] dec_value_mono [of "digit_val c" q] p by simp
qed

lemma string2ll_sound:
  assumes "string2ll s = Some x"
  shows "in_ll x \<and> s = fmt_d x"
proof (cases "s = ''0''")
  case True
  with assms show ?thesis
    by (simp add: string2ll_def in_ll_def LONG_MIN_def LONG_MAX_def fmt_d_def decimal.simps [of 0] digit_chars)
next
  case False
  have s: "s \<noteq> []" "length s < 21" using assms by (auto simp: string2ll_def split: if_splits)
  show ?thesis
  proof (cases "hd s = CHR ''-''")
    case True
    then obtain p where p: "s = CHR ''-'' # p" using s(1) by (cases s) auto
    have "p \<noteq> []" using assms p by (auto simp: string2ll_def)
    with assms p s canonical_string [of p] show ?thesis
      by (auto simp: string2ll_negative fmt_d_def in_ll_def LONG_MAX_def split: if_splits)
  next
    case nonneg: False
    with assms s False canonical_string [of s] show ?thesis
      by (auto simp: string2ll_positive fmt_d_def in_ll_def LONG_MIN_def split: if_splits)
  qed
qed

section \<open>Memory sizes and hexadecimal numbers\<close>

lemma takeWhile_decimal:
  assumes "u = [] \<or> \<not> is_digit (hd u)"
  shows "takeWhile is_digit (decimal n @ u) = decimal n" "dropWhile is_digit (decimal n @ u) = u"
  using takeWhile_digits [OF decimal_digits assms] by simp_all

lemma strtoull_decimal: "n \<le> ULLONG_MAX \<Longrightarrow> strtoull (decimal n) = (n, [], False)"
proof -
  assume n: "n \<le> ULLONG_MAX"
  have tw: "takeWhile is_digit (decimal n) = decimal n" "dropWhile is_digit (decimal n) = []"
    using takeWhile_decimal [of "[]" n] by simp_all
  show ?thesis
    using n strtol_sign_digits [OF decimal_digits decimal_not_Nil, of n "[]"] by (simp add: strtoull_def tw Let_def)
qed

lemma memtoull_kb:
  assumes "n \<le> ULLONG_MAX" "u = ''gb'' \<and> mul = 2 ^ 30 \<or> u = ''mb'' \<and> mul = 2 ^ 20 \<or> u = ''kb'' \<and> mul = 2 ^ 10 \<or> u = [] \<and> mul = 1"
  shows "memtoull (decimal n @ u) = Some (n * mul mod 2 ^ 64)"
proof -
  have u: "u = [] \<or> \<not> is_digit (hd u)" using assms(2) by (auto simp: is_digit_def)
  have "length (decimal n) \<le> 20" using length_decimal [of n 20] assms(1) by (simp add: ULLONG_MAX_def)
  moreover have "hd (decimal n @ u) \<noteq> CHR ''-''"
    using decimal_digits [of n] digit_not_sign [of "hd (decimal n)"] by (cases "decimal n") auto
  moreover have "u64 (int n * int mul) = n * mul mod 2 ^ 64"
    unfolding u64_def by (metis (mono_tags, lifting) nat_int of_nat_mult of_nat_numeral of_nat_power zmod_int)
  ultimately show ?thesis using assms(2) takeWhile_decimal [OF u, of n] strtoull_decimal [OF assms(1)]
    by (auto simp: memtoull_def Let_def strcasecmp_eq_def lower_def)
qed

fun hex_value :: "nat \<Rightarrow> string \<Rightarrow> nat" where
  "hex_value acc [] = acc"
| "hex_value acc (c # cs) = hex_value (acc * 16 + hex_val c (base_16_char_type c)) cs"

definition is_hex :: "char \<Rightarrow> bool" where
  "is_hex c \<longleftrightarrow> base_16_char_type c \<noteq> -1"

lemma hex_val_bound: "is_hex c \<Longrightarrow> hex_val c (base_16_char_type c) < 16"
  by (auto simp: is_hex_def base_16_char_type_def safe_is_c_in_range_def hex_val_def split: if_splits)

lemma hex_value_mono: "acc \<le> hex_value acc cs"
proof (induction cs arbitrary: acc)
  case (Cons c cs)
  have "acc \<le> acc * 16 + hex_val c (base_16_char_type c)" by simp
  also have "\<dots> \<le> hex_value (acc * 16 + hex_val c (base_16_char_type c)) cs" by (rule Cons)
  finally show ?case by simp
qed simp

lemma base16_loop_value:
  assumes "list_all is_hex cs" "\<not> is_hex d"
  shows "acc \<le> ULLONG_MAX \<Longrightarrow> base16_loop (pre @ cs @ d # rest) (length pre + length cs) (length pre) acc =
    Inr (if hex_value acc cs \<le> ULLONG_MAX then Some (hex_value acc cs) else None)"
  using assms(1)
proof (induction cs arbitrary: pre acc)
  case Nil
  then show ?case using assms(2) by (simp add: base16_loop.simps [of _ _ "length pre"] is_hex_def Let_def)
next
  case (Cons c cs)
  let ?d = "hex_val c (base_16_char_type c)"
  have hex: "is_hex c" "?d < 16" using Cons.prems(2) hex_val_bound by auto
  have over: "(acc > ULLONG_MAX div 16 \<or> acc > (ULLONG_MAX - ?d) div 16) \<longleftrightarrow> acc * 16 + ?d > ULLONG_MAX"
    using hex(2) by (simp add: ULLONG_MAX_def) linarith
  have "acc * 16 + ?d \<le> hex_value (acc * 16 + ?d) cs" by (rule hex_value_mono)
  then show ?case
    using Cons.IH [of "acc * 16 + ?d" "pre @ [c]"] Cons.prems(2) hex(1) over
    by (auto simp: base16_loop.simps [of _ _ "length pre"] is_hex_def Let_def nth_append)
qed

section \<open>Properties\<close>

text \<open>
  C24: \<open>string2ll\<close> is strict and exact: it accepts a string if and only if the string is what
  printing some 64-bit signed integer gives, and then returns that integer. So no two
  accepted strings have the same value, and nothing is lost by storing the number.
\<close>

theorem string2ll_exact:
  "string2ll s = Some x \<longleftrightarrow> LONG_MIN \<le> x \<and> x \<le> LONG_MAX \<and> s = fmt_d x"
  using string2ll_sound [of s x] string2ll_fmt_d [of x] by (auto simp: in_ll_def)

text \<open>
  C25: \<open>ll2string\<close> followed by \<open>string2ll\<close> gives the number back: when the buffer has room for the
  notation and its NUL, the returned length delimits a string that parses to the number, the
  NUL follows it, and the rest of the buffer is as before.
\<close>

theorem ll2string_roundtrip:
  assumes "LONG_MIN \<le> x" "x \<le> LONG_MAX" "sdigits10 x < length dst" "length dst < 2 ^ 32"
  shows "\<exists>out. ll2string dst x = Inr (sdigits10 x, out) \<and> string2ll (take (sdigits10 x) out) = Some x
    \<and> out ! sdigits10 x = CHR 0x00 \<and> drop (Suc (sdigits10 x)) out = drop (Suc (sdigits10 x)) dst"
proof -
  have x: "in_ll x" using assms(1,2) by (simp add: in_ll_def)
  have len: "sdigits10 x = length (fmt_d x)"
  proof (cases "x < 0")
    case True
    then show ?thesis using u64_magnitude [OF x True] by (simp add: sdigits10_def fmt_d_def digits10_length Let_def)
  next
    case False
    then show ?thesis by (simp add: sdigits10_def fmt_d_def digits10_length)
  qed
  show ?thesis using ll2string_writes [OF x assms(3,4) [unfolded len]] string2ll_fmt_d [OF x]
    unfolding len by (simp add: nth_append)
qed

theorem ll2string_roundtrip_witness:
  "\<exists>out. ll2string (replicate 8 CHR ''x'') (-4071) = Inr (sdigits10 (-4071), out)
    \<and> string2ll (take (sdigits10 (-4071)) out) = Some (-4071) \<and> out ! sdigits10 (-4071) = CHR 0x00
    \<and> drop (Suc (sdigits10 (-4071))) out = drop (Suc (sdigits10 (-4071))) (replicate 8 CHR ''x'')"
  by (rule ll2string_roundtrip) (simp_all add: LONG_MIN_def LONG_MAX_def sdigits10_def u64_def digits10.simps)

text \<open>
  C26: \<open>ll2string\<close> into a buffer that is too small returns 0, writes nothing outside the buffer
  and leaves a NUL in it.
\<close>

theorem ll2string_no_room:
  assumes "LONG_MIN \<le> x" "x \<le> LONG_MAX" "length dst \<le> length (fmt_d x)" "dst \<noteq> []"
  shows "\<exists>out. ll2string dst x = Inr (0, out) \<and> length out = length dst \<and> CHR 0x00 \<in> set out"
  using ll2string_short [of x dst] assms by (auto simp: in_ll_def)

theorem ll2string_no_room_witness:
  "\<exists>out. ll2string ''ab'' (-12) = Inr (0, out) \<and> length out = length ''ab'' \<and> CHR 0x00 \<in> set out"
  by (rule ll2string_no_room) (simp_all add: LONG_MIN_def LONG_MAX_def fmt_d_def decimal.simps)

text \<open>The branching \<open>digits10\<close> is the number of decimal digits.\<close>

theorem digits10_counts: "digits10 v = length (decimal v)"
  by (rule digits10_length)





end
