(* ===== verification/Bitmap.thy ===== *)
theory Bitmap
  imports Numbers
begin

text \<open>
  Bits of a string (\<open>bitops.c\<close>): integers of any width up to 64 bits at any bit offset, the
  overflow checks of the increments, the parsing of offsets and types, and the search for the
  first set or clear bit. Bytes and the values are machine words; a bitmap is a list of
  bytes and access outside it crashes. Conversions to \<open>int64_t\<close> wrap (two's complement).

  \<open>bit_at p i\<close> is bit \<open>i\<close> of a bitmap, counted from the most significant bit of the first byte.
  The lemmas describe every operation through it.
\<close>

unbundle bit_operations_syntax

section \<open>The operations\<close>

definition ll_cast :: "int \<Rightarrow> int" where
  "ll_cast x = (x + 2 ^ 63) mod 2 ^ 64 - 2 ^ 63"

definition put_bit :: "byte \<Rightarrow> nat \<Rightarrow> bool \<Rightarrow> byte" where
  "put_bit c b bitval =
     (let byteval = (ucast c :: 64 word);
          byteval = byteval AND NOT (push_bit b 1);
          byteval = byteval OR push_bit b (if bitval then 1 else 0)
      in ucast (byteval AND 0xFF))"

fun setUnsignedBitfield :: "byte list \<Rightarrow> nat \<Rightarrow> nat \<Rightarrow> 64 word \<Rightarrow> byte list res" where
  "setUnsignedBitfield p offset 0 value = Inr p"
| "setUnsignedBitfield p offset (Suc n) value =
     (let bitval = (value AND push_bit n 1 \<noteq> 0); byte = offset div 8; b = 7 - offset mod 8 in
      if byte < length p then setUnsignedBitfield (p[byte := put_bit (p ! byte) b bitval]) (offset + 1) n value
      else Inl OutOfBounds)"

definition setSignedBitfield :: "byte list \<Rightarrow> nat \<Rightarrow> nat \<Rightarrow> int \<Rightarrow> byte list res" where
  "setSignedBitfield p offset bits value = setUnsignedBitfield p offset bits (word_of_int value)"

fun get_bits :: "byte list \<Rightarrow> nat \<Rightarrow> nat \<Rightarrow> 64 word \<Rightarrow> 64 word res" where
  "get_bits p offset 0 value = Inr value"
| "get_bits p offset (Suc n) value =
     (let byte = offset div 8; b = 7 - offset mod 8 in
      if byte < length p then
        let byteval = (ucast (p ! byte) :: 64 word); bitval = drop_bit b byteval AND 1
        in get_bits p (offset + 1) n (push_bit 1 value OR bitval)
      else Inl OutOfBounds)"

definition getUnsignedBitfield :: "byte list \<Rightarrow> nat \<Rightarrow> nat \<Rightarrow> 64 word res" where
  "getUnsignedBitfield p offset bits = get_bits p offset bits 0"

definition getSignedBitfield :: "byte list \<Rightarrow> nat \<Rightarrow> nat \<Rightarrow> int res" where
  "getSignedBitfield p offset bits =
     bindr (getUnsignedBitfield p offset bits) (\<lambda>value.
       Inr (sint (if bits < 64 \<and> value AND push_bit (bits - 1) 1 \<noteq> 0 then value OR push_bit bits (-1) else value)))"

datatype owtype = BFOVERFLOW_WRAP | BFOVERFLOW_SAT | BFOVERFLOW_FAIL

text \<open>The result code and the new contents of \<open>*limit\<close>, \<open>None\<close> when it is not written.\<close>

definition checkUnsignedBitfieldOverflow :: "nat \<Rightarrow> int \<Rightarrow> nat \<Rightarrow> owtype \<Rightarrow> int \<times> nat option" where
  "checkUnsignedBitfieldOverflow value incr bits ow =
     (let max = (if bits = 64 then 2 ^ 64 - 1 else 2 ^ bits - 1);
          maxincr = ll_cast (int max - int value); minincr = ll_cast (- int value);
          wrap = (1, Some (unat (word_of_int (int value + incr) AND NOT (push_bit bits (-1)) :: 64 word))) in
      if value > max \<or> (incr > 0 \<and> incr > maxincr) then
        case ow of BFOVERFLOW_WRAP \<Rightarrow> wrap | BFOVERFLOW_SAT \<Rightarrow> (1, Some max) | BFOVERFLOW_FAIL \<Rightarrow> (1, None)
      else if incr < 0 \<and> incr < minincr then
        case ow of BFOVERFLOW_WRAP \<Rightarrow> wrap | BFOVERFLOW_SAT \<Rightarrow> (-1, Some 0) | BFOVERFLOW_FAIL \<Rightarrow> (-1, None)
      else (0, None))"

text \<open>The block \<open>handle_wrap\<close>.\<close>

definition signed_wrap :: "int \<Rightarrow> int \<Rightarrow> nat \<Rightarrow> int" where
  "signed_wrap value incr bits =
     (let c = (word_of_int (value + incr) :: 64 word) in
      sint (if bits < 64 then
              if c AND push_bit (bits - 1) 1 \<noteq> 0 then c OR push_bit bits (-1) else c AND NOT (push_bit bits (-1))
            else c))"

definition checkSignedBitfieldOverflow :: "int \<Rightarrow> int \<Rightarrow> nat \<Rightarrow> owtype \<Rightarrow> int \<times> int option" where
  "checkSignedBitfieldOverflow value incr bits ow =
     (let max = (if bits = 64 then LONG_MAX else 2 ^ (bits - 1) - 1); min = - max - 1;
          maxincr = ll_cast (max - value); minincr = ll_cast (min - value);
          wrap = (1, Some (signed_wrap value incr bits)) in
      if value > max \<or> (bits \<noteq> 64 \<and> incr > maxincr) \<or> (value \<ge> 0 \<and> incr > 0 \<and> incr > maxincr) then
        case ow of BFOVERFLOW_WRAP \<Rightarrow> wrap | BFOVERFLOW_SAT \<Rightarrow> (1, Some max) | BFOVERFLOW_FAIL \<Rightarrow> (1, None)
      else if value < min \<or> (bits \<noteq> 64 \<and> incr < minincr) \<or> (value < 0 \<and> incr < 0 \<and> incr < minincr) then
        case ow of BFOVERFLOW_WRAP \<Rightarrow> wrap | BFOVERFLOW_SAT \<Rightarrow> (-1, Some min) | BFOVERFLOW_FAIL \<Rightarrow> (-1, None)
      else (0, None))"

text \<open>\<open>max_len\<close> is \<open>server.proto_max_bulk_len\<close>, \<open>obey\<close> the result of \<open>mustObeyClient\<close>. \<open>Inr None\<close> is
  \<open>C_ERR\<close> with an error reply; the product with the width is a signed multiplication.\<close>

definition getBitOffsetFromArgument :: "int \<Rightarrow> bool \<Rightarrow> string \<Rightarrow> bool \<Rightarrow> nat \<Rightarrow> int option res" where
  "getBitOffsetFromArgument max_len obey p hash bits =
     (let usehash = (p \<noteq> [] \<and> p ! 0 = CHR ''#'' \<and> hash \<and> bits > 0) in
      case string2ll (if usehash then tl p else p) of
        None \<Rightarrow> Inr None
      | Some loffset \<Rightarrow>
          if usehash \<and> \<not> in_ll (loffset * int bits) then Inl SignedOverflow
          else
            let loffset = (if usehash then loffset * int bits else loffset) in
            if loffset < 0 \<or> (\<not> obey \<and> loffset div 8 \<ge> max_len) then Inr None
            else Inr (Some loffset))"

text \<open>The sign flag and the width.\<close>

definition getBitfieldTypeFromArgument :: "string \<Rightarrow> (bool \<times> nat) option" where
  "getBitfieldTypeFromArgument p =
     (if p \<noteq> [] \<and> (p ! 0 = CHR ''i'' \<or> p ! 0 = CHR ''u'') then
        let sign = (p ! 0 = CHR ''i'') in
        case string2ll (tl p) of
          None \<Rightarrow> None
        | Some llbits \<Rightarrow>
            if llbits < 1 \<or> (sign \<and> llbits > 64) \<or> (\<not> sign \<and> llbits > 63) then None
            else Some (sign, nat llbits)
      else None)"

text \<open>\<open>addr\<close> is the address of the bytes; the result of the first loop is whether a byte that
  differs was found, the bytes left and the position.\<close>

fun bitpos_align :: "nat \<Rightarrow> byte list \<Rightarrow> byte \<Rightarrow> int \<Rightarrow> bool \<times> byte list \<times> int" where
  "bitpos_align addr [] skipval pos = (False, [], pos)"
| "bitpos_align addr (c # cs) skipval pos =
     (if addr mod 8 \<noteq> 0 then
        if c \<noteq> skipval then (True, c # cs, pos) else bitpos_align (addr + 1) cs skipval (pos + 8)
      else (False, c # cs, pos))"

function bitpos_words :: "byte list \<Rightarrow> byte \<Rightarrow> int \<Rightarrow> byte list \<times> int" where
  "bitpos_words cs skipval pos =
     (if length cs \<ge> 8 \<and> take 8 cs = replicate 8 skipval then bitpos_words (drop 8 cs) skipval (pos + 64)
      else (cs, pos))"
  by pat_completeness auto
termination by (relation "measure (\<lambda>(cs, skipval, pos). length cs)") auto

declare bitpos_words.simps [simp del]

fun bitpos_load :: "nat \<Rightarrow> byte list \<Rightarrow> 64 word \<Rightarrow> 64 word" where
  "bitpos_load 0 cs word = word"
| "bitpos_load (Suc j) [] word = bitpos_load j [] (push_bit 8 word)"
| "bitpos_load (Suc j) (c # cs) word = bitpos_load j cs (push_bit 8 word OR ucast c)"

fun bitpos_scan :: "nat \<Rightarrow> 64 word \<Rightarrow> bool \<Rightarrow> int \<Rightarrow> int res" where
  "bitpos_scan 0 word b pos = Inl AssertFailed"
| "bitpos_scan (Suc k) word b pos =
     (if (push_bit k 1 AND word \<noteq> 0) = b then Inr pos else bitpos_scan k word b (pos + 1))"

definition redisBitpos :: "nat \<Rightarrow> byte list \<Rightarrow> bool \<Rightarrow> int res" where
  "redisBitpos addr s b =
     (let skipval = (if b then 0 else 0xFF);
          (found, cs, pos) = bitpos_align addr s skipval 0;
          (cs, pos) = (if \<not> found then bitpos_words cs skipval pos else (cs, pos));
          word = bitpos_load 8 cs 0
      in if b \<and> word = 0 then Inr (-1) else bitpos_scan 64 word b pos)"

section \<open>Bits of a bitmap\<close>

declare push_bit_of_1 [simp del]

definition bit_at :: "byte list \<Rightarrow> nat \<Rightarrow> bool" where
  "bit_at p i = bit (p ! (i div 8)) (7 - i mod 8)"

lemma and_single_bit: "(w AND push_bit n 1 \<noteq> 0) = bit w n" for w :: "'a::len word"
proof -
  have "w AND push_bit n 1 = (if bit w n then push_bit n 1 else 0)"
    by (rule bit_eqI) (auto simp: bit_simps)
  moreover have "bit w n \<Longrightarrow> push_bit n (1 :: 'a word) \<noteq> 0"
    by (metis bit_imp_le_length exp_eq_zero_iff linorder_not_less push_bit_of_1)
  ultimately show ?thesis by auto
qed

lemma bit_put_bit:
  assumes "b < 8"
  shows "bit (put_bit c b v) k = (if k = b then v else bit c k)"
proof (cases "k < 8")
  case True
  have mask: "(0xFF :: 64 word) = mask 8" by (simp add: mask_eq_exp_minus_1)
  show ?thesis using assms True unfolding put_bit_def Let_def mask by (auto simp: bit_simps)
next
  case False
  then show ?thesis using assms by (auto dest: bit_imp_le_length)
qed

lemma same_bit:
  assumes "i div 8 = j div (8 :: nat)" "7 - i mod 8 = 7 - j mod 8"
  shows "i = j"
proof -
  have "i mod 8 < 8" "j mod 8 < 8" by simp_all
  then have "i mod 8 = j mod 8" using assms(2) by linarith
  then show ?thesis using assms(1) by (metis div_mult_mod_eq)
qed

section \<open>Reading back what was written\<close>

lemma bit_at_update:
  assumes "off div 8 < length p" "i < 8 * length p"
  shows "bit_at (p[off div 8 := put_bit (p ! (off div 8)) (7 - off mod 8) v]) i = (if i = off then v else bit_at p i)"
proof (cases "i div 8 = off div 8")
  case True
  then show ?thesis using assms(1) same_bit [of i off] by (auto simp: bit_at_def bit_put_bit)
next
  case False
  then show ?thesis by (auto simp: bit_at_def)
qed

lemma setUnsigned_bits:
  assumes "offset + n \<le> 8 * length p"
  shows "\<exists>q. setUnsignedBitfield p offset n value = Inr q \<and> length q = length p
    \<and> (\<forall>i < 8 * length p. bit_at q i = (if offset \<le> i \<and> i < offset + n then bit value (offset + n - 1 - i) else bit_at p i))"
  using assms
proof (induction n arbitrary: p offset)
  case (Suc n)
  have off: "offset div 8 < length p" using Suc.prems by auto
  define q where "q = p[offset div 8 := put_bit (p ! (offset div 8)) (7 - offset mod 8) (bit value n)]"
  have q: "length q = length p" "\<And>i. i < 8 * length p \<Longrightarrow> bit_at q i = (if i = offset then bit value n else bit_at p i)"
    using bit_at_update [OF off] by (simp_all add: q_def)
  have "offset + 1 + n \<le> 8 * length q" using Suc.prems q(1) by simp
  from Suc.IH [OF this] obtain r where r: "setUnsignedBitfield q (offset + 1) n value = Inr r" "length r = length q"
      "\<forall>i < 8 * length q. bit_at r i = (if offset + 1 \<le> i \<and> i < offset + 1 + n then bit value (offset + 1 + n - 1 - i) else bit_at q i)"
    by blast
  have "setUnsignedBitfield p offset (Suc n) value = Inr r"
    using off r(1) by (simp add: Let_def and_single_bit q_def)
  moreover have "bit_at r i = (if offset \<le> i \<and> i < offset + Suc n then bit value (offset + Suc n - 1 - i) else bit_at p i)"
    if "i < 8 * length p" for i
    using r(3) q that by auto
  ultimately show ?case using r(2) q(1) by auto
qed auto

lemma get_bits_value:
  assumes "offset + n \<le> 8 * length p" "n \<le> 64"
  shows "\<exists>w. get_bits p offset n value = Inr w
    \<and> (\<forall>k < 64. bit w k = (if k < n then bit_at p (offset + n - 1 - k) else bit value (k - n)))"
  using assms
proof (induction n arbitrary: offset "value")
  case (Suc n)
  have off: "offset div 8 < length p" using Suc.prems by auto
  define v where "v = push_bit 1 value OR (drop_bit (7 - offset mod 8) (ucast (p ! (offset div 8)) :: 64 word) AND 1)"
  have v: "bit v k = (if k = 0 then bit_at p offset else bit value (k - 1))" if "k < 64" for k
    using that by (auto simp: v_def bit_simps bit_at_def bit_1_iff simp del: push_bit_Suc split: if_splits)
  have "offset + 1 + n \<le> 8 * length p" "n \<le> 64" using Suc.prems by auto
  from Suc.IH [OF this, of v] obtain w where w: "get_bits p (offset + 1) n v = Inr w"
      "\<forall>k < 64. bit w k = (if k < n then bit_at p (offset + 1 + n - 1 - k) else bit v (k - n))" by blast
  have "bit w k = (if k < Suc n then bit_at p (offset + Suc n - 1 - k) else bit value (k - Suc n))" if "k < 64" for k
    using w(2) v [of "k - n"] that by (cases k n rule: linorder_cases) auto
  moreover have "get_bits p offset (Suc n) value = Inr w" using off w(1) by (simp add: Let_def v_def)
  ultimately show ?case by auto
qed simp

lemma getUnsigned_bits:
  assumes "offset + n \<le> 8 * length p" "n \<le> 64"
  shows "\<exists>w. getUnsignedBitfield p offset n = Inr w \<and> (\<forall>k. bit w k = (k < n \<and> bit_at p (offset + n - 1 - k)))"
proof -
  from get_bits_value [OF assms, of 0] obtain w where w: "get_bits p offset n 0 = Inr w"
      "\<forall>k < 64. bit w k = (if k < n then bit_at p (offset + n - 1 - k) else bit (0 :: 64 word) (k - n))" by blast
  have "bit w k = (k < n \<and> bit_at p (offset + n - 1 - k))" for k
    using w(2) assms(2) by (cases "k < 64") (auto dest: bit_imp_le_length)
  then show ?thesis using w(1) by (auto simp: getUnsignedBitfield_def)
qed

lemma sint_eqI: "(\<And>k. k < 64 \<Longrightarrow> bit w k = bit x (min k n)) \<Longrightarrow> n < 64 \<Longrightarrow> sint (w :: 64 word) = signed_take_bit n x"
proof -
  assume w: "\<And>k. k < 64 \<Longrightarrow> bit w k = bit x (min k n)" and n: "n < 64"
  show "sint w = signed_take_bit n x"
  proof (rule bit_eqI)
    fix k
    have "bit (sint w) k = bit w (min k 63)" by (auto simp: bit_sint_iff min_def dest: bit_imp_le_length)
    also have "\<dots> = bit x (min (min k 63) n)" using w [of "min k 63"] by simp
    also have "min (min k 63) n = min k n" using n by auto
    finally show "bit (sint w) k = bit (signed_take_bit n x) k" by (simp add: bit_signed_take_bit_iff min.commute)
  qed
qed

lemma signed_fits: "- (2 ^ n) \<le> x \<Longrightarrow> x < 2 ^ n \<Longrightarrow> signed_take_bit n (x :: int) = x"
  by (rule signed_take_bit_int_eq_self)

text \<open>Sign extension of the low \<open>bits\<close> bits of a word.\<close>

lemma sign_extended:
  assumes "0 < bits" "bits \<le> 64" "\<And>k. k < bits \<Longrightarrow> bit w k = bit x k" "\<And>k. k < 64 \<Longrightarrow> bits \<le> k \<Longrightarrow> \<not> bit w k"
  shows "sint (if bits < 64 \<and> w AND push_bit (bits - 1) 1 \<noteq> 0 then w OR push_bit bits (-1) else w :: 64 word)
    = signed_take_bit (bits - 1) x"
proof (rule sint_eqI)
  fix k :: nat
  assume k: "k < 64"
  have top: "bit w (bits - 1) = bit x (bits - 1)" using assms(1,3) by auto
  show "bit (if bits < 64 \<and> w AND push_bit (bits - 1) 1 \<noteq> 0 then w OR push_bit bits (-1) else w) k = bit x (min k (bits - 1))"
    unfolding and_single_bit using assms k top by (cases "k < bits") (auto simp: bit_simps min_def)
qed (use assms in auto)

section \<open>Overflow checks\<close>

lemma ll_cast_id [simp]: "- (2 ^ 63) \<le> x \<Longrightarrow> x < 2 ^ 63 \<Longrightarrow> ll_cast x = x"
  by (simp add: ll_cast_def)

lemma low_bits_unat: "bits \<le> 64 \<Longrightarrow> int (unat (word_of_int x AND NOT (push_bit bits (-1)) :: 64 word)) = x mod 2 ^ bits"
proof -
  assume "bits \<le> 64"
  then have "word_of_int x AND NOT (push_bit bits (-1)) = (word_of_int (take_bit bits x) :: 64 word)"
    by (intro bit_eqI) (auto simp: bit_simps)
  moreover have "take_bit 64 (take_bit bits x) = take_bit bits x" using \<open>bits \<le> 64\<close> by simp
  ultimately show ?thesis by (simp add: take_bit_eq_mod unat_eq_nat_uint uint_word_of_int)
qed

lemma unsigned_overflow:
  assumes "0 < bits" "bits < 64" "int value < 2 ^ bits" "- (2 ^ 63) \<le> incr" "incr < 2 ^ 63"
  shows "checkUnsignedBitfieldOverflow value incr bits ow =
    (if int value + incr \<ge> 2 ^ bits then
       case ow of BFOVERFLOW_WRAP \<Rightarrow> (1, Some (nat ((int value + incr) mod 2 ^ bits)))
         | BFOVERFLOW_SAT \<Rightarrow> (1, Some (2 ^ bits - 1)) | BFOVERFLOW_FAIL \<Rightarrow> (1, None)
     else if int value + incr < 0 then
       case ow of BFOVERFLOW_WRAP \<Rightarrow> (1, Some (nat ((int value + incr) mod 2 ^ bits)))
         | BFOVERFLOW_SAT \<Rightarrow> (-1, Some 0) | BFOVERFLOW_FAIL \<Rightarrow> (-1, None)
     else (0, None))"
proof -
  define M where "M = (2 :: int) ^ bits"
  have M: "M \<le> 2 ^ 63" "int value < M" "0 < M"
    using assms(2,3) power_increasing [of bits 63 "2 :: int"] by (auto simp: M_def)
  have max: "int (2 ^ bits - 1) = M - 1" by (simp add: M_def of_nat_diff)
  have casts: "ll_cast (int (2 ^ bits - 1) - int value) = M - 1 - int value" "ll_cast (- int value) = - int value"
    unfolding max using M by (intro ll_cast_id; linarith)+
  have le: "\<not> value > 2 ^ bits - 1"
  proof
    assume "value > 2 ^ bits - 1"
    then have "int (2 ^ bits - 1) < int value" by (simp only: of_nat_less_iff)
    with max M show False by linarith
  qed
  have wrap: "unat (word_of_int (int value + incr) AND NOT (push_bit bits (-1)) :: 64 word) = nat ((int value + incr) mod 2 ^ bits)"
    using low_bits_unat [of bits "int value + incr"] assms(2) by (metis less_imp_le nat_int)
  have over: "0 < incr \<and> M - 1 - int value < incr \<longleftrightarrow> 2 ^ bits \<le> int value + incr"
    unfolding M_def [symmetric] using M by linarith
  have under: "incr < 0 \<and> incr < - int value \<longleftrightarrow> int value + incr < 0" by linarith
  have bits: "bits \<noteq> 64" using assms(2) by simp
  show ?thesis
    unfolding checkUnsignedBitfieldOverflow_def Let_def wrap if_not_P [OF bits] casts over under using le by simp
qed

lemma signed_wrap_value:
  assumes "0 < bits" "bits \<le> 64"
  shows "signed_wrap v d bits = signed_take_bit (bits - 1) (v + d)"
proof -
  define x where "x = v + d"
  let ?c = "word_of_int x :: 64 word"
  have "sint (if bits < 64 then if ?c AND push_bit (bits - 1) 1 \<noteq> 0 then ?c OR push_bit bits (-1)
      else ?c AND NOT (push_bit bits (-1)) else ?c) = signed_take_bit (bits - 1) x"
  proof (rule sint_eqI)
    fix k :: nat
    assume k: "k < 64"
    have c: "bit ?c j = bit x j" if "j < 64" for j using that by (simp add: bit_simps)
    have ext: "bit (push_bit bits (-1) :: 64 word) k = (bits \<le> k)" using k by (auto simp: bit_simps)
    show "bit (if bits < 64 then if ?c AND push_bit (bits - 1) 1 \<noteq> 0 then ?c OR push_bit bits (-1)
        else ?c AND NOT (push_bit bits (-1)) else ?c) k = bit x (min k (bits - 1))"
    proof (cases "bits < 64")
      case True
      then have "bit ?c (bits - 1) = bit x (bits - 1)" by (intro c) auto
      then show ?thesis unfolding and_single_bit using True c [OF k] ext k assms(1)
        by (cases "k < bits") (auto simp: bit_or_iff bit_and_iff bit_not_iff min_def)
    next
      case False
      then have "bits = 64" using assms(2) by simp
      then show ?thesis using c [OF k] k by (simp add: min_def)
    qed
  qed (use assms in auto)
  then show ?thesis by (simp only: signed_wrap_def Let_def x_def)
qed

lemma signed_overflow:
  assumes "0 < bits" "bits \<le> 64" "- (2 ^ (bits - 1)) \<le> value" "value < 2 ^ (bits - 1)" "- (2 ^ 63) \<le> incr" "incr < 2 ^ 63"
  shows "checkSignedBitfieldOverflow value incr bits ow =
    (if value + incr \<ge> 2 ^ (bits - 1) then
       case ow of BFOVERFLOW_WRAP \<Rightarrow> (1, Some (signed_take_bit (bits - 1) (value + incr)))
         | BFOVERFLOW_SAT \<Rightarrow> (1, Some (2 ^ (bits - 1) - 1)) | BFOVERFLOW_FAIL \<Rightarrow> (1, None)
     else if value + incr < - (2 ^ (bits - 1)) then
       case ow of BFOVERFLOW_WRAP \<Rightarrow> (1, Some (signed_take_bit (bits - 1) (value + incr)))
         | BFOVERFLOW_SAT \<Rightarrow> (-1, Some (- (2 ^ (bits - 1)))) | BFOVERFLOW_FAIL \<Rightarrow> (-1, None)
     else (0, None))"
proof -
  define M where "M = (2 :: int) ^ (bits - 1)"
  have M: "- M \<le> value" "value < M" using assms(3,4) by (simp_all add: M_def)
  have max: "(if bits = 64 then LONG_MAX else 2 ^ (bits - 1) - 1) = M - 1" by (simp add: M_def LONG_MAX_def)
  have over: "value > M - 1 \<or> (bits \<noteq> 64 \<and> incr > ll_cast (M - 1 - value)) \<or> (value \<ge> 0 \<and> incr > 0 \<and> incr > ll_cast (M - 1 - value))
      \<longleftrightarrow> value + incr \<ge> M"
    and under: "value < - M \<or> (bits \<noteq> 64 \<and> incr < ll_cast (- M - value)) \<or> (value < 0 \<and> incr < 0 \<and> incr < ll_cast (- M - value))
      \<longleftrightarrow> value + incr < - M"
  proof -
    have big: "M = 2 ^ 63" if "bits = 64" using that by (simp add: M_def)
    have small: "M \<le> 2 ^ 62" if "bits \<noteq> 64"
      using that assms(2) power_increasing [of "bits - 1" 62 "2 :: int"] by (auto simp: M_def)
    have "ll_cast (M - 1 - value) = M - 1 - value" if "bits \<noteq> 64 \<or> 0 \<le> value"
      using that M small big by (intro ll_cast_id; cases "bits = 64") auto
    then show "value > M - 1 \<or> (bits \<noteq> 64 \<and> incr > ll_cast (M - 1 - value)) \<or> (value \<ge> 0 \<and> incr > 0 \<and> incr > ll_cast (M - 1 - value))
        \<longleftrightarrow> value + incr \<ge> M"
      using M big assms(6) by (cases "bits = 64"; cases "0 \<le> value") auto
    have "ll_cast (- M - value) = - M - value" if "bits \<noteq> 64 \<or> value < 0"
      using that M small big by (intro ll_cast_id; cases "bits = 64") auto
    then show "value < - M \<or> (bits \<noteq> 64 \<and> incr < ll_cast (- M - value)) \<or> (value < 0 \<and> incr < 0 \<and> incr < ll_cast (- M - value))
        \<longleftrightarrow> value + incr < - M"
      using M big assms(5) by (cases "bits = 64"; cases "0 \<le> value") auto
  qed
  have min: "- (M - 1) - 1 = - M" by simp
  show ?thesis
    unfolding signed_wrap_value [OF assms(1,2)] checkSignedBitfieldOverflow_def Let_def max
    unfolding M_def [symmetric] min over under by simp
qed

section \<open>The first bit\<close>

lemma bit_at_append: "bit_at (pre @ cs) i = (if i < 8 * length pre then bit_at pre i else bit_at cs (i - 8 * length pre))"
proof -
  have "i div 8 < length pre \<longleftrightarrow> i < 8 * length pre" by (simp add: div_less_iff_less_mult mult.commute)
  moreover have "(i - 8 * length pre) div 8 = i div 8 - length pre" by simp
  moreover have "(i - 8 * length pre) mod 8 = i mod 8" if "8 * length pre \<le> i"
    using that by (metis le_add_diff_inverse2 mod_mult_self2)
  ultimately show ?thesis by (auto simp: bit_at_def nth_append)
qed

definition skip_byte :: "bool \<Rightarrow> byte" where
  "skip_byte b = (if b then 0 else 0xFF)"

lemma bit_skip_byte: "m < 8 \<Longrightarrow> bit (skip_byte b) m \<longleftrightarrow> \<not> b"
proof -
  have mask: "(0xFF :: byte) = mask 8" by (simp add: mask_eq_exp_minus_1)
  show "m < 8 \<Longrightarrow> bit (skip_byte b) m \<longleftrightarrow> \<not> b" unfolding skip_byte_def mask by (simp add: bit_mask_iff)
qed

lemma skipped_bits: "set pre \<subseteq> {skip_byte b} \<Longrightarrow> i < 8 * length pre \<Longrightarrow> bit_at pre i \<noteq> b"
proof -
  assume a: "set pre \<subseteq> {skip_byte b}" "i < 8 * length pre"
  then have "pre ! (i div 8) = skip_byte b" by (metis (no_types, lifting) div_less_iff_less_mult mult.commute nth_mem singletonD subsetD zero_less_numeral)
  then show ?thesis using bit_skip_byte [of "7 - i mod 8" b] by (auto simp: bit_at_def)
qed

lemma other_byte: "c \<noteq> skip_byte b \<Longrightarrow> \<exists>m < 8. bit c m = b"
proof (rule ccontr)
  assume a: "c \<noteq> skip_byte b" "\<not> (\<exists>m < 8. bit c m = b)"
  have "c = skip_byte b"
  proof (rule bit_word_eqI)
    fix n assume "n < LENGTH(8)"
    then show "bit c n = bit (skip_byte b) n" using a(2) bit_skip_byte [of n b] by auto
  qed
  with a(1) show False by simp
qed

lemma bitpos_align_skips:
  assumes "bitpos_align addr s (skip_byte b) pos = (found, cs, pos')"
  shows "\<exists>pre. s = pre @ cs \<and> set pre \<subseteq> {skip_byte b} \<and> pos' = pos + 8 * int (length pre)
    \<and> (found \<longrightarrow> cs \<noteq> [] \<and> hd cs \<noteq> skip_byte b)"
  using assms
proof (induction addr s "skip_byte b" pos rule: bitpos_align.induct)
  case (2 addr c s pos)
  show ?case
  proof (cases "addr mod 8 \<noteq> 0 \<and> c = skip_byte b")
    case True
    with 2 obtain pre where "s = pre @ cs" "set pre \<subseteq> {skip_byte b}" "pos' = pos + 8 + 8 * int (length pre)"
        "found \<longrightarrow> cs \<noteq> [] \<and> hd cs \<noteq> skip_byte b" by fastforce
    with True show ?thesis by (intro exI [where x = "c # pre"]) simp
  next
    case False
    with 2 show ?thesis by (intro exI [where x = "[]"]) (auto split: if_splits)
  qed
qed auto

lemma bitpos_words_skips:
  "\<exists>pre. cs = pre @ fst (bitpos_words cs (skip_byte b) pos) \<and> set pre \<subseteq> {skip_byte b}
    \<and> snd (bitpos_words cs (skip_byte b) pos) = pos + 8 * int (length pre)
    \<and> \<not> (8 \<le> length (fst (bitpos_words cs (skip_byte b) pos)) \<and> take 8 (fst (bitpos_words cs (skip_byte b) pos)) = replicate 8 (skip_byte b))"
proof (induction cs "skip_byte b" pos rule: bitpos_words.induct)
  case (1 cs pos)
  show ?case
  proof (cases "length cs \<ge> 8 \<and> take 8 cs = replicate 8 (skip_byte b)")
    case True
    let ?r = "bitpos_words (drop 8 cs) (skip_byte b) (pos + 64)"
    have eq: "bitpos_words cs (skip_byte b) pos = ?r" using True by (simp add: bitpos_words.simps [of cs])
    from 1 [OF True] obtain pre where pre: "drop 8 cs = pre @ fst ?r" "set pre \<subseteq> {skip_byte b}"
        "snd ?r = pos + 64 + 8 * int (length pre)"
        "\<not> (8 \<le> length (fst ?r) \<and> take 8 (fst ?r) = replicate 8 (skip_byte b))" by auto
    have "cs = replicate 8 (skip_byte b) @ pre @ fst ?r" using True pre(1) by (metis append_take_drop_id)
    with pre show ?thesis unfolding eq by (intro exI [where x = "replicate 8 (skip_byte b) @ pre"]) auto
  next
    case False
    then show ?thesis by (intro exI [where x = "[]"]) (auto simp: bitpos_words.simps [of cs])
  qed
qed

lemma bit_at_Cons: "bit_at (c # cs) (8 + i) = bit_at cs i"
proof -
  have "(8 + i) div 8 = Suc (i div 8)" by simp
  then show ?thesis by (simp add: bit_at_def)
qed

lemma bitpos_load_bits:
  "k < 64 \<Longrightarrow> j \<le> 8 \<Longrightarrow> bit (bitpos_load j cs w) k =
    (if k < 8 * j then 8 * j - 1 - k < 8 * length cs \<and> bit_at cs (8 * j - 1 - k) else bit w (k - 8 * j))"
proof (induction j cs w rule: bitpos_load.induct)
  case (2 j w)
  have w: "bit (push_bit 8 w) m = (8 \<le> m \<and> bit w (m - 8))" if "m < 64" for m using that by (auto simp: bit_simps)
  have "k - 8 * j - 8 = k - 8 * Suc j" "k - 8 * j < 64" using 2 by simp_all
  then show ?case using 2 w [of "k - 8 * j"] by (cases "k < 8 * Suc j") auto
next
  case (3 j c cs w)
  have w: "bit (push_bit 8 w OR ucast c :: 64 word) m = (if m < 8 then bit c m else bit w (m - 8))" if "m < 64" for m
    using that by (auto simp: bit_simps dest: bit_imp_le_length)
  have IH: "bit (bitpos_load j cs (push_bit 8 w OR ucast c)) k =
      (if k < 8 * j then 8 * j - 1 - k < 8 * length cs \<and> bit_at cs (8 * j - 1 - k) else bit (push_bit 8 w OR ucast c :: 64 word) (k - 8 * j))"
    using 3 by simp
  consider "k < 8 * j" | "8 * j \<le> k" "k < 8 * Suc j" | "8 * Suc j \<le> k" by linarith
  then show ?case
  proof cases
    case 1
    define i where "i = 8 * j - 1 - k"
    have i: "8 * Suc j - 1 - k = 8 + i" "k < 8 * Suc j" using 1 by (simp_all add: i_def)
    have "bit (bitpos_load j cs (push_bit 8 w OR ucast c)) k = (i < 8 * length cs \<and> bit_at cs i)"
      using 1 IH by (simp add: i_def)
    then show ?thesis unfolding bitpos_load.simps i(1) bit_at_Cons using i(2) by simp
  next
    case 2
    then have "8 * Suc j - 1 - k = 7 - (k - 8 * j)" "k - 8 * j < 8" "7 - (k - 8 * j) < 8 * length (c # cs)" by auto
    then show ?thesis using 2 IH w [of "k - 8 * j"] by (simp add: bit_at_def)
  next
    case 3
    then show ?thesis using IH w [of "k - 8 * j"] \<open>k < 64\<close> by (auto simp: diff_diff_add add.commute)
  qed
qed simp

lemma bitpos_scan_first:
  assumes "k < n" "bit w k = b" "\<And>k'. k < k' \<Longrightarrow> k' < n \<Longrightarrow> bit w k' \<noteq> b"
  shows "bitpos_scan n w b pos = Inr (pos + int (n - 1 - k))"
  using assms
proof (induction n arbitrary: pos)
  case (Suc n)
  have bit: "(push_bit n 1 AND w \<noteq> 0) = bit w n" using and_single_bit [of w n] by (simp add: and.commute)
  show ?case
  proof (cases "k = n")
    case True
    then show ?thesis using Suc.prems(2) bit by simp
  next
    case False
    then have "bit w n \<noteq> b" "k < n" using Suc.prems by auto
    then show ?thesis using Suc.IH [of "pos + 1"] Suc.prems bit by auto
  qed
qed simp

lemma bit_at_byte: "l < 8 \<Longrightarrow> bit_at cs (8 * m + (7 - l)) = bit (cs ! m) l"
proof -
  assume l: "l < 8"
  define r where "r = 7 - l"
  have "r < 8" "7 - r = l" using l by (auto simp: r_def)
  then have "(8 * m + r) div 8 = m" "(8 * m + r) mod 8 = r" by simp_all
  then show ?thesis using \<open>7 - r = l\<close> unfolding bit_at_def r_def [symmetric] by simp
qed

lemma last_word_exists:
  assumes "\<not> (8 \<le> length cs \<and> take 8 cs = replicate 8 (skip_byte b))" "\<not> (b \<and> bitpos_load 8 cs 0 = 0)"
  shows "\<exists>i < 64. (i < 8 * length cs \<and> bit_at cs i) = b"
proof (cases "8 \<le> length cs")
  case True
  then have "take 8 cs \<noteq> replicate 8 (skip_byte b)" using assms(1) by simp
  then obtain m where m: "m < 8" "cs ! m \<noteq> skip_byte b" using True by (auto simp: list_eq_iff_nth_eq)
  then obtain l where l: "l < 8" "bit (cs ! m) l = b" using other_byte by blast
  let ?i = "8 * m + (7 - l)"
  have "bit_at cs ?i = b" using l by (simp only: bit_at_byte)
  then show ?thesis using m True by (intro exI [where x = ?i]) auto
next
  case False
  show ?thesis
  proof (cases b)
    case True
    then obtain k where k: "bit (bitpos_load 8 cs 0) k" using assms(2) by (auto simp: bit_eq_iff)
    then have "k < 64" by (auto dest: bit_imp_le_length)
    then show ?thesis using k bitpos_load_bits [of k 8 cs 0] True by (intro exI [where x = "63 - k"]) auto
  next
    case no: False
    then show ?thesis using False by (intro exI [where x = "8 * length cs"]) auto
  qed
qed

lemma last_word_position:
  assumes "\<not> (8 \<le> length cs \<and> take 8 cs = replicate 8 (skip_byte b))" "\<not> (b \<and> bitpos_load 8 cs 0 = 0)"
  shows "\<exists>i < 64. (i < 8 * length cs \<and> bit_at cs i) = b \<and> (\<forall>j < i. (j < 8 * length cs \<and> bit_at cs j) \<noteq> b)
    \<and> bitpos_scan 64 (bitpos_load 8 cs 0) b pos = Inr (pos + int i)"
proof -
  let ?P = "\<lambda>i. (i < 8 * length cs \<and> bit_at cs i) = b"
  define i where "i = (LEAST i. ?P i)"
  obtain i0 where i0: "i0 < 64" "?P i0" using last_word_exists [OF assms] by blast
  have i: "?P i" "i \<le> i0" "\<forall>j < i. \<not> ?P j"
    unfolding i_def using LeastI [of ?P, OF i0(2)] Least_le [of ?P, OF i0(2)] not_less_Least [of _ ?P] by auto
  have bits: "bit (bitpos_load 8 cs 0) k = (63 - k < 8 * length cs \<and> bit_at cs (63 - k))" if "k < 64" for k
    using bitpos_load_bits [OF that, of 8 cs 0] that by simp
  have "bitpos_scan 64 (bitpos_load 8 cs 0) b pos = Inr (pos + int (64 - 1 - (63 - i)))"
  proof (rule bitpos_scan_first)
    show "bit (bitpos_load 8 cs 0) (63 - i) = b" using bits [of "63 - i"] i i0 by simp
    show "bit (bitpos_load 8 cs 0) k \<noteq> b" if "63 - i < k" "k < 64" for k
      using bits [of k] i that by simp
  qed (use i i0 in auto)
  then show ?thesis using i i0 by (intro exI [where x = i]) auto
qed

lemma redisBitpos_first:
  "\<exists>r. redisBitpos addr s b = Inr r \<and>
    (if \<exists>i < 8 * length s. bit_at s i = b
     then 0 \<le> r \<and> r < 8 * int (length s) \<and> bit_at s (nat r) = b \<and> (\<forall>j < nat r. bit_at s j \<noteq> b)
     else r = (if b then -1 else 8 * int (length s)))"
proof -
  obtain found cs1 pos1 where al: "bitpos_align addr s (skip_byte b) 0 = (found, cs1, pos1)" by (metis prod_cases3)
  obtain cs pos where st: "(if \<not> found then bitpos_words cs1 (skip_byte b) pos1 else (cs1, pos1)) = (cs, pos)" by fastforce
  obtain pre1 where pre1: "s = pre1 @ cs1" "set pre1 \<subseteq> {skip_byte b}" "pos1 = 8 * int (length pre1)"
      "found \<longrightarrow> cs1 \<noteq> [] \<and> hd cs1 \<noteq> skip_byte b" using bitpos_align_skips [OF al] by auto
  have "\<exists>pre. cs1 = pre @ cs \<and> set pre \<subseteq> {skip_byte b} \<and> pos = pos1 + 8 * int (length pre)
      \<and> \<not> (8 \<le> length cs \<and> take 8 cs = replicate 8 (skip_byte b))"
  proof (cases found)
    case True
    then show ?thesis using st pre1(4) by (cases cs1) (auto dest: arg_cong [where f = hd])
  next
    case False
    then show ?thesis using st bitpos_words_skips [of cs1 b pos1] by auto
  qed
  then obtain pre where pre: "s = pre @ cs" "set pre \<subseteq> {skip_byte b}" "pos = 8 * int (length pre)"
      "\<not> (8 \<le> length cs \<and> take 8 cs = replicate 8 (skip_byte b))" using pre1 by fastforce
  have skip: "bit_at pre i \<noteq> b" if "i < 8 * length pre" for i using skipped_bits [OF pre(2) that] .
  have run: "redisBitpos addr s b = (if b \<and> bitpos_load 8 cs 0 = 0 then Inr (-1) else bitpos_scan 64 (bitpos_load 8 cs 0) b pos)"
    using al st by (simp add: redisBitpos_def skip_byte_def [symmetric] Let_def)
  show ?thesis
  proof (cases "b \<and> bitpos_load 8 cs 0 = 0")
    case True
    have short: "length cs < 8"
    proof (rule ccontr)
      assume "\<not> length cs < 8"
      then obtain m where m: "m < 8" "cs ! m \<noteq> skip_byte b" "m < length cs" using pre(4) by (auto simp: list_eq_iff_nth_eq)
      then obtain l where l: "l < 8" "bit (cs ! m) l" using other_byte [of "cs ! m" b] True by blast
      define i where "i = 8 * m + (7 - l)"
      have "bit_at cs i" unfolding i_def using l by (simp only: bit_at_byte)
      moreover have "i < 64" "i < 8 * length cs" using m l by (auto simp: i_def)
      moreover have "63 - i < 64" by simp
      ultimately show False using True bitpos_load_bits [of "63 - i" 8 cs 0] by simp
    qed
    have "\<not> bit_at cs i" if "i < 8 * length cs" for i
      using bitpos_load_bits [of "63 - i" 8 cs 0] True that short by auto
    then have "\<not> (\<exists>i < 8 * length s. bit_at s i = b)" using skip True pre(1) by (auto simp: bit_at_append)
    then show ?thesis using run True by simp
  next
    case False
    from last_word_position [OF pre(4) False, of pos] obtain i where i: "(i < 8 * length cs \<and> bit_at cs i) = b"
        "\<forall>j < i. (j < 8 * length cs \<and> bit_at cs j) \<noteq> b" "bitpos_scan 64 (bitpos_load 8 cs 0) b pos = Inr (pos + int i)" by blast
    define r where "r = 8 * length pre + i"
    have run_r: "redisBitpos addr s b = Inr (int r)" using run False i(3) pre(3) by (simp add: r_def)
    have before: "bit_at s j \<noteq> b" if "j < r" "j < 8 * length s" for j
      using skip i(2) that pre(1) by (auto simp: bit_at_append r_def)
    show ?thesis
    proof (cases "i < 8 * length cs")
      case True
      then have "r < 8 * length s" "bit_at s r = b" using i(1) pre(1) by (auto simp: bit_at_append r_def)
      then show ?thesis using run_r before by (intro exI [where x = "int r"]) auto
    next
      case past: False
      then have "\<not> b" using i(1) by simp
      moreover have "i = 8 * length cs" using i(2) past \<open>\<not> b\<close> by (metis linorder_neqE_nat less_irrefl)
      ultimately have "r = 8 * length s" using pre(1) by (simp add: r_def)
      then show ?thesis using run_r before \<open>\<not> b\<close> by (intro exI [where x = "int r"]) auto
    qed
  qed
qed

section \<open>Properties\<close>

text \<open>
  C33: a field written with \<open>setUnsignedBitfield\<close> is read back by \<open>getUnsignedBitfield\<close> as the value
  cut to its width, and every bit outside the field keeps its value, wherever the field
  lies in the bitmap.
\<close>

theorem bitfield_unsigned_roundtrip:
  assumes "offset + n \<le> 8 * length p" "n \<le> 64"
  shows "\<exists>q. setUnsignedBitfield p offset n v = Inr q \<and> length q = length p
    \<and> getUnsignedBitfield q offset n = Inr (take_bit n v)
    \<and> (\<forall>i < 8 * length p. i < offset \<or> offset + n \<le> i \<longrightarrow> bit_at q i = bit_at p i)"
proof -
  obtain q where q: "setUnsignedBitfield p offset n v = Inr q" "length q = length p"
      "\<forall>i < 8 * length p. bit_at q i = (if offset \<le> i \<and> i < offset + n then bit v (offset + n - 1 - i) else bit_at p i)"
    using setUnsigned_bits [OF assms(1)] by blast
  obtain w where w: "getUnsignedBitfield q offset n = Inr w" "\<forall>k. bit w k = (k < n \<and> bit_at q (offset + n - 1 - k))"
    using getUnsigned_bits [of offset n q] assms q(2) by auto
  have "bit_at q (offset + n - 1 - k) = bit v k" if "k < n" for k
  proof -
    have "offset + n - 1 - (offset + n - 1 - k) = k" "offset \<le> offset + n - 1 - k" using that by auto
    then show ?thesis using q(3) that assms(1) by simp
  qed
  then have "w = take_bit n v" by (intro bit_eqI) (use w(2) in \<open>auto simp: bit_take_bit_iff\<close>)
  then show ?thesis using q w(1) by (intro exI [where x = q]) auto
qed

theorem bitfield_unsigned_roundtrip_witness:
  "\<exists>q. setUnsignedBitfield [0xFF, 0, 1] 7 5 23 = Inr q \<and> length q = 3 \<and> getUnsignedBitfield q 7 5 = Inr (take_bit 5 23)"
  using bitfield_unsigned_roundtrip [of 7 5 "[0xFF, 0, 1]" 23] by auto

text \<open>C34: a signed field returns every value that its width can represent.\<close>

theorem bitfield_signed_roundtrip:
  assumes "offset + n \<le> 8 * length p" "0 < n" "n \<le> 64" "- (2 ^ (n - 1)) \<le> x" "x < 2 ^ (n - 1)"
  shows "\<exists>q. setSignedBitfield p offset n x = Inr q \<and> getSignedBitfield q offset n = Inr x"
proof -
  obtain q where q: "setUnsignedBitfield p offset n (word_of_int x) = Inr q" "length q = length p"
      "\<forall>i < 8 * length p. bit_at q i = (if offset \<le> i \<and> i < offset + n then bit (word_of_int x :: 64 word) (offset + n - 1 - i) else bit_at p i)"
    using setUnsigned_bits [OF assms(1)] by blast
  obtain w where w: "getUnsignedBitfield q offset n = Inr w" "\<forall>k. bit w k = (k < n \<and> bit_at q (offset + n - 1 - k))"
    using getUnsigned_bits [of offset n q] assms(1,3) q(2) by auto
  have "bit w k = bit x k" if "k < n" for k using w(2) q(3) that assms(1,3) by (auto simp: bit_simps)
  then have "sint (if n < 64 \<and> w AND push_bit (n - 1) 1 \<noteq> 0 then w OR push_bit n (-1) else w) = signed_take_bit (n - 1) x"
    using w(2) assms(2,3) by (intro sign_extended) auto
  then show ?thesis using q(1) w(1) signed_fits [OF assms(4,5)]
    by (auto simp: setSignedBitfield_def getSignedBitfield_def)
qed

theorem bitfield_signed_roundtrip_witness:
  "\<exists>q. setSignedBitfield [0, 0, 0] 3 9 (-200) = Inr q \<and> getSignedBitfield q 3 9 = Inr (-200)"
  by (rule bitfield_signed_roundtrip) simp_all





text \<open>
  C37: \<open>redisBitpos\<close> returns, for any alignment of the bytes, the position of the first bit with the
  wanted value; without one it returns -1 for a set bit and the number of bits for a clear
  one. It never reaches its \<open>serverPanic\<close>.
\<close>

theorem bitpos_finds_first:
  "\<exists>r. redisBitpos addr s b = Inr r \<and>
    (if \<exists>i < 8 * length s. bit_at s i = b
     then 0 \<le> r \<and> r < 8 * int (length s) \<and> bit_at s (nat r) = b \<and> (\<forall>j < nat r. bit_at s j \<noteq> b)
     else r = (if b then -1 else 8 * int (length s)))"
  by (rule redisBitpos_first)

theorem bitpos_finds_first_witness: "redisBitpos 5 [0, 0, 0x10] True = Inr 19"
proof -
  have "bit_at [0, 0, 0x10] 19" "\<not> bit_at [0, 0, 0x10] j" if "j < 19" for j
  proof -
    show "bit_at [0, 0, 0x10] 19" by (simp add: bit_at_def)
    have "j \<in> set [0..<19]" using that by simp
    then have "j \<in> {0, 1, 2, 3, 4, 5, 6, 7, 8, 9, 10, 11, 12, 13, 14, 15, 16, 17, 18}"
      by (auto simp: upt_rec numeral_eq_Suc)
    then show "\<not> bit_at [0, 0, 0x10] j" by (auto simp: bit_at_def)
  qed
  then have first: "bit_at [0, 0, 0x10] i \<Longrightarrow> 19 \<le> i" "bit_at [0, 0, 0x10] 19" for i
    by (meson not_less, meson zero_less_numeral)
  from bitpos_finds_first [of 5 "[0, 0, 0x10]" True] obtain r where r: "redisBitpos 5 [0, 0, 0x10] True = Inr r"
      "0 \<le> r" "bit_at [0, 0, 0x10] (nat r)" "\<forall>j < nat r. \<not> bit_at [0, 0, 0x10] j"
    using first(2) by (auto split: if_splits)
  then have "nat r = 19" using first by (metis le_antisym not_less)
  then show ?thesis using r(1,2) by simp
qed

end
