(* ===== verification/Sds.thy ===== *)
theory Sds
  imports Numbers
begin

text \<open>
  The string functions of \<open>sds.c\<close> on the contents of the strings: an \<open>sds\<close> value is the list of
  its bytes, whatever its header and spare capacity are. Arguments that are plain C strings
  are lists without NUL.

  The lemmas show that splitting and joining are inverse, that the quoting of \<open>sdscatrepr\<close> is
  undone by \<open>sdssplitargs\<close> for any bytes, that \<open>sdscmp\<close> is the lexicographic order of
  bytes, and what the range functions select.
\<close>

section \<open>Pieces of a string\<close>

definition sdsgrowzero :: "string \<Rightarrow> nat \<Rightarrow> string" where
  "sdsgrowzero s len = (if len \<le> length s then s else s @ replicate (len - length s) (CHR 0x00))"

text \<open>\<open>strchr\<close> finds the terminating NUL too.\<close>

definition strchr_hit :: "string \<Rightarrow> char \<Rightarrow> bool" where
  "strchr_hit cset c \<longleftrightarrow> c \<in> set cset \<or> c = CHR 0x00"

definition sdstrim :: "string \<Rightarrow> string \<Rightarrow> string" where
  "sdstrim s cset =
     (case dropWhile (strchr_hit cset) s of
        [] \<Rightarrow> []
      | c # rest \<Rightarrow> c # rev (dropWhile (strchr_hit cset) (rev rest)))"

definition sdssubstr :: "string \<Rightarrow> nat \<Rightarrow> nat \<Rightarrow> string" where
  "sdssubstr s start len =
     (let oldlen = length s;
          (start, len) = (if start \<ge> oldlen then (0, 0) else (start, len));
          len = (if len > oldlen - start then oldlen - start else len)
      in take len (drop start s))"

text \<open>Negative indexes count from the end; a start that stays negative becomes a huge \<open>size_t\<close>.\<close>

definition sdsrange :: "string \<Rightarrow> int \<Rightarrow> int \<Rightarrow> string" where
  "sdsrange s start stop =
     (let len = int (length s) in
      if len = 0 then s
      else
        let start = (if start < 0 then len + start else start);
            stop = (if stop < 0 then len + stop else stop);
            newlen = (if start > stop then 0 else u64 (stop - start + 1))
        in sdssubstr s (u64 start) newlen)"

definition sdstolower :: "string \<Rightarrow> string" where
  "sdstolower s = map lower s"

text \<open>Only the sign of \<open>memcmp\<close> is specified; the bytes are compared as unsigned numbers.\<close>

fun memcmp :: "string \<Rightarrow> string \<Rightarrow> int" where
  "memcmp (a # s) (b # t) =
     (if a = b then memcmp s t else if (of_char a :: nat) < of_char b then -1 else 1)"
| "memcmp _ _ = 0"

definition sdscmp :: "string \<Rightarrow> string \<Rightarrow> int" where
  "sdscmp s1 s2 =
     (let l1 = length s1; l2 = length s2; minlen = (if l1 < l2 then l1 else l2);
          cmp = memcmp (take minlen s1) (take minlen s2)
      in if cmp = 0 then (if l1 > l2 then 1 else if l1 < l2 then -1 else 0) else cmp)"

section \<open>Splitting and joining\<close>

text \<open>\<open>cur\<close> holds the bytes since \<open>start\<close>, \<open>s\<close> the bytes from position \<open>j\<close> on.\<close>

function split_loop :: "string \<Rightarrow> string \<Rightarrow> string \<Rightarrow> string list" where
  "split_loop sep cur s =
     (if sep = [] \<or> length s < length sep then [cur @ s]
      else if take (length sep) s = sep then cur # split_loop sep [] (drop (length sep) s)
      else split_loop sep (cur @ [hd s]) (tl s))"
  by pat_completeness auto
termination
proof (relation "measure (\<lambda>(sep, cur, s). length s)", goal_cases)
  case 1 show ?case by simp
next
  case (2 sep cur s)
  then have "0 < length sep" "length sep \<le> length s" by auto
  then have "length s - length sep < length s" by linarith
  then show ?case by simp
next
  case (3 sep cur s)
  then have "s \<noteq> []" by auto
  then show ?case by simp
qed

declare split_loop.simps [simp del]

definition sdssplitlen :: "string \<Rightarrow> string \<Rightarrow> string list option" where
  "sdssplitlen s sep = (if length sep < 1 \<or> length s = 0 then None else Some (split_loop sep [] s))"

fun sdsjoinsds :: "string list \<Rightarrow> string \<Rightarrow> string" where
  "sdsjoinsds [] sep = []"
| "sdsjoinsds [s] sep = s"
| "sdsjoinsds (s # t # ss) sep = s @ sep @ sdsjoinsds (t # ss) sep"

definition sdsmapchars :: "string \<Rightarrow> string \<Rightarrow> string \<Rightarrow> string" where
  "sdsmapchars s src dst = map (\<lambda>c. map_char c (zip src dst)) s"

section \<open>Quoting\<close>

definition isprint :: "char \<Rightarrow> bool" where
  "isprint c \<longleftrightarrow> 32 \<le> (of_char c :: nat) \<and> (of_char c :: nat) \<le> 126"

definition hex_digit :: "nat \<Rightarrow> char" where
  "hex_digit d = (if d < 10 then char_of (48 + d) else char_of (87 + d))"

definition repr_char :: "char \<Rightarrow> string" where
  "repr_char c =
     (if c = CHR 0x5C \<or> c = CHR 0x22 then [CHR 0x5C, c]
      else if c = CHR 0x0A then [CHR 0x5C, CHR ''n'']
      else if c = CHR 0x0D then [CHR 0x5C, CHR ''r'']
      else if c = CHR 0x09 then [CHR 0x5C, CHR ''t'']
      else if c = CHR 0x07 then [CHR 0x5C, CHR ''a'']
      else if c = CHR 0x08 then [CHR 0x5C, CHR ''b'']
      else if isprint c then [c]
      else [CHR 0x5C, CHR ''x'', hex_digit (of_char c div 16), hex_digit (of_char c mod 16)])"

definition sdscatrepr :: "string \<Rightarrow> string \<Rightarrow> string" where
  "sdscatrepr s p = s @ [CHR 0x22] @ concat (map repr_char p) @ [CHR 0x22]"

definition sdsneedsrepr :: "string \<Rightarrow> bool" where
  "sdsneedsrepr s =
     list_ex (\<lambda>c. c = CHR 0x5C \<or> c = CHR 0x22 \<or> c = CHR 0x0A \<or> c = CHR 0x0D \<or> c = CHR 0x09 \<or> c = CHR 0x07
       \<or> c = CHR 0x08 \<or> \<not> isprint c \<or> is_space c) s"

definition is_hex_digit :: "char \<Rightarrow> bool" where
  "is_hex_digit c \<longleftrightarrow> is_digit c \<or> (97 \<le> (of_char c :: nat) \<and> (of_char c :: nat) \<le> 102)
     \<or> (65 \<le> (of_char c :: nat) \<and> (of_char c :: nat) \<le> 70)"

definition hex_digit_to_int :: "char \<Rightarrow> nat" where
  "hex_digit_to_int c =
     (if is_digit c then of_char c - 48
      else if 97 \<le> (of_char c :: nat) \<and> (of_char c :: nat) \<le> 102 then of_char c - 87
      else if 65 \<le> (of_char c :: nat) \<and> (of_char c :: nat) \<le> 70 then of_char c - 55
      else 0)"

definition unescape :: "char \<Rightarrow> char" where
  "unescape c =
     (if c = CHR ''n'' then CHR 0x0A else if c = CHR ''r'' then CHR 0x0D
      else if c = CHR ''t'' then CHR 0x09 else if c = CHR ''b'' then CHR 0x08
      else if c = CHR ''a'' then CHR 0x07 else c)"

text \<open>A closing quote must be followed by white space or the end of the line.\<close>

definition close_quote :: "string \<Rightarrow> string \<Rightarrow> (string \<times> string) option" where
  "close_quote current rest = (if rest \<noteq> [] \<and> \<not> is_space (hd rest) then None else Some (current, rest))"

function in_quotes :: "string \<Rightarrow> string \<Rightarrow> (string \<times> string) option" where
  "in_quotes current p =
     (case p of
        [] \<Rightarrow> None
      | c # q \<Rightarrow>
          if c = CHR 0x5C \<and> length q \<ge> 3 \<and> q ! 0 = CHR ''x'' \<and> is_hex_digit (q ! 1) \<and> is_hex_digit (q ! 2) then
            in_quotes (current @ [char_of (hex_digit_to_int (q ! 1) * 16 + hex_digit_to_int (q ! 2))]) (drop 3 q)
          else if c = CHR 0x5C \<and> q \<noteq> [] then in_quotes (current @ [unescape (hd q)]) (tl q)
          else if c = CHR 0x22 then close_quote current q
          else in_quotes (current @ [c]) q)"
  by pat_completeness auto
termination by (relation "measure (\<lambda>(current, p). length p)") auto

declare in_quotes.simps [simp del]

fun in_single_quotes :: "string \<Rightarrow> string \<Rightarrow> (string \<times> string) option" where
  "in_single_quotes current [] = None"
| "in_single_quotes current (c # q) =
     (if c = CHR 0x5C \<and> q \<noteq> [] \<and> hd q = CHR 0x27 then in_single_quotes (current @ [CHR 0x27]) (tl q)
      else if c = CHR 0x27 then close_quote current q
      else in_single_quotes (current @ [c]) q)"

fun get_token :: "string \<Rightarrow> string \<Rightarrow> (string \<times> string) option" where
  "get_token current [] = Some (current, [])"
| "get_token current (c # q) =
     (if c = CHR '' '' \<or> c = CHR 0x0A \<or> c = CHR 0x0D \<or> c = CHR 0x09 then Some (current, q)
      else if c = CHR 0x22 then in_quotes current q
      else if c = CHR 0x27 then in_single_quotes current q
      else get_token (current @ [c]) q)"

lemma close_quote_length: "close_quote cur r = Some (t, rest) \<Longrightarrow> length rest \<le> length r"
  by (auto simp: close_quote_def split: if_splits)

lemma in_quotes_length: "in_quotes cur p = Some (t, rest) \<Longrightarrow> length rest \<le> length p"
proof (induction "length p" arbitrary: cur p rule: less_induct)
  case less
  from less.prems obtain c q where p: "p = c # q" by (cases p) (auto simp: in_quotes.simps [of _ "[]"])
  from less.prems consider cur' where "in_quotes cur' (drop 3 q) = Some (t, rest)" "3 \<le> length q"
    | cur' where "in_quotes cur' (tl q) = Some (t, rest)" "q \<noteq> []"
    | "close_quote cur q = Some (t, rest)" | cur' where "in_quotes cur' q = Some (t, rest)"
    unfolding p in_quotes.simps [of cur "c # q"] list.case by (simp only: split: if_splits) blast+
  then show ?case
  proof cases
    case 1
    then have "length rest \<le> length (drop 3 q)" using less.hyps [of "drop 3 q" cur'] p by simp
    then show ?thesis using p by simp
  next
    case 2
    then have "length rest \<le> length (tl q)" using less.hyps [of "tl q" cur'] p by simp
    then show ?thesis using p by simp
  next
    case 3
    with close_quote_length [OF 3] p show ?thesis by simp
  next
    case 4
    with less.hyps [of q cur'] p show ?thesis by simp
  qed
qed

lemma in_single_quotes_length: "in_single_quotes cur p = Some (t, rest) \<Longrightarrow> length rest \<le> length p"
  by (induction cur p rule: in_single_quotes.induct) (force split: if_splits dest: close_quote_length)+

lemma get_token_length: "get_token cur p = Some (t, rest) \<Longrightarrow> p \<noteq> [] \<Longrightarrow> length rest < length p"
  by (induction cur p rule: get_token.induct)
    (force split: if_splits dest: in_quotes_length in_single_quotes_length)+

function sdssplitargs :: "string \<Rightarrow> string list option" where
  "sdssplitargs line =
     (let p = dropWhile is_space line in
      if p = [] then Some []
      else case get_token [] p of
             None \<Rightarrow> None
           | Some (current, rest) \<Rightarrow> map_option ((#) current) (sdssplitargs rest))"
  by pat_completeness auto
termination
proof (relation "measure length")
  fix line p cr current rest
  assume "p = dropWhile is_space line" "p \<noteq> []" "get_token [] p = Some cr" "(current, rest) = cr"
  then have "length rest < length (dropWhile is_space line)" by (metis get_token_length)
  then show "(rest, line) \<in> measure length" using length_dropWhile_le [of is_space line] by simp
qed simp

declare sdssplitargs.simps [simp del]

section \<open>Templates\<close>

function sdstemplate :: "(string \<Rightarrow> string option) \<Rightarrow> string \<Rightarrow> string option" where
  "sdstemplate cb p =
     (if p = [] then Some []
      else
        let pre = takeWhile (\<lambda>c. c \<noteq> CHR 0x7B) p; sv = dropWhile (\<lambda>c. c \<noteq> CHR 0x7B) p in
        if sv = [] then Some p
        else
          let sv = tl sv in
          if sv = [] then None
          else if hd sv = CHR 0x7B then map_option (\<lambda>r. pre @ [CHR 0x7B] @ r) (sdstemplate cb (tl sv))
          else
            let name = takeWhile (\<lambda>c. c \<noteq> CHR 0x7D) sv; ev = dropWhile (\<lambda>c. c \<noteq> CHR 0x7D) sv in
            if ev = [] then None
            else case cb name of
                   None \<Rightarrow> None
                 | Some v \<Rightarrow> map_option (\<lambda>r. pre @ takeWhile (\<lambda>c. c \<noteq> CHR 0x00) v @ r) (sdstemplate cb (tl ev)))"
  by pat_completeness auto
termination
proof (relation "measure (\<lambda>(cb, p). length p)", goal_cases)
  case 1 show ?case by simp
next
  case (2 cb p pre sv sv')
  then have "length sv' < length sv" "length (tl sv') \<le> length sv'" by (cases sv; simp)+
  moreover have "length sv \<le> length p" using 2 by (simp add: length_dropWhile_le)
  ultimately have "length (tl sv') < length p" by linarith
  then show ?case by simp
next
  case (3 cb p pre sv sv' name ev v)
  then have "length sv' < length sv" "length (tl ev) \<le> length ev" by (cases sv; simp)+
  moreover have "length sv \<le> length p" using 3 by (simp add: length_dropWhile_le)
  moreover have "ev = dropWhile (\<lambda>c. c \<noteq> CHR 0x7D) sv'" using 3 by simp
  then have "length ev \<le> length sv'" by (simp only: length_dropWhile_le)
  ultimately have "length (tl ev) < length p" by linarith
  then show ?case by simp
qed

declare sdstemplate.simps [simp del]

section \<open>Splitting and joining are inverse\<close>

lemma split_loop_not_Nil: "split_loop sep cur s \<noteq> []"
proof (induction sep cur s rule: split_loop.induct)
  case (1 sep cur s)
  then show ?case by (simp add: split_loop.simps [of sep cur s])
qed

lemma join_Cons: "ts \<noteq> [] \<Longrightarrow> sdsjoinsds (t # ts) sep = t @ sep @ sdsjoinsds ts sep"
  by (cases ts) auto

lemma join_split_loop: "sdsjoinsds (split_loop sep cur s) sep = cur @ s"
proof (induction sep cur s rule: split_loop.induct)
  case (1 sep cur s)
  consider "sep = [] \<or> length s < length sep"
    | "\<not> (sep = [] \<or> length s < length sep)" "take (length sep) s = sep"
    | "\<not> (sep = [] \<or> length s < length sep)" "take (length sep) s \<noteq> sep" by blast
  then show ?case
  proof cases
    case 2
    then have "sdsjoinsds (split_loop sep cur s) sep = cur @ sep @ drop (length sep) s"
      using 1(1) by (simp add: split_loop.simps [of sep cur s] join_Cons split_loop_not_Nil)
    then show ?thesis using 2(2) by (metis append_take_drop_id)
  next
    case 3
    then have "s \<noteq> []" by auto
    then show ?thesis using 1(2) [OF 3] 3 by (simp add: split_loop.simps [of sep cur s])
  qed (simp add: split_loop.simps [of sep cur s])
qed

text \<open>With a separator of one byte that no piece contains, the pieces come back.\<close>

lemma split_loop_token:
  "c \<notin> set t \<Longrightarrow> split_loop [c] cur (t @ r) = split_loop [c] (cur @ t) r"
proof (induction t arbitrary: cur)
  case (Cons x t)
  then show ?case by (subst split_loop.simps) auto
qed simp

lemma split_loop_join:
  assumes "list_all (\<lambda>t. c \<notin> set t) ts" "ts \<noteq> []"
  shows "split_loop [c] [] (sdsjoinsds ts [c]) = ts"
  using assms
proof (induction ts rule: induct_list012)
  case (2 t)
  then show ?case using split_loop_token [of c t "[]" "[]"] by (simp add: split_loop.simps [of _ _ "[]"])
next
  case (3 t u ts)
  then show ?case using split_loop_token [of c t "[]" "c # sdsjoinsds (u # ts) [c]"]
    by (simp add: split_loop.simps [of "[c]" t])
qed simp

section \<open>Quoting is undone\<close>

lemma hex_digit_back:
  assumes "d < 16"
  shows "is_hex_digit (hex_digit d)" "hex_digit_to_int (hex_digit d) = d"
  using assms by (auto simp: hex_digit_def is_hex_digit_def hex_digit_to_int_def is_digit_def of_char_of)

lemma char_nibbles: "(of_char c :: nat) div 16 < 16" "(of_char c :: nat) mod 16 < 16"
  by (simp_all add: div_less_iff_less_mult)

lemma in_quotes_repr_char: "in_quotes cur (repr_char c @ r) = in_quotes (cur @ [c]) r"
proof -
  have byte: "char_of ((of_char c :: nat) div 16 * 16 + of_char c mod 16) = c" by simp
  show ?thesis
    by (auto simp: repr_char_def in_quotes.simps [of _ "_ # _"] unescape_def hex_digit_back char_nibbles byte
        simp del: mod_div_mult_eq div_mult_mod_eq)
qed

lemma in_quotes_repr:
  "in_quotes cur (concat (map repr_char s) @ CHR 0x22 # r) = close_quote (cur @ s) r"
proof (induction s arbitrary: cur)
  case Nil
  then show ?case by (simp add: in_quotes.simps)
next
  case (Cons c s)
  then show ?case by (simp add: in_quotes_repr_char)
qed

lemma split_repr:
  assumes "r = [] \<or> is_space (hd r)"
  shows "sdssplitargs (sdscatrepr [] s @ r) = map_option ((#) s) (sdssplitargs r)"
proof -
  have "close_quote s r = Some (s, r)" using assms by (auto simp: close_quote_def)
  then show ?thesis using in_quotes_repr [of "[]" s r]
    by (subst sdssplitargs.simps) (simp add: sdscatrepr_def is_space_def)
qed

lemma split_space: "sdssplitargs (CHR '' '' # r) = sdssplitargs r"
  by (subst (1 2) sdssplitargs.simps) (simp add: is_space_def)

lemma split_reprs: "sdssplitargs (sdsjoinsds (map (sdscatrepr []) ss) '' '') = Some ss"
proof (induction ss rule: induct_list012)
  case 1
  show ?case by (simp add: sdssplitargs.simps)
next
  case (2 s)
  show ?case using split_repr [of "[]" s] by (simp add: sdssplitargs.simps [of "[]"])
next
  case (3 s t ss)
  then show ?case
    using split_repr [of "CHR '' '' # sdsjoinsds (map (sdscatrepr []) (t # ss)) '' ''" s]
    by (simp add: split_space is_space_def)
qed

lemma hex_digit_not_nul: "d < 16 \<Longrightarrow> hex_digit d \<noteq> CHR 0x00"
proof
  assume d: "d < 16" "hex_digit d = CHR 0x00"
  then have "(of_char (hex_digit d) :: nat) = 0" by simp
  then show False using d(1) by (simp add: hex_digit_def of_char_of split: if_splits)
qed

lemma repr_no_nul: "CHR 0x00 \<notin> set (sdscatrepr [] s)"
proof -
  have nul: "\<not> isprint (CHR 0x00)" by (simp add: isprint_def)
  have "CHR 0x00 \<notin> set (repr_char c)" for c
    using hex_digit_not_nul [OF char_nibbles(1), of c] hex_digit_not_nul [OF char_nibbles(2), of c] nul
    by (cases "isprint c") (auto simp: repr_char_def)
  then show ?thesis by (simp add: sdscatrepr_def)
qed

section \<open>Comparison and ranges\<close>

abbreviation byte_less :: "(char \<times> char) set" where
  "byte_less \<equiv> {(a, b). (of_char a :: nat) < of_char b}"

lemma memcmp_range: "memcmp s t \<in> {-1, 0, 1}"
  by (induction s t rule: memcmp.induct) auto

lemma memcmp_zero: "length s = length t \<Longrightarrow> memcmp s t = 0 \<longleftrightarrow> s = t"
  by (induction s t rule: memcmp.induct) auto

lemma sdscmp_Cons:
  "sdscmp (a # s) (b # t) = (if a = b then sdscmp s t else if (of_char a :: nat) < of_char b then -1 else 1)"
  by (auto simp: sdscmp_def Let_def)

lemma sdscmp_Nil: "sdscmp [] t = (if t = [] then 0 else -1)" "sdscmp s [] = (if s = [] then 0 else 1)"
  by (auto simp: sdscmp_def Let_def)

lemma lexord_bytes_Cons:
  "(a # s, b # t) \<in> lexord byte_less \<longleftrightarrow> (of_char a :: nat) < of_char b \<or> a = b \<and> (s, t) \<in> lexord byte_less"
  by simp

lemma sdscmp_order:
  "(sdscmp s t = 0 \<longleftrightarrow> s = t) \<and> (sdscmp s t < 0 \<longleftrightarrow> (s, t) \<in> lexord byte_less) \<and> (sdscmp s t > 0 \<longleftrightarrow> (t, s) \<in> lexord byte_less)"
proof (induction s arbitrary: t)
  case Nil
  show ?case by (cases t) (simp_all add: sdscmp_Nil)
next
  case (Cons a s)
  show ?case
  proof (cases t)
    case (Cons b u)
    consider "a = b" | "a \<noteq> b" "(of_char a :: nat) < of_char b" | "a \<noteq> b" "(of_char b :: nat) < of_char a"
      by (metis linorder_neqE_nat of_char_eq_iff)
    then show ?thesis unfolding Cons lexord_bytes_Cons sdscmp_Cons
    proof cases
      case 1
      then show "((if a = b then sdscmp s u else if (of_char a :: nat) < of_char b then -1 else 1) = 0) = (a # s = b # u)
        \<and> ((if a = b then sdscmp s u else if (of_char a :: nat) < of_char b then -1 else 1) < 0) =
          ((of_char a :: nat) < of_char b \<or> a = b \<and> (s, u) \<in> lexord byte_less)
        \<and> (0 < (if a = b then sdscmp s u else if (of_char a :: nat) < of_char b then -1 else 1)) =
          ((of_char b :: nat) < of_char a \<or> b = a \<and> (u, s) \<in> lexord byte_less)"
        using Cons.IH [of u] by (simp only: if_True refl simp_thms list.inject less_irrefl)
    qed simp_all
  qed (simp add: sdscmp_Nil)
qed

lemma u64_int [simp]: "0 \<le> x \<Longrightarrow> x < 2 ^ 64 \<Longrightarrow> u64 x = nat x"
  by (simp add: u64_def)

lemma take_range:
  assumes "start < length s"
  shows "sdssubstr s start len = take len (drop start s)"
  using assms by (auto simp: sdssubstr_def Let_def)

lemma sdsrange_select:
  assumes s: "s \<noteq> []" "int (length s) < 2 ^ 63" and i: "- int (length s) \<le> i" "i < int (length s)"
    and j: "j < 2 ^ 63" "- (2 ^ 63) \<le> j"
  shows "sdsrange s i j =
    (let a = nat (i mod int (length s)); b = (if j < 0 then j + int (length s) else j)
     in take (nat (b + 1) - a) (drop a s))"
proof -
  let ?n = "int (length s)"
  have n: "0 < ?n" using s(1) by simp
  define a where "a = (if i < 0 then ?n + i else i)"
  define b where "b = (if j < 0 then ?n + j else j)"
  have a: "0 \<le> a" "a < ?n" using i n by (auto simp: a_def)
  have mod: "i mod ?n = a"
  proof (cases "i < 0")
    case True
    then have "i mod ?n = (i + ?n) mod ?n" by simp
    also have "\<dots> = i + ?n" using True i by (intro mod_pos_pos_trivial) auto
    finally show ?thesis using True by (simp add: a_def)
  next
    case False
    then show ?thesis using i by (simp add: a_def)
  qed
  have ua: "u64 a = nat a" using a s(2) by simp
  have b: "b < 2 ^ 63" using j s(2) by (auto simp: b_def)
  have "sdsrange s i j = sdssubstr s (nat a) (if a > b then 0 else u64 (b - a + 1))"
    using s(1) ua by (simp add: sdsrange_def Let_def a_def b_def)
  also have "\<dots> = take (if a > b then 0 else u64 (b - a + 1)) (drop (nat a) s)"
    using a by (intro take_range) auto
  also have "(if a > b then 0 else u64 (b - a + 1)) = nat (b + 1) - nat a"
    using a b by auto
  finally show ?thesis unfolding mod Let_def b_def by (simp add: add.commute)
qed

lemma sdstrim_spec:
  "sdstrim s cset = rev (dropWhile (strchr_hit cset) (rev (dropWhile (strchr_hit cset) s)))"
proof (cases "dropWhile (strchr_hit cset) s")
  case (Cons c rest)
  then have "\<not> strchr_hit cset c" by (metis hd_dropWhile list.distinct(1) list.sel(1))
  then show ?thesis using Cons by (simp add: sdstrim_def dropWhile_append)
next
  case Nil
  show ?thesis unfolding sdstrim_def Nil by simp
qed

section \<open>Templates\<close>

fun brace_escape :: "string \<Rightarrow> string" where
  "brace_escape [] = []"
| "brace_escape (c # s) = (if c = CHR 0x7B then [CHR 0x7B, CHR 0x7B] @ brace_escape s else c # brace_escape s)"

lemma template_plain:
  "c \<noteq> CHR 0x7B \<Longrightarrow> sdstemplate cb (c # p) = map_option ((#) c) (sdstemplate cb p)"
  by (cases "p = []") (subst (1 2) sdstemplate.simps, auto simp: Let_def option.map_comp comp_def split: option.splits)+

lemma template_escape: "sdstemplate cb (brace_escape s @ p) = map_option ((@) s) (sdstemplate cb p)"
proof (induction s)
  case Nil
  then show ?case by (simp add: option.map_ident)
next
  case (Cons c s)
  show ?case
  proof (cases "c = CHR 0x7B")
    case True
    then have "sdstemplate cb (brace_escape (c # s) @ p) = map_option ((#) c) (sdstemplate cb (brace_escape s @ p))"
      by (subst sdstemplate.simps) (simp add: Let_def)
    then show ?thesis using Cons by (simp add: option.map_comp comp_def)
  next
    case False
    then show ?thesis using Cons by (simp add: template_plain option.map_comp comp_def)
  qed
qed

lemma template_variable:
  assumes "CHR 0x7D \<notin> set name" "name \<noteq> []" "hd name \<noteq> CHR 0x7B"
  shows "sdstemplate cb (CHR 0x7B # name @ CHR 0x7D # p) =
    (case cb name of None \<Rightarrow> None | Some v \<Rightarrow> map_option ((@) (takeWhile (\<lambda>c. c \<noteq> CHR 0x00) v)) (sdstemplate cb p))"
proof -
  have "takeWhile (\<lambda>c. c \<noteq> CHR 0x7D) (name @ CHR 0x7D # p) = name"
    "dropWhile (\<lambda>c. c \<noteq> CHR 0x7D) (name @ CHR 0x7D # p) = CHR 0x7D # p"
    using assms(1) by (induction name) auto
  then show ?thesis using assms(2,3) by (subst sdstemplate.simps) (simp add: Let_def split: option.splits)
qed

section \<open>Properties\<close>

text \<open>
  C29: a line of arguments that was quoted with \<open>sdscatrepr\<close> and joined with spaces is split by
  \<open>sdssplitargs\<close> into exactly these arguments, whatever bytes they hold; the quoted form holds
  no NUL, so it survives as a C string.
\<close>

theorem splitargs_catrepr:
  "sdssplitargs (sdsjoinsds (map (sdscatrepr []) ss) '' '') = Some ss \<and> CHR 0x00 \<notin> set (sdscatrepr [] s)"
  using split_reprs repr_no_nul by blast

text \<open>
  C30: joining the pieces that \<open>sdssplitlen\<close> returns with the same separator gives the string
  back; and pieces that do not contain a separator of one byte come back from their join.
\<close>

theorem split_join_inverse:
  assumes "sdssplitlen s sep = Some ts" "list_all (\<lambda>t. c \<notin> set t) us" "us \<noteq> []" "sdsjoinsds us [c] \<noteq> []"
  shows "sdsjoinsds ts sep = s \<and> sdssplitlen (sdsjoinsds us [c]) [c] = Some us"
  using assms join_split_loop [of sep "[]" s] split_loop_join [OF assms(2,3)]
  by (auto simp: sdssplitlen_def split: if_splits)

theorem split_join_inverse_witness:
  "sdsjoinsds [''a'', ''b'', []] ''--'' = ''a--b--'' \<and> sdssplitlen (sdsjoinsds [''x'', [], ''yz''] '','') '','' = Some [''x'', [], ''yz'']"
  by (rule split_join_inverse) (simp_all add: sdssplitlen_def split_loop.simps)

text \<open>\<open>sdscmp\<close> is the lexicographic order on unsigned bytes; it returns 0 only for equal strings.\<close>

theorem sdscmp_lexicographic:
  "(sdscmp s t = 0 \<longleftrightarrow> s = t) \<and> (sdscmp s t < 0 \<longleftrightarrow> (s, t) \<in> lexord {(a, b). (of_char a :: nat) < of_char b})
    \<and> (sdscmp s t > 0 \<longleftrightarrow> (t, s) \<in> lexord {(a, b). (of_char a :: nat) < of_char b})"
  by (rule sdscmp_order)

text \<open>
  C31: \<open>sdsrange\<close> with a start inside the string, counted from either end, selects the characters
  from the start to the stop inclusive, cut at the end of the string.
\<close>

theorem sdsrange_selects:
  assumes "s \<noteq> []" "int (length s) < 2 ^ 63" "- int (length s) \<le> i" "i < int (length s)" "j < 2 ^ 63" "- (2 ^ 63) \<le> j"
  shows "sdsrange s i j =
    (let a = nat (i mod int (length s)); b = (if j < 0 then j + int (length s) else j)
     in take (nat (b + 1) - a) (drop a s))"
  by (rule sdsrange_select [OF assms])

theorem sdsrange_selects_witness:
  "sdsrange ''Hello World'' (-5) (-2) = ''Worl''"
  using sdsrange_selects [of "''Hello World''" "-5" "-2"] by simp

text \<open>
  C32: in a template, text whose braces are doubled is copied and a variable is replaced by the
  value the callback returns; a callback that fails makes the whole expansion fail.
\<close>

theorem template_expands:
  assumes "CHR 0x7D \<notin> set name" "name \<noteq> []" "hd name \<noteq> CHR 0x7B"
  shows "sdstemplate cb (brace_escape s @ CHR 0x7B # name @ CHR 0x7D # brace_escape t) =
    map_option (\<lambda>v. s @ takeWhile (\<lambda>c. c \<noteq> CHR 0x00) v @ t) (cb name)"
proof -
  have "sdstemplate cb (brace_escape t) = Some t"
    using template_escape [of cb t "[]"] by (simp add: sdstemplate.simps [of _ "[]"])
  then show ?thesis using template_variable [OF assms, of cb "brace_escape t"]
    by (simp add: template_escape split: option.splits)
qed

theorem template_expands_witness:
  "sdstemplate (\<lambda>n. if n = ''v'' then Some ''7'' else None) (brace_escape ''{a'' @ CHR 0x7B # ''v'' @ CHR 0x7D # brace_escape ''!'') =
    Some (''{a'' @ ''7'' @ ''!'')"
  using template_expands [of "''v''" "\<lambda>n. if n = ''v'' then Some ''7'' else None" "''{a''" "''!''"] by simp

end
