(* ===== verification/Hiredis.thy ===== *)
theory Hiredis
  imports Client Numbers
begin

text \<open>
  How a client turns a command into bytes (\<open>deps/hiredis/hiredis.c\<close>): \<open>redisvFormatCommand\<close> expands
  a format such as \<open>SET %s %s\<close> into arguments, \<open>redisFormatCommandArgv\<close> takes the arguments
  directly; both write the request as an array of bulk strings. Allocation always
  succeeds. The text of a numeric conversion is what \<open>vsnprintf\<close> of the C library produces: it is
  the parameter \<open>vprintf\<close> of the definitions, applied to the conversion and its argument.

  \<open>resp_command\<close> is the request the protocol prescribes for a list of arguments. The lemmas show
  that both functions produce it, that the assertion on the computed length holds, and which
  arguments a format stands for.
\<close>

section \<open>Lengths\<close>

function count_loop :: "nat \<Rightarrow> nat \<Rightarrow> nat" where
  "count_loop result v =
     (if v < 10 then result
      else if v < 100 then result + 1
      else if v < 1000 then result + 2
      else if v < 10000 then result + 3
      else count_loop (result + 4) (v div 10000))"
  by pat_completeness auto
termination by (relation "measure snd") auto

declare count_loop.simps [simp del]

definition countDigits :: "nat \<Rightarrow> nat" where
  "countDigits v = count_loop 1 v"

definition bulklen :: "nat \<Rightarrow> nat" where
  "bulklen len = 1 + countDigits len + 2 + len + 2"

section \<open>Writing the request\<close>

abbreviation CRLF :: string where
  "CRLF \<equiv> [CHR 0x0D, CHR 0x0A]"

fun write_args :: "string list \<Rightarrow> string" where
  "write_args [] = []"
| "write_args (a # as) = ''$'' @ decimal (length a) @ CRLF @ a @ CRLF @ write_args as"

text \<open>
  The arguments of the \<open>Argv\<close> functions: with \<open>argvlen\<close> the given number of bytes of each array,
  without it the characters before the NUL.
\<close>

fun argv_values :: "string list \<Rightarrow> nat list option \<Rightarrow> string list res" where
  "argv_values argv None = Inr (map cstr argv)"
| "argv_values [] (Some ls) = Inr []"
| "argv_values (a # as) (Some (l # ls)) =
     (if l \<le> length a then bindr (argv_values as (Some ls)) (\<lambda>vs. Inr (take l a # vs)) else Inl OutOfBounds)"
| "argv_values (a # as) (Some []) = Inl OutOfBounds"

definition redisFormatCommandArgv :: "string list \<Rightarrow> nat list option \<Rightarrow> (nat \<times> string) res" where
  "redisFormatCommandArgv argv argvlen =
     bindr (argv_values argv argvlen) (\<lambda>vs.
       let totlen = 1 + countDigits (length argv) + 2 + sum_list (map (\<lambda>a. bulklen (length a)) vs);
           cmd = ''*'' @ decimal (length argv) @ CRLF @ write_args vs in
       if length cmd = totlen then Inr (totlen, cmd) else Inl AssertFailed)"

text \<open>The variant that builds an \<open>hisds\<close> appends to an empty string.\<close>

fun append_args :: "string \<Rightarrow> string list \<Rightarrow> string" where
  "append_args cmd [] = cmd"
| "append_args cmd (a # as) = append_args (((cmd @ ''$'' @ decimal (length a) @ CRLF) @ a) @ CRLF) as"

definition redisFormatSdsCommandArgv :: "string list \<Rightarrow> nat list option \<Rightarrow> (nat \<times> string) res" where
  "redisFormatSdsCommandArgv argv argvlen =
     bindr (argv_values argv argvlen) (\<lambda>vs.
       let totlen = 1 + countDigits (length argv) + 2 + sum_list (map (\<lambda>a. bulklen (length a)) vs);
           cmd = append_args (''*'' @ decimal (length argv) @ CRLF) vs in
       if length cmd = totlen then Inr (totlen, cmd) else Inl AssertFailed)"

section \<open>Formats\<close>

text \<open>
  The arguments of a call: a C string (its characters before the NUL), a pointer and a length,
  or a number of one of the types a conversion may name. Taking an argument of another
  type, or one that is not there, reads outside the argument list.
\<close>

datatype 'd fmt_arg = FStr string | FBin string | FInt int | FLong int | FLongLong int | FDouble 'd

datatype conv_type = CInt | CLong | CLongLong | CDouble

fun va_ok :: "conv_type \<Rightarrow> 'd fmt_arg \<Rightarrow> bool" where
  "va_ok CInt (FInt i) = True"
| "va_ok CLong (FLong i) = True"
| "va_ok CLongLong (FLongLong i) = True"
| "va_ok CDouble (FDouble d) = True"
| "va_ok _ _ = False"

definition is_flag :: "char \<Rightarrow> bool" where
  "is_flag c \<longleftrightarrow> c \<in> set ''#0-+ ''"

definition is_intfmt :: "char \<Rightarrow> bool" where
  "is_intfmt c \<longleftrightarrow> c \<in> set ''diouxX''"

text \<open>The part of the format from the conversion character on, \<open>None\<close> for \<open>fmt_invalid\<close>.\<close>

definition scan_conversion :: "string \<Rightarrow> (conv_type \<times> string) option" where
  "scan_conversion p =
     (let p = dropWhile is_flag p;
          p = dropWhile is_digit p;
          p = (case p of c # q \<Rightarrow> if c = CHR ''.'' then dropWhile is_digit q else p | [] \<Rightarrow> p);
          int_at = (\<lambda>t q. if q \<noteq> [] \<and> is_intfmt (hd q) then Some (t, q) else None)
      in if p = [] then None
         else if is_intfmt (hd p) then Some (CInt, p)
         else if hd p \<in> set ''eEfFgGaA'' then Some (CDouble, p)
         else if take 2 p = ''hh'' then int_at CInt (drop 2 p)
         else if hd p = CHR ''h'' then int_at CInt (drop 1 p)
         else if take 2 p = ''ll'' then int_at CLongLong (drop 2 p)
         else if hd p = CHR ''l'' then int_at CLong (drop 1 p)
         else None)"

lemma scan_conversion_length: "scan_conversion p = Some (t, q) \<Longrightarrow> length q \<le> length p"
proof -
  assume a: "scan_conversion p = Some (t, q)"
  define p1 where "p1 = dropWhile is_digit (dropWhile is_flag p)"
  define p2 where "p2 = (case p1 of c # q \<Rightarrow> if c = CHR ''.'' then dropWhile is_digit q else p1 | [] \<Rightarrow> p1)"
  have "length p1 \<le> length p"
    unfolding p1_def by (meson le_trans length_dropWhile_le)
  moreover have "length p2 \<le> length p1"
    unfolding p2_def by (cases p1) (auto intro: le_SucI length_dropWhile_le)
  moreover have "length q \<le> length p2"
    using a unfolding scan_conversion_def Let_def p1_def [symmetric] p2_def [symmetric] by (auto split: if_splits)
  ultimately show ?thesis by simp
qed

text \<open>
  The loop over the format. \<open>curarg\<close> is the argument being built, \<open>touched\<close> whether there is one,
  \<open>argv\<close> the finished arguments, \<open>args\<close> the arguments of the call that are left. A conversion
  of 14 characters or more is not printed: only its first two characters are skipped.
\<close>

function format_loop :: "(string \<Rightarrow> 'd fmt_arg \<Rightarrow> string) \<Rightarrow> string \<Rightarrow> string \<Rightarrow> bool \<Rightarrow> string list \<Rightarrow> 'd fmt_arg list \<Rightarrow> string list option res" where
  "format_loop vprintf c curarg touched argv args =
     (case c of
        [] \<Rightarrow> Inr (Some (if touched then argv @ [curarg] else argv))
      | ch # c' \<Rightarrow>
          if ch \<noteq> CHR ''%'' \<or> c' = [] then
            if ch = CHR '' '' then
              if touched then format_loop vprintf c' [] False (argv @ [curarg]) args
              else format_loop vprintf c' curarg touched argv args
            else format_loop vprintf c' (curarg @ [ch]) True argv args
          else if hd c' = CHR ''s'' then
            case args of
              FStr s # as \<Rightarrow> format_loop vprintf (tl c') (curarg @ s) True argv as
            | _ \<Rightarrow> Inl OutOfBounds
          else if hd c' = CHR ''b'' then
            case args of
              FBin s # as \<Rightarrow> format_loop vprintf (tl c') (curarg @ s) True argv as
            | _ \<Rightarrow> Inl OutOfBounds
          else if hd c' = CHR ''%'' then format_loop vprintf (tl c') (curarg @ ''%'') True argv args
          else
            case scan_conversion c' of
              None \<Rightarrow> Inr None
            | Some (t, p) \<Rightarrow>
                (case args of
                   [] \<Rightarrow> Inl OutOfBounds
                 | a # as \<Rightarrow>
                     if \<not> va_ok t a then Inl OutOfBounds
                     else let l = length c - length p + 1 in
                       if l < 14 then format_loop vprintf (tl p) (curarg @ vprintf (take l c) a) True argv as
                       else format_loop vprintf (tl c') curarg True argv as))"
  by pat_completeness auto
termination
  by (relation "measure (\<lambda>(vprintf, c, curarg, touched, argv, args). length c)")
     (auto dest!: scan_conversion_length)

declare format_loop.simps [simp del]

definition redisvFormatCommand :: "(string \<Rightarrow> 'd fmt_arg \<Rightarrow> string) \<Rightarrow> string \<Rightarrow> 'd fmt_arg list \<Rightarrow> (nat \<times> string) option res" where
  "redisvFormatCommand vprintf fmt args =
     bindr (format_loop vprintf fmt [] False [] args) (\<lambda>argv.
       case argv of
         None \<Rightarrow> Inr None
       | Some argv \<Rightarrow>
           let totlen = sum_list (map (\<lambda>a. bulklen (length a)) argv) + 1 + countDigits (length argv) + 2;
               cmd = ''*'' @ decimal (length argv) @ CRLF @ write_args argv in
           if int totlen > INT_MAX then Inl SignedOverflow
           else if length cmd = totlen then Inr (Some (totlen, cmd)) else Inl AssertFailed)"

text \<open>The result of \<open>redisFormatCommand\<close>: a negative length becomes \<open>-1\<close>.\<close>

definition redisFormatCommand :: "(string \<Rightarrow> 'd fmt_arg \<Rightarrow> string) \<Rightarrow> string \<Rightarrow> 'd fmt_arg list \<Rightarrow> (int \<times> string option) res" where
  "redisFormatCommand vprintf fmt args =
     bindr (redisvFormatCommand vprintf fmt args) (\<lambda>r.
       let (len, target) = (case r of None \<Rightarrow> (-2, None) | Some (n, cmd) \<Rightarrow> (int n, Some cmd)) in
       Inr (if len < 0 then -1 else len, target))"

section \<open>The request that is written\<close>

text \<open>An array of bulk strings: what the protocol prescribes for a list of arguments.\<close>

definition resp_line :: "char \<Rightarrow> nat \<Rightarrow> string" where
  "resp_line t n = t # decimal n @ CRLF"

definition resp_bulk :: "string \<Rightarrow> string" where
  "resp_bulk a = resp_line (CHR ''$'') (length a) @ a @ CRLF"

definition resp_command :: "string list \<Rightarrow> string" where
  "resp_command argv = resp_line (CHR ''*'') (length argv) @ concat (map resp_bulk argv)"

lemma count_loop_length: "count_loop r v + 1 = r + length (decimal v)"
proof (induction r v rule: count_loop.induct)
  case (1 r v)
  have small: "10 ^ k \<le> v \<Longrightarrow> v < 10 ^ Suc k \<Longrightarrow> length (decimal v) = Suc k" for k
    by (rule length_decimal_between)
  show ?case
  proof (cases "v < 10000")
    case True
    then show ?thesis
      using small [of 1] small [of 2] small [of 3] length_decimal_rec [of v] by (subst count_loop.simps) auto
  next
    case False
    then show ?thesis
      using 1 length_decimal_pow [of 4 v] by (subst count_loop.simps) auto
  qed
qed

lemma countDigits_length: "countDigits v = length (decimal v)"
  using count_loop_length [of 1 v] by (simp add: countDigits_def)

lemma length_resp_bulk: "length (resp_bulk a) = bulklen (length a)"
  by (simp add: resp_bulk_def resp_line_def bulklen_def countDigits_length)

lemma write_args_bulks: "write_args argv = concat (map resp_bulk argv)"
  by (induction argv) (auto simp: resp_bulk_def resp_line_def)

lemma length_resp_command:
  "length (resp_command argv) = sum_list (map (\<lambda>a. bulklen (length a)) argv) + 1 + countDigits (length argv) + 2"
  by (simp add: resp_command_def resp_line_def countDigits_length length_concat comp_def length_resp_bulk)

lemma append_args_writes: "append_args cmd as = cmd @ write_args as"
  by (induction cmd as rule: append_args.induct) simp_all

lemma length_argv_values: "argv_values argv argvlen = Inr vs \<Longrightarrow> length vs = length argv"
  by (induction argv argvlen arbitrary: vs rule: argv_values.induct) (auto simp: bindr_eq_Inr split: if_splits)

lemma redisFormatCommandArgv_writes:
  assumes "argv_values argv argvlen = Inr vs"
  shows "redisFormatCommandArgv argv argvlen = Inr (length (resp_command vs), resp_command vs)"
    "redisFormatSdsCommandArgv argv argvlen = Inr (length (resp_command vs), resp_command vs)"
  using length_resp_command [of vs] length_argv_values [OF assms] assms
  by (simp_all add: redisFormatCommandArgv_def redisFormatSdsCommandArgv_def append_args_writes
      Let_def write_args_bulks resp_command_def resp_line_def)

lemma redisvFormatCommand_writes:
  assumes "format_loop vprintf fmt [] False [] args = Inr (Some argv)" "int (length (resp_command argv)) \<le> INT_MAX"
  shows "redisvFormatCommand vprintf fmt args = Inr (Some (length (resp_command argv), resp_command argv))"
  using length_resp_command [of argv] assms
  by (simp add: redisvFormatCommand_def Let_def write_args_bulks resp_command_def resp_line_def)

section \<open>The arguments of a format\<close>

text \<open>A word of a format: literal characters, or a conversion of a string argument.\<close>

datatype fmt_word = Lit string | Sub string | SubB string

fun word_fmt :: "fmt_word \<Rightarrow> string" where
  "word_fmt (Lit w) = w"
| "word_fmt (Sub s) = ''%s''"
| "word_fmt (SubB s) = ''%b''"

fun word_args :: "fmt_word \<Rightarrow> 'd fmt_arg list" where
  "word_args (Lit w) = []"
| "word_args (Sub s) = [FStr s]"
| "word_args (SubB s) = [FBin s]"

fun word_value :: "fmt_word \<Rightarrow> string" where
  "word_value (Lit w) = w"
| "word_value (Sub s) = s"
| "word_value (SubB s) = s"

fun word_ok :: "fmt_word \<Rightarrow> bool" where
  "word_ok (Lit w) \<longleftrightarrow> w \<noteq> [] \<and> CHR '' '' \<notin> set w \<and> CHR ''%'' \<notin> set w"
| "word_ok _ \<longleftrightarrow> True"

fun words_fmt :: "fmt_word list \<Rightarrow> string" where
  "words_fmt [] = []"
| "words_fmt [w] = word_fmt w"
| "words_fmt (w # ws) = word_fmt w @ '' '' @ words_fmt ws"

lemma format_loop_literal:
  "CHR '' '' \<notin> set w \<Longrightarrow> CHR ''%'' \<notin> set w \<Longrightarrow>
   format_loop vprintf (w @ c) cur b argv args = format_loop vprintf c (cur @ w) (b \<or> w \<noteq> []) argv args"
proof (induction w arbitrary: cur b)
  case (Cons ch w)
  then show ?case by (subst format_loop.simps) (auto simp: Cons.IH)
qed simp

lemma format_loop_word:
  "word_ok w \<Longrightarrow>
   format_loop vprintf (word_fmt w @ c) [] False argv (word_args w @ args) = format_loop vprintf c (word_value w) True argv args"
  by (cases w) (simp_all add: format_loop_literal, simp_all add: format_loop.simps [of _ "CHR ''%'' # _"])

lemma format_loop_end: "format_loop vprintf [] cur True argv args = Inr (Some (argv @ [cur]))"
  by (simp add: format_loop.simps)

lemma format_loop_space:
  "format_loop vprintf (CHR '' '' # c) cur True argv args = format_loop vprintf c [] False (argv @ [cur]) args"
  by (subst format_loop.simps) simp

lemma format_loop_words:
  "list_all word_ok ws \<Longrightarrow> ws \<noteq> [] \<Longrightarrow>
   format_loop vprintf (words_fmt ws) [] False argv (concat (map word_args ws)) = Inr (Some (argv @ map word_value ws))"
proof (induction ws arbitrary: argv rule: words_fmt.induct)
  case (2 w)
  then show ?case using format_loop_word [of w vprintf "[]" argv "[]"] by (simp add: format_loop_end)
next
  case (3 w v ws)
  then show ?case by (simp add: format_loop_word format_loop_space)
qed simp

section \<open>Properties\<close>

text \<open>
  C38: A format made of literal words, \<open>%s\<close> and \<open>%b\<close> separated by spaces is sent as exactly one
  argument per word, whatever bytes the arguments hold (spaces, \<open>%\<close> and line ends included), and
  the assertion on the precomputed length holds, as long as the request fits an \<open>int\<close>.
\<close>
theorem redisFormatCommand_words:
  assumes "list_all word_ok ws" "ws \<noteq> []" "int (length (resp_command (map word_value ws))) \<le> INT_MAX"
  shows "redisFormatCommand vprintf (words_fmt ws) (concat (map word_args ws)) =
    Inr (int (length (resp_command (map word_value ws))), Some (resp_command (map word_value ws)))"
  using redisvFormatCommand_writes [of vprintf "words_fmt ws" "concat (map word_args ws)" "map word_value ws"]
    format_loop_words [OF assms(1,2), of vprintf "[]"] assms(3)
  by (simp add: redisFormatCommand_def)

theorem redisFormatCommand_words_witness:
  "redisFormatCommand (\<lambda>f a. []) ''SET %s %s'' [FStr ''node 1'', FStr ''5%''] =
     Inr (int (length (resp_command [''SET'', ''node 1'', ''5%''])), Some (resp_command [''SET'', ''node 1'', ''5%'']))"
proof -
  have "length (resp_command [''SET'', ''node 1'', ''5%'']) = 33"
    by (simp add: resp_command_def resp_bulk_def resp_line_def decimal.simps)
  then show ?thesis
    using redisFormatCommand_words [of "[Lit ''SET'', Sub ''node 1'', Sub ''5%'']" "\<lambda>f a. []"] by (simp add: INT_MAX_def)
qed

text \<open>
  C39: The two functions that take the arguments as an array write the same request, with the same
  length, and it is the request \<open>redisFormatCommand\<close> writes for a format with one \<open>%b\<close> per argument:
  three formatters, one encoding.
\<close>
theorem formatters_agree:
  fixes vprintf :: "string \<Rightarrow> 'd fmt_arg \<Rightarrow> string"
  assumes "argv_values argv argvlen = Inr vs" "vs \<noteq> []" "int (length (resp_command vs)) \<le> INT_MAX"
  shows "redisFormatCommandArgv argv argvlen = Inr (length (resp_command vs), resp_command vs) \<and>
    redisFormatSdsCommandArgv argv argvlen = redisFormatCommandArgv argv argvlen \<and>
    redisFormatCommand vprintf (words_fmt (map SubB vs)) (map FBin vs) =
      Inr (int (length (resp_command vs)), Some (resp_command vs))"
proof -
  have "map word_value (map SubB vs) = vs" "concat (map word_args (map SubB vs)) = (map FBin vs :: 'd fmt_arg list)"
    by (simp_all add: comp_def concat_map_singleton)
  moreover have "list_all word_ok (map SubB vs)" by (simp add: list_all_iff)
  ultimately show ?thesis
    using redisFormatCommandArgv_writes [OF assms(1)] assms(2,3)
      redisvFormatCommand_writes [of vprintf "words_fmt (map SubB vs)" "map FBin vs" vs]
      format_loop_words [of "map SubB vs" vprintf "[]"]
    by (simp add: redisFormatCommand_def)
qed

theorem formatters_agree_witness:
  "redisFormatSdsCommandArgv [''GETx'', ''k''] (Some [3, 1]) = redisFormatCommandArgv [''GETx'', ''k''] (Some [3, 1]) \<and>
   redisFormatCommandArgv [''GETx'', ''k''] (Some [3, 1]) = Inr (20, ''*2'' @ CRLF @ ''$3'' @ CRLF @ ''GET'' @ CRLF @ ''$1'' @ CRLF @ ''k'' @ CRLF)"
proof -
  have e: "resp_command [''GET'', ''k''] = ''*2'' @ CRLF @ ''$3'' @ CRLF @ ''GET'' @ CRLF @ ''$1'' @ CRLF @ ''k'' @ CRLF"
    by (simp add: resp_command_def resp_bulk_def resp_line_def decimal.simps digit_chars [simplified numeral_2_eq_2 numeral_3_eq_3])
  have v: "argv_values [''GETx'', ''k''] (Some [3, 1]) = Inr [''GET'', ''k'']"
    by (simp add: numeral_3_eq_3)
  have n: "length (resp_command [''GET'', ''k'']) = 20" unfolding e by simp
  then have "int (length (resp_command [''GET'', ''k''])) \<le> INT_MAX" by (simp add: INT_MAX_def)
  then show ?thesis
    using formatters_agree [OF v, of "\<lambda>f a. []"] unfolding e [symmetric] n by blast
qed

end
