(* ===== verification/Protocol.thy ===== *)
theory Protocol
  imports Sds Hiredis
begin

text \<open>
  How the server turns the bytes of a connection into commands (\<open>networking.c\<close>):
  \<open>processInputBuffer\<close>, which calls \<open>processInlineBuffer\<close> or \<open>processMultibulkBuffer\<close> for one request
  at a time and hands complete requests on to be executed.

  The record \<open>client\<close> has the fields of the C structure these functions use. \<open>strchr\<close> stops at a NUL,
  so a line with a NUL in it is never found; \<open>argv\<close> is the part of the array that is filled, and
  \<open>c_argv_len\<close> its allocated size, checked at every write. Executing a command is represented by
  appending its arguments to \<open>executed\<close>: the command neither blocks nor frees nor closes the client.
  Replies to a master are dropped. Logging, memory accounting and buffer allocation have no
  state here.

  The \<open>s_\<close> functions are a reference parser that drops bytes as it consumes them: no positions,
  no trimming, no reuse of the query buffer as an argument.
\<close>

section \<open>State\<close>

datatype reqtype = REQ_NONE | REQ_INLINE | REQ_MULTIBULK

record client =
  querybuf :: string
  qb_pos :: nat
  c_reqtype :: reqtype
  c_multibulklen :: nat
  c_bulklen :: int
  c_argv :: "string list"
  c_argv_len :: int
  c_argv_len_sum :: int
  is_master :: bool
  is_slave :: bool
  auth_required :: bool
  closing :: bool
  freed :: bool
  repl_ack_time :: nat
  reploff :: int
  read_reploff :: int
  repl_applied :: nat
  reply_buf :: string
  propagated :: string
  executed :: "string list list"

record config =
  proto_max_bulk_len :: int
  client_max_querybuf_len :: nat
  unixtime :: nat

definition PROTO_INLINE_MAX_SIZE :: nat where "PROTO_INLINE_MAX_SIZE = 65536"

definition PROTO_MBULK_BIG_ARG :: int where "PROTO_MBULK_BIG_ARG = 32768"

text \<open>The bytes that are not parsed yet.\<close>

definition unparsed :: "client \<Rightarrow> string" where
  "unparsed c = drop (qb_pos c) (querybuf c)"

abbreviation pending :: "client \<Rightarrow> nat" where
  "pending c \<equiv> length (unparsed c)"

definition strchr_pos :: "string \<Rightarrow> char \<Rightarrow> nat option" where
  "strchr_pos s ch =
     (let n = length (takeWhile (\<lambda>x. x \<noteq> ch \<and> x \<noteq> CHR 0x00) s) in
      if n < length s \<and> s ! n = ch then Some n else None)"

section \<open>Errors\<close>

definition addReplyErrorLength :: "client \<Rightarrow> string \<Rightarrow> client" where
  "addReplyErrorLength c s =
     (if is_master c then c
      else c\<lparr>reply_buf := reply_buf c @ (if s = [] \<or> hd s \<noteq> CHR ''-'' then ''-ERR '' else []) @ s @ CRLF\<rparr>)"

definition addReplyErrorFormat :: "string \<Rightarrow> string" where
  "addReplyErrorFormat s = sdsmapchars (sdstrim s CRLF) CRLF ''  ''"

definition setProtocolError :: "client \<Rightarrow> client" where
  "setProtocolError c = c\<lparr>closing := True\<rparr>"

abbreviation protocol_error :: "client \<Rightarrow> string \<Rightarrow> client" where
  "protocol_error c msg \<equiv> setProtocolError (addReplyErrorLength c msg)"

section \<open>Inline requests\<close>

text \<open>The length of a line and of its end, which is \<open>\n\<close> or \<open>\r\n\<close>.\<close>

definition inline_end :: "string \<Rightarrow> (nat \<times> nat) option" where
  "inline_end s =
     (case strchr_pos s (CHR 0x0A) of
        None \<Rightarrow> None
      | Some n \<Rightarrow> Some (if n \<noteq> 0 \<and> s ! (n - 1) = CHR 0x0D then (n - 1, 2) else (n, 1)))"

definition set_inline_argv :: "client \<Rightarrow> nat \<Rightarrow> string list \<Rightarrow> client" where
  "set_inline_argv c pos argv =
     (let c = c\<lparr>qb_pos := pos\<rparr>;
          c = (if argv \<noteq> [] then c\<lparr>c_argv_len := int (length argv), c_argv_len_sum := 0\<rparr> else c)
      in c\<lparr>c_argv := argv, c_argv_len_sum := c_argv_len_sum c + int (sum_list (map length argv))\<rparr>)"

text \<open>The boolean is \<open>True\<close> for \<open>C_OK\<close>.\<close>

definition processInlineBuffer :: "config \<Rightarrow> client \<Rightarrow> bool \<times> client" where
  "processInlineBuffer cfg c =
     (case inline_end (unparsed c) of
        None \<Rightarrow>
          (False, if pending c > PROTO_INLINE_MAX_SIZE
                  then protocol_error c ''Protocol error: too big inline request'' else c)
      | Some (querylen, linefeed_chars) \<Rightarrow>
          (case sdssplitargs (take querylen (unparsed c)) of
             None \<Rightarrow> (False, protocol_error c ''Protocol error: unbalanced quotes in request'')
           | Some argv \<Rightarrow>
               let c = (if querylen = 0 \<and> is_slave c then c\<lparr>repl_ack_time := unixtime cfg\<rparr> else c) in
               if querylen \<noteq> 0 \<and> is_master c then (False, setProtocolError c)
               else (True, set_inline_argv c (qb_pos c + (querylen + linefeed_chars)) argv)))"

section \<open>Arrays of bulk strings\<close>

text \<open>A header line: incomplete, refused with a message, not starting as it must, or its length and number.\<close>

datatype line = More | Bad string | NotArray | Line nat int

definition mbulk_line :: "client \<Rightarrow> string \<Rightarrow> line" where
  "mbulk_line c s =
     (case strchr_pos s (CHR 0x0D) of
        None \<Rightarrow> if length s > PROTO_INLINE_MAX_SIZE then Bad ''Protocol error: too big mbulk count string'' else More
      | Some n \<Rightarrow>
          if int n > int (length s) - 2 then More
          else if s ! 0 \<noteq> CHR ''*'' then NotArray
          else case string2ll (take (n - 1) (drop 1 s)) of
            None \<Rightarrow> Bad ''Protocol error: invalid multibulk length''
          | Some ll \<Rightarrow>
              if ll > INT_MAX then Bad ''Protocol error: invalid multibulk length''
              else if ll > 10 \<and> auth_required c then Bad ''Protocol error: unauthenticated multibulk length''
              else Line n ll)"

definition bulk_line :: "config \<Rightarrow> client \<Rightarrow> string \<Rightarrow> line" where
  "bulk_line cfg c s =
     (case strchr_pos s (CHR 0x0D) of
        None \<Rightarrow> if length s > PROTO_INLINE_MAX_SIZE then Bad ''Protocol error: too big bulk count string'' else More
      | Some n \<Rightarrow>
          if int n > int (length s) - 2 then More
          else if s ! 0 \<noteq> CHR ''$'' then
            Bad (addReplyErrorFormat (''Protocol error: expected '' @ [CHR 0x27, CHR ''$'', CHR 0x27] @ '', got '' @ [CHR 0x27, s ! 0, CHR 0x27]))
          else case string2ll (take (n - 1) (drop 1 s)) of
            None \<Rightarrow> Bad ''Protocol error: invalid bulk length''
          | Some ll \<Rightarrow>
              if ll < 0 \<or> (\<not> is_master c \<and> ll > proto_max_bulk_len cfg) then Bad ''Protocol error: invalid bulk length''
              else if ll > 16384 \<and> auth_required c then Bad ''Protocol error: unauthenticated bulk length''
              else Line n ll)"

text \<open>Reading a bulk length: go on with the loop, \<open>break\<close> out of it, or return \<open>C_ERR\<close>.\<close>

datatype 'a step = Go 'a | Break 'a | Fail 'a

definition set_bulklen :: "client \<Rightarrow> nat \<Rightarrow> int \<Rightarrow> client" where
  "set_bulklen c pos ll =
     (let c = c\<lparr>qb_pos := pos\<rparr>;
          c = (if \<not> is_master c \<and> ll \<ge> PROTO_MBULK_BIG_ARG \<and> int (length (querybuf c) - qb_pos c) \<le> ll + 2
               then c\<lparr>querybuf := sdsrange (querybuf c) (int (qb_pos c)) (-1), qb_pos := 0\<rparr> else c)
      in c\<lparr>c_bulklen := ll\<rparr>)"

definition bulk_header :: "config \<Rightarrow> client \<Rightarrow> client step" where
  "bulk_header cfg c =
     (case bulk_line cfg c (unparsed c) of
        Line n ll \<Rightarrow> Go (set_bulklen c (qb_pos c + n + 2) ll)
      | Bad msg \<Rightarrow> Fail (protocol_error c msg)
      | _ \<Rightarrow> Break c)"

text \<open>Room for one more argument: the array is doubled, but not past what the request needs.\<close>

definition grow_argv :: "client \<Rightarrow> client res" where
  "grow_argv c =
     (if int (length (c_argv c)) \<ge> c_argv_len c then
        if int (length (c_argv c) + c_multibulklen c) > INT_MAX then Inl SignedOverflow
        else Inr (c\<lparr>c_argv_len := min (if c_argv_len c < INT_MAX div 2 then c_argv_len c * 2 else INT_MAX)
                                     (int (length (c_argv c) + c_multibulklen c))\<rparr>)
      else Inr c)"

definition push_argv :: "client \<Rightarrow> string \<Rightarrow> client res" where
  "push_argv c a =
     (if int (length (c_argv c)) < c_argv_len c
      then Inr (c\<lparr>c_argv := c_argv c @ [a], c_argv_len_sum := c_argv_len_sum c + c_bulklen c\<rparr>) else Inl OutOfBounds)"

text \<open>Reading a bulk argument: \<open>None\<close> when there is not enough data.\<close>

definition bulk_body :: "client \<Rightarrow> client option res" where
  "bulk_body c =
     (if c_bulklen c + 2 > LONG_MAX then Inl SignedOverflow
      else if length (querybuf c) - qb_pos c < u64 (c_bulklen c + 2) then Inr None
      else if c_bulklen c < 0 then Inl OutOfBounds
      else bindr (grow_argv c) (\<lambda>c.
        bindr
          (if \<not> is_master c \<and> qb_pos c = 0 \<and> c_bulklen c \<ge> PROTO_MBULK_BIG_ARG
              \<and> int (length (querybuf c)) = c_bulklen c + 2
           then bindr (push_argv c (take (length (querybuf c) - 2) (querybuf c))) (\<lambda>c. Inr (c\<lparr>querybuf := []\<rparr>))
           else bindr (push_argv c (take (nat (c_bulklen c)) (drop (qb_pos c) (querybuf c))))
             (\<lambda>c. Inr (c\<lparr>qb_pos := qb_pos c + nat (c_bulklen c) + 2\<rparr>)))
          (\<lambda>c. Inr (Some (c\<lparr>c_bulklen := -1, c_multibulklen := c_multibulklen c - 1\<rparr>)))))"

lemma bulk_body_decreases: "bulk_body c = Inr (Some d) \<Longrightarrow> c_multibulklen d = c_multibulklen c - 1"
  by (auto simp: bulk_body_def grow_argv_def push_argv_def bindr_eq_Inr split: if_splits)

lemma bulk_header_keeps: "bulk_header cfg c = Go d \<Longrightarrow> c_multibulklen d = c_multibulklen c"
  by (auto simp: bulk_header_def set_bulklen_def Let_def split: line.splits if_splits)

function mbulk_loop :: "config \<Rightarrow> client \<Rightarrow> (bool \<times> client) res" where
  "mbulk_loop cfg c =
     (if c_multibulklen c = 0 then Inr (True, c)
      else case (if c_bulklen c = -1 then bulk_header cfg c else Go c) of
        Break c \<Rightarrow> Inr (False, c)
      | Fail c \<Rightarrow> Inr (False, c)
      | Go c \<Rightarrow>
          (case bulk_body c of
             Inl e \<Rightarrow> Inl e
           | Inr None \<Rightarrow> Inr (False, c)
           | Inr (Some c) \<Rightarrow> mbulk_loop cfg c))"
  by pat_completeness auto
termination
  by (relation "measure (\<lambda>(cfg, c). c_multibulklen c)")
     (auto dest!: bulk_body_decreases bulk_header_keeps split: if_splits)

declare mbulk_loop.simps [simp del]

definition processMultibulkBuffer :: "config \<Rightarrow> client \<Rightarrow> (bool \<times> client) res" where
  "processMultibulkBuffer cfg c =
     (if c_multibulklen c = 0 then
        if c_argv c \<noteq> [] then Inl AssertFailed
        else case mbulk_line c (unparsed c) of
          More \<Rightarrow> Inr (False, c)
        | Bad msg \<Rightarrow> Inr (False, protocol_error c msg)
        | NotArray \<Rightarrow> Inl AssertFailed
        | Line n ll \<Rightarrow>
            let c = c\<lparr>qb_pos := qb_pos c + n + 2\<rparr> in
            if ll \<le> 0 then Inr (True, c)
            else mbulk_loop cfg (c\<lparr>c_multibulklen := nat ll, c_argv_len := min ll 1024, c_argv_len_sum := 0\<rparr>)
      else mbulk_loop cfg c)"

section \<open>The input buffer\<close>

definition freeClientArgv :: "client \<Rightarrow> client" where
  "freeClientArgv c = c\<lparr>c_argv := [], c_argv_len_sum := 0, c_argv_len := 0\<rparr>"

definition resetClient :: "client \<Rightarrow> client" where
  "resetClient c = (freeClientArgv c)\<lparr>c_reqtype := REQ_NONE, c_multibulklen := 0, c_bulklen := -1\<rparr>"

text \<open>A master's applied bytes are passed on to the replicas of this server.\<close>

definition commandProcessed :: "client \<Rightarrow> client res" where
  "commandProcessed c =
     (let c = resetClient c; prev_offset = reploff c in
      if \<not> is_master c then Inr c
      else
        let c = c\<lparr>reploff := read_reploff c - int (length (querybuf c)) + int (qb_pos c)\<rparr>;
            applied = reploff c - prev_offset
        in if applied = 0 then Inr c
           else if applied < 0 \<or> repl_applied c + nat applied > length (querybuf c) then Inl OutOfBounds
           else Inr (c\<lparr>propagated := propagated c @ take (nat applied) (drop (repl_applied c) (querybuf c)),
                       repl_applied := repl_applied c + nat applied\<rparr>))"

definition processCommandAndResetClient :: "client \<Rightarrow> client res" where
  "processCommandAndResetClient c = commandProcessed (c\<lparr>executed := executed c @ [c_argv c]\<rparr>)"

text \<open>One round of the loop of \<open>processInputBuffer\<close>: \<open>True\<close> when it goes round again.\<close>

definition process_request :: "config \<Rightarrow> client \<Rightarrow> (bool \<times> client) res" where
  "process_request cfg c =
     (let c = (if c_reqtype c = REQ_NONE
               then c\<lparr>c_reqtype := (if querybuf c ! qb_pos c = CHR ''*'' then REQ_MULTIBULK else REQ_INLINE)\<rparr> else c) in
      case (if c_reqtype c = REQ_INLINE then Inr (processInlineBuffer cfg c) else processMultibulkBuffer cfg c) of
        Inl e \<Rightarrow> Inl e
      | Inr (False, c) \<Rightarrow> Inr (False, c)
      | Inr (True, c) \<Rightarrow>
          if c_argv c = [] then Inr (True, resetClient c)
          else bindr (processCommandAndResetClient c) (\<lambda>c. Inr (True, c)))"

lemma strchr_pos_Some:
  assumes "strchr_pos s ch = Some n"
  shows "n < length s" "s ! n = ch" "strchr_pos (s @ t) ch = Some n" "ch \<notin> set (take n s)"
proof -
  let ?P = "\<lambda>x. x \<noteq> ch \<and> x \<noteq> CHR 0x00"
  have n: "n = length (takeWhile ?P s)" "n < length s" "s ! n = ch"
    using assms by (auto simp: strchr_pos_def Let_def split: if_splits)
  have "takeWhile ?P (s @ t) = takeWhile ?P s"
    using n nth_mem [OF n(2)] by (subst takeWhile_append1 [of "s ! n"]) auto
  then show "strchr_pos (s @ t) ch = Some n" using n by (simp add: strchr_pos_def nth_append)
  show "ch \<notin> set (take n s)" using n(1) by (auto simp: takeWhile_eq_take [symmetric] dest: set_takeWhileD)
qed (use assms in \<open>auto simp: strchr_pos_def Let_def split: if_splits\<close>)

lemma bulk_line_Line:
  "bulk_line cfg c s = Line n ll \<Longrightarrow> n + 2 \<le> length s \<and> 0 \<le> ll"
  by (auto simp: bulk_line_def split: option.splits if_splits)

lemma mbulk_line_Line:
  "mbulk_line c s = Line n ll \<Longrightarrow> n + 2 \<le> length s \<and> ll \<le> INT_MAX"
  by (auto simp: mbulk_line_def split: option.splits if_splits)

lemma sdsrange_drop:
  "p \<le> length s \<Longrightarrow> length s < 2 ^ 63 \<Longrightarrow> sdsrange s (int p) (-1) = drop p s"
  by (auto simp: sdsrange_def sdssubstr_def Let_def u64_def)

lemma length_sdsrange_tail: "length (sdsrange s (int p) (-1)) \<le> length s - p"
proof -
  have "u64 x \<le> nat x" if "0 \<le> x" for x using that by (simp add: u64_def zmod_le_nonneg_dividend nat_mono)
  from this [of "int (length s) - int p"] show ?thesis
    by (auto simp: sdsrange_def sdssubstr_def Let_def)
qed

text \<open>A client seen from its unparsed bytes only.\<close>

definition flat :: "client \<Rightarrow> client" where
  "flat c = c\<lparr>querybuf := unparsed c, qb_pos := 0\<rparr>"

definition s_bulk_body :: "client \<Rightarrow> client option res" where
  "s_bulk_body c =
     (if c_bulklen c + 2 > LONG_MAX then Inl SignedOverflow
      else if length (querybuf c) < u64 (c_bulklen c + 2) then Inr None
      else if c_bulklen c < 0 then Inl OutOfBounds
      else bindr (grow_argv c) (\<lambda>c.
        bindr (push_argv c (take (nat (c_bulklen c)) (querybuf c))) (\<lambda>c.
          Inr (Some (c\<lparr>querybuf := drop (nat (c_bulklen c) + 2) (querybuf c), c_bulklen := -1,
                       c_multibulklen := c_multibulklen c - 1\<rparr>)))))"

definition s_bulk_header :: "config \<Rightarrow> client \<Rightarrow> client step" where
  "s_bulk_header cfg c =
     (case bulk_line cfg c (querybuf c) of
        Line n ll \<Rightarrow> Go (c\<lparr>querybuf := drop (n + 2) (querybuf c), c_bulklen := ll\<rparr>)
      | Bad msg \<Rightarrow> Fail (protocol_error c msg)
      | _ \<Rightarrow> Break c)"

abbreviation mapr :: "('a \<Rightarrow> 'b) \<Rightarrow> 'a res \<Rightarrow> 'b res" where
  "mapr f r \<equiv> bindr r (\<lambda>x. Inr (f x))"

lemma flat_simps [simp]:
  "querybuf (flat c) = unparsed c" "qb_pos (flat c) = 0" "unparsed (flat c) = unparsed c"
  "c_reqtype (flat c) = c_reqtype c" "c_multibulklen (flat c) = c_multibulklen c" "c_bulklen (flat c) = c_bulklen c"
  "c_argv (flat c) = c_argv c" "c_argv_len (flat c) = c_argv_len c" "is_master (flat c) = is_master c"
  "auth_required (flat c) = auth_required c" "closing (flat c) = closing c" "is_slave (flat c) = is_slave c"
  "executed (flat c) = executed c"
  by (simp_all add: flat_def unparsed_def)

lemma grow_argv_flat: "grow_argv (flat c) = mapr flat (grow_argv c)"
  by (simp add: grow_argv_def flat_def unparsed_def)

lemma push_argv_flat: "push_argv (flat c) a = mapr flat (push_argv c a)"
  by (simp add: push_argv_def flat_def unparsed_def)

lemma grow_argv_keeps:
  "grow_argv c = Inr d \<Longrightarrow> \<exists>l. d = c\<lparr>c_argv_len := l\<rparr>"
  by (auto simp: grow_argv_def split: if_splits intro: exI [of _ "c_argv_len c"])

lemma push_argv_keeps:
  "push_argv c a = Inr d \<Longrightarrow> d = c\<lparr>c_argv := c_argv c @ [a], c_argv_len_sum := c_argv_len_sum c + c_bulklen c\<rparr>"
  by (auto simp: push_argv_def split: if_splits)

lemma bulk_body_flat: "mapr (map_option flat) (bulk_body c) = s_bulk_body (flat c)"
proof (cases "c_bulklen c + 2 > LONG_MAX \<or> pending c < u64 (c_bulklen c + 2) \<or> c_bulklen c < 0")
  case True
  then show ?thesis by (auto simp: bulk_body_def s_bulk_body_def unparsed_def)
next
  case False
  then have u: "u64 (c_bulklen c + 2) = nat (c_bulklen c) + 2" by (simp add: u64_def LONG_MAX_def nat_add_distrib)
  show ?thesis
  proof (cases "grow_argv c")
    case (Inl e)
    then show ?thesis using False by (simp add: bulk_body_def s_bulk_body_def unparsed_def grow_argv_flat)
  next
    case (Inr d)
    then obtain l where d: "d = c\<lparr>c_argv_len := l\<rparr>" using grow_argv_keeps by blast
    have n: "int (length (querybuf c)) = c_bulklen c + 2 \<Longrightarrow> length (querybuf c) = Suc (Suc (nat (c_bulklen c)))"
      using False by linarith
    show ?thesis using False u Inr
      by (simp add: bulk_body_def s_bulk_body_def grow_argv_flat push_argv_flat d unparsed_def)
         (cases c, use n in \<open>auto simp: push_argv_def flat_def unparsed_def add.commute\<close>)
  qed
qed

lemma line_flat [simp]:
  "bulk_line cfg (flat c) s = bulk_line cfg c s" "mbulk_line (flat c) s = mbulk_line c s"
  unfolding bulk_line_def mbulk_line_def flat_simps by (rule refl)+

lemma protocol_error_flat: "protocol_error (flat c) msg = flat (protocol_error c msg)"
  by (simp add: setProtocolError_def addReplyErrorLength_def flat_def unparsed_def)

lemma set_bulklen_flat:
  assumes "length (querybuf c) < 2 ^ 63" "p \<le> length (querybuf c)"
  shows "flat (set_bulklen c p ll) = c\<lparr>querybuf := drop p (querybuf c), qb_pos := 0, c_bulklen := ll\<rparr>"
  using sdsrange_drop [OF assms(2,1)] by (simp add: set_bulklen_def Let_def flat_def unparsed_def)

lemma bulk_header_flat:
  assumes "length (querybuf c) < 2 ^ 63" "qb_pos c \<le> length (querybuf c)"
  shows "map_step flat (bulk_header cfg c) = s_bulk_header cfg (flat c)"
proof (cases "bulk_line cfg c (unparsed c)")
  case (Line n ll)
  have "qb_pos c + n + 2 \<le> length (querybuf c)" using bulk_line_Line [OF Line] assms unfolding unparsed_def length_drop by linarith
  moreover have "drop (qb_pos c + n + 2) (querybuf c) = drop (n + 2) (unparsed c)"
    by (simp add: unparsed_def add.commute)
  ultimately have "flat (set_bulklen c (qb_pos c + n + 2) ll) = (flat c)\<lparr>querybuf := drop (n + 2) (unparsed c), c_bulklen := ll\<rparr>"
    using set_bulklen_flat [OF assms(1)] by (simp add: flat_def)
  then show ?thesis
    unfolding bulk_header_def s_bulk_header_def by (simp add: Line)
qed (simp_all add: bulk_header_def s_bulk_header_def protocol_error_flat)

lemma bulk_header_pending: "bulk_header cfg c = Go d \<Longrightarrow> pending d + 2 \<le> pending c"
proof -
  assume "bulk_header cfg c = Go d"
  then obtain n ll where l: "bulk_line cfg c (unparsed c) = Line n ll" "d = set_bulklen c (qb_pos c + n + 2) ll"
    by (cases "bulk_line cfg c (unparsed c)") (auto simp: bulk_header_def)
  have "pending (set_bulklen c p ll) \<le> length (querybuf c) - p" for p
    using length_sdsrange_tail [of "querybuf c" p] by (simp add: set_bulklen_def Let_def unparsed_def)
  from this [of "qb_pos c + n + 2"] bulk_line_Line [OF l(1)] show ?thesis
    unfolding l(2) [symmetric] unparsed_def length_drop by linarith
qed

lemma s_bulk_body_Some:
  assumes "s_bulk_body c = Inr (Some d)"
  shows "querybuf d = drop (nat (c_bulklen c) + 2) (querybuf c)" "0 \<le> c_bulklen c"
    "nat (c_bulklen c) + 2 \<le> length (querybuf c)"
proof -
  have b: "c_bulklen c \<ge> 0" "u64 (c_bulklen c + 2) \<le> length (querybuf c)" "c_bulklen c + 2 \<le> LONG_MAX"
    using assms by (auto simp: s_bulk_body_def split: if_splits)
  then show "0 \<le> c_bulklen c" "nat (c_bulklen c) + 2 \<le> length (querybuf c)"
    by (auto simp: u64_def LONG_MAX_def)
  show "querybuf d = drop (nat (c_bulklen c) + 2) (querybuf c)"
    using assms by (auto simp: s_bulk_body_def bindr_eq_Inr dest!: grow_argv_keeps push_argv_keeps split: if_splits)
qed

lemma bulk_body_pending:
  assumes "bulk_body c = Inr (Some d)" shows "pending d + 2 \<le> pending c"
  using s_bulk_body_Some [of "flat c" "flat d"] bulk_body_flat [of c] assms by simp

lemma mbulk_loop_pending:
  "mbulk_loop cfg c = Inr (True, d) \<Longrightarrow> pending d \<le> pending c \<and> (c_multibulklen c \<noteq> 0 \<longrightarrow> pending d + 2 \<le> pending c)"
proof (induction cfg c rule: mbulk_loop.induct)
  case (1 cfg c)
  show ?case
  proof (cases "c_multibulklen c = 0")
    case False
    then obtain c1 c2 where s: "(if c_bulklen c = -1 then bulk_header cfg c else Go c) = Go c1"
        "bulk_body c1 = Inr (Some c2)" "mbulk_loop cfg c2 = Inr (True, d)"
      using 1(2) by (subst (asm) mbulk_loop.simps) (auto split: step.splits sum.splits option.splits if_splits)
    then have "pending c1 \<le> pending c" by (auto dest!: bulk_header_pending split: if_splits)
    moreover have "pending d \<le> pending c2" using 1(1) [OF False s(1)] s(2,3) by simp
    ultimately show ?thesis using bulk_body_pending [OF s(2)] by linarith
  qed (use 1(2) in \<open>simp add: mbulk_loop.simps\<close>)
qed

lemma resetClient_unparsed [simp]: "unparsed (resetClient c) = unparsed c"
  by (simp add: resetClient_def freeClientArgv_def unparsed_def)

lemma commandProcessed_unparsed: "commandProcessed c = Inr d \<Longrightarrow> unparsed d = unparsed c"
  by (auto simp: commandProcessed_def resetClient_def freeClientArgv_def Let_def unparsed_def split: if_splits)

lemma inline_end_Some:
  assumes "inline_end s = Some (q, l)"
  shows "q + l \<le> length s" "0 < l" "inline_end (s @ t) = Some (q, l)"
proof -
  obtain n where n: "strchr_pos s (CHR 0x0A) = Some n"
      "(q, l) = (if n \<noteq> 0 \<and> s ! (n - 1) = CHR 0x0D then (n - 1, 2) else (n, 1))"
    using assms by (auto simp: inline_end_def split: option.splits)
  have len: "n < length s" by (rule strchr_pos_Some(1) [OF n(1)])
  then show "q + l \<le> length s" "0 < l" using n(2) by (auto split: if_splits)
  show "inline_end (s @ t) = Some (q, l)"
    using n len strchr_pos_Some(3) [OF n(1)] by (cases n) (simp_all add: inline_end_def nth_append)
qed

lemma set_inline_argv_unparsed: "unparsed (set_inline_argv c p argv) = drop p (querybuf c)"
  by (simp add: set_inline_argv_def unparsed_def Let_def)

lemma processInlineBuffer_pending:
  assumes "processInlineBuffer cfg c = (True, d)"
  shows "pending d < pending c"
proof -
  obtain q l where e: "inline_end (unparsed c) = Some (q, l)"
    using assms by (auto simp: processInlineBuffer_def split: option.splits)
  then have "unparsed d = drop (qb_pos c + (q + l)) (querybuf c)"
    using assms by (auto simp: processInlineBuffer_def Let_def set_inline_argv_unparsed split: option.splits if_splits)
  then have "pending d = length (querybuf c) - (qb_pos c + (q + l))" by simp
  then show ?thesis using inline_end_Some(1,2) [OF e] by (simp add: unparsed_def)
qed

lemma processMultibulkBuffer_pending:
  assumes "processMultibulkBuffer cfg c = Inr (True, d)"
  shows "pending d < pending c"
proof (cases "c_multibulklen c = 0")
  case True
  then obtain n ll where l: "mbulk_line c (unparsed c) = Line n ll"
    using assms by (cases "mbulk_line c (unparsed c)") (auto simp: processMultibulkBuffer_def split: if_splits)
  define c1 where "c1 = c\<lparr>qb_pos := qb_pos c + n + 2\<rparr>"
  have "pending c1 + 2 \<le> pending c"
    using mbulk_line_Line [OF l] unfolding c1_def unparsed_def by (simp del: One_nat_def) linarith
  moreover have "pending d \<le> pending c1"
    using assms True l mbulk_loop_pending [of cfg "c1\<lparr>c_multibulklen := nat ll, c_argv_len := min ll 1024, c_argv_len_sum := 0\<rparr>" d]
    by (auto simp: processMultibulkBuffer_def Let_def c1_def unparsed_def split: if_splits)
  ultimately show ?thesis by simp
next
  case False
  then show ?thesis
    using assms mbulk_loop_pending [of cfg c d] by (auto simp: processMultibulkBuffer_def)
qed

lemma process_request_pending:
  assumes "process_request cfg c = Inr (True, d)"
  shows "pending d < pending c"
proof -
  define c1 where "c1 = (if c_reqtype c = REQ_NONE
    then c\<lparr>c_reqtype := (if querybuf c ! qb_pos c = CHR ''*'' then REQ_MULTIBULK else REQ_INLINE)\<rparr> else c)"
  obtain c2 where c2: "(if c_reqtype c1 = REQ_INLINE then Inr (processInlineBuffer cfg c1) else processMultibulkBuffer cfg c1) = Inr (True, c2)"
      "d = resetClient c2 \<or> processCommandAndResetClient c2 = Inr d"
    using assms unfolding process_request_def Let_def c1_def [symmetric]
    by (auto simp: bindr_eq_Inr split: sum.splits prod.splits bool.splits if_splits)
  have "pending c2 < pending c1"
    using c2(1) processInlineBuffer_pending processMultibulkBuffer_pending by (auto split: if_splits)
  moreover have "unparsed d = unparsed c2"
    using c2(2) commandProcessed_unparsed [of "c2\<lparr>executed := executed c2 @ [c_argv c2]\<rparr>" d]
    by (auto simp: processCommandAndResetClient_def) (auto simp: unparsed_def)
  moreover have "unparsed c1 = unparsed c" by (simp add: c1_def unparsed_def)
  ultimately show ?thesis by simp
qed

function input_loop :: "config \<Rightarrow> client \<Rightarrow> client res" where
  "input_loop cfg c =
     (if qb_pos c < length (querybuf c) \<and> \<not> closing c then
        case process_request cfg c of
          Inl e \<Rightarrow> Inl e
        | Inr (False, c) \<Rightarrow> Inr c
        | Inr (True, c) \<Rightarrow> input_loop cfg c
      else Inr c)"
  by pat_completeness auto
termination
  by (relation "measure (\<lambda>(cfg, c). pending c)") (auto dest: process_request_pending)

declare input_loop.simps [simp del]

definition trim_querybuf :: "client \<Rightarrow> client" where
  "trim_querybuf c =
     (if is_master c then
        if repl_applied c \<noteq> 0
        then c\<lparr>querybuf := sdsrange (querybuf c) (int (repl_applied c)) (-1),
               qb_pos := qb_pos c - repl_applied c, repl_applied := 0\<rparr>
        else c
      else if qb_pos c \<noteq> 0
      then c\<lparr>querybuf := sdsrange (querybuf c) (int (qb_pos c)) (-1), qb_pos := 0\<rparr> else c)"

definition processInputBuffer :: "config \<Rightarrow> client \<Rightarrow> client res" where
  "processInputBuffer cfg c = bindr (input_loop cfg c) (\<lambda>c. Inr (trim_querybuf c))"

text \<open>
  A read from the socket: \<open>data\<close> are the bytes it returns, none at the end of the stream. The
  limits on the query buffer do not apply to a master.
\<close>

definition readQueryFromClient :: "config \<Rightarrow> client \<Rightarrow> string \<Rightarrow> client res" where
  "readQueryFromClient cfg c data =
     (if data = [] then Inr (c\<lparr>freed := True\<rparr>)
      else
        let c = c\<lparr>querybuf := querybuf c @ data\<rparr>;
            c = (if is_master c then c\<lparr>read_reploff := read_reploff c + int (length data)\<rparr> else c)
        in if \<not> is_master c \<and> (length (querybuf c) > client_max_querybuf_len cfg
               \<or> (length (querybuf c) > 1024 * 1024 \<and> auth_required c))
           then Inr (c\<lparr>freed := True\<rparr>)
           else processInputBuffer cfg c)"

end
