(* ===== verification/Requests.thy ===== *)
theory Requests
  imports Protocol "HOL-Library.Sublist"
begin

text \<open>
  What the request parser of theory \<open>Protocol\<close> guarantees. It refines a reference parser, the \<open>s_\<close>
  functions, that drops bytes as it consumes them; it never crashes on any bytes; how the
  network cuts the stream into reads makes no difference; and it recovers exactly the
  commands that the client library formatted.
\<close>

section \<open>The reference parser\<close>

lemma s_bulk_body_decreases: "s_bulk_body c = Inr (Some d) \<Longrightarrow> c_multibulklen d = c_multibulklen c - 1"
  by (auto simp: s_bulk_body_def bindr_eq_Inr dest!: grow_argv_keeps push_argv_keeps split: if_splits)

lemma s_bulk_header_keeps: "s_bulk_header cfg c = Go d \<Longrightarrow> c_multibulklen d = c_multibulklen c"
  by (auto simp: s_bulk_header_def split: line.splits)

function s_mbulk_loop :: "config \<Rightarrow> client \<Rightarrow> (bool \<times> client) res" where
  "s_mbulk_loop cfg c =
     (if c_multibulklen c = 0 then Inr (True, c)
      else case (if c_bulklen c = -1 then s_bulk_header cfg c else Go c) of
        Break c \<Rightarrow> Inr (False, c)
      | Fail c \<Rightarrow> Inr (False, c)
      | Go c \<Rightarrow>
          (case s_bulk_body c of
             Inl e \<Rightarrow> Inl e
           | Inr None \<Rightarrow> Inr (False, c)
           | Inr (Some c) \<Rightarrow> s_mbulk_loop cfg c))"
  by pat_completeness auto
termination
  by (relation "measure (\<lambda>(cfg, c). c_multibulklen c)")
     (auto dest!: s_bulk_body_decreases s_bulk_header_keeps split: if_splits)

declare s_mbulk_loop.simps [simp del]

definition start_mbulk :: "client \<Rightarrow> int \<Rightarrow> client" where
  "start_mbulk c ll = c\<lparr>c_multibulklen := nat ll, c_argv_len := min ll 1024, c_argv_len_sum := 0\<rparr>"

definition s_multibulk :: "config \<Rightarrow> client \<Rightarrow> (bool \<times> client) res" where
  "s_multibulk cfg c =
     (if c_multibulklen c = 0 then
        if c_argv c \<noteq> [] then Inl AssertFailed
        else case mbulk_line c (querybuf c) of
          More \<Rightarrow> Inr (False, c)
        | Bad msg \<Rightarrow> Inr (False, protocol_error c msg)
        | NotArray \<Rightarrow> Inl AssertFailed
        | Line n ll \<Rightarrow>
            let c = c\<lparr>querybuf := drop (n + 2) (querybuf c)\<rparr> in
            if ll \<le> 0 then Inr (True, c) else s_mbulk_loop cfg (start_mbulk c ll)
      else s_mbulk_loop cfg c)"

definition s_inline :: "config \<Rightarrow> client \<Rightarrow> bool \<times> client" where
  "s_inline cfg c =
     (case inline_end (querybuf c) of
        None \<Rightarrow>
          (False, if length (querybuf c) > PROTO_INLINE_MAX_SIZE
                  then protocol_error c ''Protocol error: too big inline request'' else c)
      | Some (querylen, linefeed_chars) \<Rightarrow>
          (case sdssplitargs (take querylen (querybuf c)) of
             None \<Rightarrow> (False, protocol_error c ''Protocol error: unbalanced quotes in request'')
           | Some argv \<Rightarrow>
               let c = (if querylen = 0 \<and> is_slave c then c\<lparr>repl_ack_time := unixtime cfg\<rparr> else c) in
               if querylen \<noteq> 0 \<and> is_master c then (False, setProtocolError c)
               else (True, set_inline_argv (c\<lparr>querybuf := drop (querylen + linefeed_chars) (querybuf c)\<rparr>) 0 argv)))"

definition s_typed :: "client \<Rightarrow> client" where
  "s_typed c =
     (if c_reqtype c = REQ_NONE
      then c\<lparr>c_reqtype := (if querybuf c ! 0 = CHR ''*'' then REQ_MULTIBULK else REQ_INLINE)\<rparr> else c)"

definition s_finish :: "client \<Rightarrow> client" where
  "s_finish c = (if c_argv c = [] then resetClient c else resetClient (c\<lparr>executed := executed c @ [c_argv c]\<rparr>))"

definition s_parse :: "config \<Rightarrow> client \<Rightarrow> (bool \<times> client) res" where
  "s_parse cfg c = (if c_reqtype c = REQ_INLINE then Inr (s_inline cfg c) else s_multibulk cfg c)"

definition s_request :: "config \<Rightarrow> client \<Rightarrow> (bool \<times> client) res" where
  "s_request cfg c = mapr (\<lambda>(ok, d). (ok, if ok then s_finish d else d)) (s_parse cfg (s_typed c))"

section \<open>Refinement\<close>

definition buf_ok :: "client \<Rightarrow> bool" where
  "buf_ok c \<longleftrightarrow> qb_pos c \<le> length (querybuf c) \<and> length (querybuf c) < 2 ^ 63"

lemma flat_flat [simp]: "flat (flat c) = flat c"
  by (simp add: flat_def unparsed_def)

lemma set_bulklen_buf_ok: "buf_ok c \<Longrightarrow> p \<le> length (querybuf c) \<Longrightarrow> buf_ok (set_bulklen c p ll)"
  by (auto simp: buf_ok_def set_bulklen_def Let_def sdsrange_drop)

lemma bulk_header_buf_ok:
  assumes "bulk_header cfg c = Go d" "buf_ok c"
  shows "buf_ok d"
proof -
  obtain n ll where l: "bulk_line cfg c (unparsed c) = Line n ll" "d = set_bulklen c (qb_pos c + n + 2) ll"
    using assms(1) by (cases "bulk_line cfg c (unparsed c)") (auto simp: bulk_header_def)
  have "qb_pos c + n + 2 \<le> length (querybuf c)"
    using bulk_line_Line [OF l(1)] assms(2) unfolding unparsed_def length_drop buf_ok_def by linarith
  then show ?thesis unfolding l(2) by (rule set_bulklen_buf_ok [OF assms(2)])
qed

lemma bulk_body_buf_ok:
  assumes "bulk_body c = Inr (Some d)" "buf_ok c"
  shows "buf_ok d"
proof -
  have b: "c_bulklen c \<ge> 0" "u64 (c_bulklen c + 2) \<le> length (querybuf c) - qb_pos c" "c_bulklen c + 2 \<le> LONG_MAX"
    using assms by (auto simp: bulk_body_def split: if_splits)
  then have "u64 (c_bulklen c + 2) = nat (c_bulklen c) + 2" by (simp add: u64_def LONG_MAX_def nat_add_distrib)
  with b have "qb_pos c + nat (c_bulklen c) + 2 \<le> length (querybuf c)" by linarith
  then show ?thesis
    using assms by (auto simp: bulk_body_def bindr_eq_Inr buf_ok_def dest!: grow_argv_keeps push_argv_keeps split: if_splits)
qed

lemma mbulk_loop_flat:
  "buf_ok c \<Longrightarrow> mapr (map_prod id flat) (mbulk_loop cfg c) = s_mbulk_loop cfg (flat c)"
proof (induction cfg c rule: mbulk_loop.induct)
  case (1 cfg c)
  let ?h = "if c_bulklen c = -1 then bulk_header cfg c else Go c"
  have h: "(if c_bulklen c = -1 then s_bulk_header cfg (flat c) else Go (flat c)) = map_step flat ?h"
    using bulk_header_flat [of c cfg] 1(2) by (simp add: buf_ok_def)
  have ok: "?h = Go d \<Longrightarrow> buf_ok d" for d
    using bulk_header_buf_ok [of cfg c d] 1(2) by (auto split: if_splits)
  show ?case
  proof (cases "c_multibulklen c = 0")
    case False
    show ?thesis
    proof (cases ?h)
      case (Go d)
      have b: "s_bulk_body (flat d) = mapr (map_option flat) (bulk_body d)" by (simp add: bulk_body_flat)
      note e = mbulk_loop.simps [of cfg c] s_mbulk_loop.simps [of cfg "flat c"]
      show ?thesis
      proof (cases "bulk_body d")
        case (Inr x)
        then show ?thesis
          using 1(1) [OF False Go Inr] False Go h b bulk_body_buf_ok [of d] ok [OF Go] unfolding e by (cases x) auto
      qed (use False Go h b in \<open>simp add: mbulk_loop.simps [of cfg c] s_mbulk_loop.simps [of cfg "flat c"]\<close>)
    qed (use False h in \<open>simp_all add: mbulk_loop.simps [of cfg c] s_mbulk_loop.simps [of cfg "flat c"]\<close>)
  qed (simp add: mbulk_loop.simps [of cfg c] s_mbulk_loop.simps [of cfg "flat c"])
qed

lemma mbulk_loop_buf_ok: "mbulk_loop cfg c = Inr (b, d) \<Longrightarrow> buf_ok c \<Longrightarrow> buf_ok d"
proof (induction cfg c rule: mbulk_loop.induct)
  case (1 cfg c)
  show ?case
  proof (cases "c_multibulklen c = 0")
    case False
    let ?h = "if c_bulklen c = -1 then bulk_header cfg c else Go c"
    show ?thesis
    proof (cases ?h)
      case (Go c1)
      then have ok: "buf_ok c1" using bulk_header_buf_ok [of cfg c c1] 1(3) by (auto split: if_splits)
      show ?thesis
        using 1(1) [OF False Go] 1(2) False Go ok bulk_body_buf_ok [of c1] unfolding mbulk_loop.simps [of cfg c]
        by (auto split: sum.splits option.splits)
    next
      case (Break c1)
      then have "c1 = c" by (auto simp: bulk_header_def split: line.splits if_splits)
      then show ?thesis using 1(2,3) False Break by (simp add: mbulk_loop.simps [of cfg c])
    next
      case (Fail c1)
      then have "buf_ok c1" using 1(3)
        by (auto simp: bulk_header_def buf_ok_def setProtocolError_def addReplyErrorLength_def split: line.splits if_splits)
      then show ?thesis using 1(2) False Fail by (simp add: mbulk_loop.simps [of cfg c])
    qed
  qed (use 1(2,3) in \<open>simp add: mbulk_loop.simps [of cfg c]\<close>)
qed

lemma protocol_error_buf_ok [simp]: "buf_ok (protocol_error c msg) = buf_ok c"
  by (simp add: buf_ok_def setProtocolError_def addReplyErrorLength_def)

lemma multibulk_flat:
  assumes "buf_ok c"
  shows "mapr (map_prod id flat) (processMultibulkBuffer cfg c) = s_multibulk cfg (flat c)"
    "processMultibulkBuffer cfg c = Inr (b, d) \<Longrightarrow> buf_ok d"
proof -
  have *: "mapr (map_prod id flat) (processMultibulkBuffer cfg c) = s_multibulk cfg (flat c) \<and>
      (processMultibulkBuffer cfg c = Inr (b, d) \<longrightarrow> buf_ok d)"
  proof (cases "mbulk_line c (unparsed c)")
    case (Line n ll)
    define c1 where "c1 = c\<lparr>qb_pos := qb_pos c + n + 2\<rparr>"
    have "qb_pos c + n + 2 \<le> length (querybuf c)"
      using mbulk_line_Line [OF Line] assms unfolding unparsed_def length_drop buf_ok_def by linarith
    then have ok: "buf_ok c1" "buf_ok (start_mbulk c1 ll)" using assms by (simp_all add: c1_def buf_ok_def start_mbulk_def)
    have f: "flat c1 = (flat c)\<lparr>querybuf := drop (n + 2) (querybuf (flat c))\<rparr>"
      by (simp add: c1_def flat_def unparsed_def add.commute)
    have g: "flat (start_mbulk c1 ll) = start_mbulk (flat c1) ll" by (simp add: start_mbulk_def flat_def unparsed_def)
    have p: "processMultibulkBuffer cfg c = (if c_multibulklen c = 0 then if c_argv c \<noteq> [] then Inl AssertFailed
        else if ll \<le> 0 then Inr (True, c1) else mbulk_loop cfg (start_mbulk c1 ll) else mbulk_loop cfg c)"
      by (simp add: processMultibulkBuffer_def Line c1_def start_mbulk_def Let_def)
    have q: "s_multibulk cfg (flat c) = (if c_multibulklen c = 0 then if c_argv c \<noteq> [] then Inl AssertFailed
        else if ll \<le> 0 then Inr (True, flat c1) else s_mbulk_loop cfg (start_mbulk (flat c1) ll) else s_mbulk_loop cfg (flat c))"
      by (simp add: s_multibulk_def Line f Let_def)
    show ?thesis
      unfolding p q g [symmetric] mbulk_loop_flat [OF ok(2), symmetric] mbulk_loop_flat [OF assms, symmetric]
      using mbulk_loop_buf_ok [of cfg _ b d] ok assms by simp blast
  qed (use mbulk_loop_flat [OF assms, of cfg] mbulk_loop_buf_ok [of cfg c b d] assms in
      \<open>auto simp: processMultibulkBuffer_def s_multibulk_def protocol_error_flat\<close>)
  show "mapr (map_prod id flat) (processMultibulkBuffer cfg c) = s_multibulk cfg (flat c)" using * by blast
  show "processMultibulkBuffer cfg c = Inr (b, d) \<Longrightarrow> buf_ok d" using * by blast
qed

lemma inline_flat:
  assumes "buf_ok c"
  shows "map_prod id flat (processInlineBuffer cfg c) = s_inline cfg (flat c)"
    "processInlineBuffer cfg c = (b, d) \<Longrightarrow> buf_ok d"
proof -
  have *: "map_prod id flat (processInlineBuffer cfg c) = s_inline cfg (flat c) \<and>
      (processInlineBuffer cfg c = (b, d) \<longrightarrow> buf_ok d)"
  proof (cases "inline_end (unparsed c)")
    case None
    then show ?thesis using assms
      by (auto simp: processInlineBuffer_def s_inline_def protocol_error_flat)
  next
    case (Some ql)
    then obtain q l where e: "inline_end (unparsed c) = Some (q, l)" by (cases ql) auto
    have len: "qb_pos c + (q + l) \<le> length (querybuf c)"
      using inline_end_Some(1) [OF e] assms unfolding unparsed_def length_drop buf_ok_def by linarith
    show ?thesis
    proof (cases "sdssplitargs (take q (unparsed c))")
      case None
      then show ?thesis using e assms by (auto simp: processInlineBuffer_def s_inline_def protocol_error_flat)
    next
      case (Some argv)
      define c1 where "c1 = (if q = 0 \<and> is_slave c then c\<lparr>repl_ack_time := unixtime cfg\<rparr> else c)"
      have c1: "flat c1 = (if q = 0 \<and> is_slave c then (flat c)\<lparr>repl_ack_time := unixtime cfg\<rparr> else flat c)"
        "querybuf c1 = querybuf c" "qb_pos c1 = qb_pos c" "is_master c1 = is_master c"
        by (simp_all add: c1_def flat_def unparsed_def)
      have "flat (set_inline_argv c1 (qb_pos c1 + (q + l)) argv) =
          set_inline_argv ((flat c1)\<lparr>querybuf := drop (q + l) (querybuf (flat c1))\<rparr>) 0 argv"
        by (simp add: set_inline_argv_def flat_def unparsed_def Let_def add.commute add.left_commute)
      moreover have "flat (setProtocolError c1) = setProtocolError (flat c1)"
        by (simp add: setProtocolError_def flat_def unparsed_def)
      moreover have "buf_ok (set_inline_argv c1 (qb_pos c1 + (q + l)) argv)" "buf_ok (setProtocolError c1)"
        using len c1(2,3) assms by (simp_all add: buf_ok_def set_inline_argv_def setProtocolError_def Let_def)
      ultimately show ?thesis
        using e Some unfolding processInlineBuffer_def s_inline_def
        by (simp add: Let_def c1_def [symmetric] c1(1) [symmetric] c1(4) del: flat_simps(1)) (auto simp: c1(1))
    qed
  qed
  show "map_prod id flat (processInlineBuffer cfg c) = s_inline cfg (flat c)" using * by blast
  show "processInlineBuffer cfg c = (b, d) \<Longrightarrow> buf_ok d" using * by blast
qed

text \<open>The reference parser consumes bytes with every request it completes.\<close>

lemma s_bulk_header_consumes: "s_bulk_header cfg c = Go d \<Longrightarrow> length (querybuf d) + 2 \<le> length (querybuf c)"
  by (auto simp: s_bulk_header_def dest!: bulk_line_Line split: line.splits)

lemma s_mbulk_loop_consumes:
  "s_mbulk_loop cfg c = Inr (True, d) \<Longrightarrow>
   length (querybuf d) + (if c_multibulklen c = 0 then 0 else 2) \<le> length (querybuf c)"
proof (induction cfg c rule: s_mbulk_loop.induct)
  case (1 cfg c)
  show ?case
  proof (cases "c_multibulklen c = 0")
    case False
    then obtain c1 c2 where s: "(if c_bulklen c = -1 then s_bulk_header cfg c else Go c) = Go c1"
        "s_bulk_body c1 = Inr (Some c2)" "s_mbulk_loop cfg c2 = Inr (True, d)"
      using 1(2) by (subst (asm) s_mbulk_loop.simps) (auto split: step.splits sum.splits option.splits if_splits)
    then have "length (querybuf c1) \<le> length (querybuf c)" by (auto dest!: s_bulk_header_consumes split: if_splits)
    moreover have "length (querybuf d) \<le> length (querybuf c2)" using 1(1) [OF False s(1)] s(2,3) by simp
    ultimately show ?thesis using s_bulk_body_Some(1,3) [OF s(2)] False by simp
  qed (use 1(2) in \<open>simp add: s_mbulk_loop.simps\<close>)
qed

lemma s_multibulk_consumes:
  assumes "s_multibulk cfg c = Inr (True, d)"
  shows "length (querybuf d) < length (querybuf c)"
proof (cases "c_multibulklen c = 0")
  case True
  then obtain n ll where l: "mbulk_line c (querybuf c) = Line n ll"
    using assms by (cases "mbulk_line c (querybuf c)") (auto simp: s_multibulk_def split: if_splits)
  then show ?thesis
    using assms True mbulk_line_Line [OF l]
      s_mbulk_loop_consumes [of cfg "start_mbulk (c\<lparr>querybuf := drop (n + 2) (querybuf c)\<rparr>) ll" d]
    by (auto simp: s_multibulk_def Let_def start_mbulk_def split: if_splits)
next
  case False
  then show ?thesis using assms s_mbulk_loop_consumes [of cfg c d] by (simp add: s_multibulk_def)
qed

lemma s_inline_consumes:
  assumes "s_inline cfg c = (True, d)"
  shows "length (querybuf d) < length (querybuf c)"
proof -
  obtain q l where e: "inline_end (querybuf c) = Some (q, l)"
    using assms by (auto simp: s_inline_def split: option.splits)
  then have "querybuf d = drop (q + l) (querybuf c)"
    using assms by (auto simp: s_inline_def set_inline_argv_def Let_def split: option.splits if_splits)
  then show ?thesis using inline_end_Some(1,2) [OF e] by simp
qed

lemma s_finish_querybuf [simp]: "querybuf (s_finish c) = querybuf c"
  by (simp add: s_finish_def resetClient_def freeClientArgv_def)

lemma s_typed_querybuf [simp]: "querybuf (s_typed c) = querybuf c"
  by (simp add: s_typed_def)

lemma s_request_consumes:
  assumes "s_request cfg c = Inr (True, d)"
  shows "length (querybuf d) < length (querybuf c)"
proof -
  obtain c1 where "s_parse cfg (s_typed c) = Inr (True, c1)" "d = s_finish c1"
    using assms by (auto simp: s_request_def bindr_eq_Inr split: prod.splits if_splits)
  then show ?thesis
    using s_inline_consumes [of cfg "s_typed c" c1] s_multibulk_consumes [of cfg "s_typed c" c1]
    by (auto simp: s_parse_def split: if_splits)
qed

function s_input :: "config \<Rightarrow> client \<Rightarrow> client res" where
  "s_input cfg c =
     (if querybuf c \<noteq> [] \<and> \<not> closing c then
        case s_request cfg c of
          Inl e \<Rightarrow> Inl e
        | Inr (False, c) \<Rightarrow> Inr c
        | Inr (True, c) \<Rightarrow> s_input cfg c
      else Inr c)"
  by pat_completeness auto
termination
  by (relation "measure (\<lambda>(cfg, c). length (querybuf c))") (auto dest: s_request_consumes)

declare s_input.simps [simp del]

lemma keeps_master:
  "bulk_header cfg c = Go d \<Longrightarrow> is_master d = is_master c"
  "bulk_body c = Inr (Some d) \<Longrightarrow> is_master d = is_master c"
  by (auto simp: bulk_header_def set_bulklen_def Let_def split: line.splits if_splits)
     (auto simp: bulk_body_def bindr_eq_Inr dest!: grow_argv_keeps push_argv_keeps split: if_splits)

lemma protocol_error_master [simp]: "is_master (protocol_error c msg) = is_master c"
  by (simp add: setProtocolError_def addReplyErrorLength_def)

lemma mbulk_loop_master: "mbulk_loop cfg c = Inr (b, d) \<Longrightarrow> is_master d = is_master c"
proof (induction cfg c rule: mbulk_loop.induct)
  case (1 cfg c)
  let ?h = "if c_bulklen c = -1 then bulk_header cfg c else Go c"
  show ?case
  proof (cases "c_multibulklen c = 0")
    case False
    show ?thesis
    proof (cases ?h)
      case (Go c1)
      then show ?thesis
        using 1(1) [OF False Go] 1(2) False keeps_master unfolding mbulk_loop.simps [of cfg c]
        by (auto split: sum.splits option.splits if_splits)
    qed (use False 1(2) in \<open>auto simp: mbulk_loop.simps [of cfg c] bulk_header_def split: line.splits if_splits\<close>)
  qed (use 1(2) in \<open>simp add: mbulk_loop.simps [of cfg c]\<close>)
qed

lemma process_master:
  "processMultibulkBuffer cfg c = Inr (b, d) \<Longrightarrow> is_master d = is_master c"
  "processInlineBuffer cfg c = (b, d) \<Longrightarrow> is_master d = is_master c"
  by (auto simp: processMultibulkBuffer_def Let_def dest!: mbulk_loop_master split: line.splits if_splits)
     (auto simp: processInlineBuffer_def set_inline_argv_def setProtocolError_def addReplyErrorLength_def Let_def
      split: option.splits prod.splits if_splits)

lemma finish_flat:
  assumes "\<not> is_master c"
  shows "(if c_argv c = [] then Inr (True, resetClient c)
      else bindr (processCommandAndResetClient c) (\<lambda>c. Inr (True, c))) = Inr (True, s_finish c)"
    "flat (s_finish c) = s_finish (flat c)" "buf_ok (s_finish c) = buf_ok c" "\<not> is_master (s_finish c)"
  using assms
  by (simp_all add: processCommandAndResetClient_def commandProcessed_def s_finish_def resetClient_def
      freeClientArgv_def Let_def flat_def unparsed_def buf_ok_def)

lemma request_flat:
  assumes "buf_ok c" "qb_pos c < length (querybuf c)" "\<not> is_master c"
  shows "mapr (map_prod id flat) (process_request cfg c) = s_request cfg (flat c)"
    "process_request cfg c = Inr (b, d) \<Longrightarrow> buf_ok d \<and> \<not> is_master d"
proof -
  define c1 where "c1 = (if c_reqtype c = REQ_NONE
    then c\<lparr>c_reqtype := (if querybuf c ! qb_pos c = CHR ''*'' then REQ_MULTIBULK else REQ_INLINE)\<rparr> else c)"
  define r where "r = (if c_reqtype c1 = REQ_INLINE then Inr (processInlineBuffer cfg c1) else processMultibulkBuffer cfg c1)"
  have c1: "buf_ok c1" "flat c1 = s_typed (flat c)" "\<not> is_master c1" "c_reqtype c1 = c_reqtype (s_typed (flat c))"
    using assms by (simp_all add: c1_def s_typed_def flat_def unparsed_def buf_ok_def)
  have r: "s_parse cfg (s_typed (flat c)) = mapr (map_prod id flat) r"
    unfolding r_def s_parse_def c1(2) [symmetric] using multibulk_flat(1) [OF c1(1)] inline_flat(1) [OF c1(1)] c1(4) by (simp add: c1(2))
  have ok: "r = Inr (b', c2) \<Longrightarrow> buf_ok c2 \<and> \<not> is_master c2" for b' c2
    using multibulk_flat(2) [OF c1(1)] inline_flat(2) [OF c1(1)] process_master [of cfg c1] c1(3)
    unfolding r_def by (auto split: if_splits)
  have e: "process_request cfg c = (case r of Inl e \<Rightarrow> Inl e | Inr (False, c) \<Rightarrow> Inr (False, c)
      | Inr (True, c) \<Rightarrow> if c_argv c = [] then Inr (True, resetClient c)
          else bindr (processCommandAndResetClient c) (\<lambda>c. Inr (True, c)))"
    unfolding process_request_def Let_def c1_def [symmetric] r_def [symmetric] by (rule refl)
  have *: "mapr (map_prod id flat) (process_request cfg c) = s_request cfg (flat c) \<and>
      (process_request cfg c = Inr (b, d) \<longrightarrow> buf_ok d \<and> \<not> is_master d)"
  proof (cases r)
    case (Inr x)
    then obtain b' c2 where x: "r = Inr (b', c2)" by (cases x) auto
    then show ?thesis
      using ok [OF x] finish_flat [of c2] by (cases b') (auto simp: e s_request_def r)
  qed (simp add: e s_request_def r)
  show "mapr (map_prod id flat) (process_request cfg c) = s_request cfg (flat c)" using * by blast
  show "process_request cfg c = Inr (b, d) \<Longrightarrow> buf_ok d \<and> \<not> is_master d" using * by blast
qed

lemma trim_flat: "buf_ok c \<Longrightarrow> \<not> is_master c \<Longrightarrow> trim_querybuf c = flat c"
  by (simp add: trim_querybuf_def flat_def unparsed_def buf_ok_def sdsrange_drop)

lemma input_refines:
  "buf_ok c \<Longrightarrow> \<not> is_master c \<Longrightarrow> processInputBuffer cfg c = s_input cfg (flat c)"
proof (induction cfg c rule: input_loop.induct)
  case (1 cfg c)
  have g: "qb_pos c < length (querybuf c) \<longleftrightarrow> querybuf (flat c) \<noteq> []" by (auto simp: unparsed_def)
  show ?case
  proof (cases "qb_pos c < length (querybuf c) \<and> \<not> closing c")
    case True
    note r = request_flat [OF 1(2) conjunct1 [OF True] 1(3), of cfg]
    show ?thesis
    proof (cases "process_request cfg c")
      case (Inl e)
      then have "s_request cfg (flat c) = Inl e" using r(1) by simp
      then show ?thesis using True g Inl
        by (simp add: processInputBuffer_def input_loop.simps [of cfg c] s_input.simps [of cfg "flat c"])
    next
      case (Inr x)
      then obtain b d where x: "process_request cfg c = Inr (b, d)" by (cases x) auto
      then have s: "s_request cfg (flat c) = Inr (b, flat d)" using r(1) by simp
      show ?thesis
      proof (cases b)
        case b: True
        have "processInputBuffer cfg d = s_input cfg (flat d)"
          using 1(1) [OF True] x b r(2) by simp
        then show ?thesis using True g x s b
          by (simp add: processInputBuffer_def input_loop.simps [of cfg c] s_input.simps [of cfg "flat c"])
      next
        case False
        then show ?thesis using True g x s r(2) [OF x] trim_flat
          by (simp add: processInputBuffer_def input_loop.simps [of cfg c] s_input.simps [of cfg "flat c"])
      qed
    qed
  next
    case False
    then show ?thesis using g 1(2,3) trim_flat
      by (auto simp: processInputBuffer_def input_loop.simps [of cfg c] s_input.simps [of cfg "flat c"])
  qed
qed

section \<open>How the stream is cut\<close>

definition feed :: "string \<Rightarrow> client \<Rightarrow> client" where
  "feed t c = c\<lparr>querybuf := querybuf c @ t\<rparr>"

lemma feed_simps [simp]:
  "querybuf (feed t c) = querybuf c @ t" "qb_pos (feed t c) = qb_pos c" "closing (feed t c) = closing c"
  "c_reqtype (feed t c) = c_reqtype c" "c_multibulklen (feed t c) = c_multibulklen c" "c_bulklen (feed t c) = c_bulklen c"
  "c_argv (feed t c) = c_argv c" "c_argv_len (feed t c) = c_argv_len c" "is_master (feed t c) = is_master c"
  "is_slave (feed t c) = is_slave c" "auth_required (feed t c) = auth_required c" "executed (feed t c) = executed c"
  "feed [] c = c"
  by (simp_all add: feed_def)

lemma bulk_line_more:
  "bulk_line cfg c s = Line n ll \<Longrightarrow> bulk_line cfg (feed t c) (s @ t) = Line n ll"
  using strchr_pos_Some(3) [of s "CHR 0x0D" n t]
  by (cases s) (auto simp: bulk_line_def split: option.splits if_splits)

lemma mbulk_line_more:
  "mbulk_line c s = Line n ll \<Longrightarrow> mbulk_line (feed t c) (s @ t) = Line n ll"
  using strchr_pos_Some(3) [of s "CHR 0x0D" n t]
  by (cases s) (auto simp: mbulk_line_def split: option.splits if_splits)

lemma s_bulk_header_feed: "s_bulk_header cfg c = Go d \<Longrightarrow> s_bulk_header cfg (feed t c) = Go (feed t d)"
proof -
  assume "s_bulk_header cfg c = Go d"
  then obtain n ll where l: "bulk_line cfg c (querybuf c) = Line n ll"
      "d = c\<lparr>querybuf := drop (n + 2) (querybuf c), c_bulklen := ll\<rparr>"
    by (cases "bulk_line cfg c (querybuf c)") (auto simp: s_bulk_header_def)
  show ?thesis
    using bulk_line_more [OF l(1), of t] bulk_line_Line [OF l(1)] by (simp add: s_bulk_header_def l(2)) (simp add: feed_def)
qed

lemma s_bulk_body_feed:
  assumes "s_bulk_body c = Inr (Some d)"
  shows "s_bulk_body (feed t c) = Inr (Some (feed t d))"
proof -
  have b: "c_bulklen c + 2 \<le> LONG_MAX" "u64 (c_bulklen c + 2) \<le> length (querybuf c)" "0 \<le> c_bulklen c"
      "nat (c_bulklen c) + 2 \<le> length (querybuf c)"
    using assms s_bulk_body_Some(3) [OF assms] by (auto simp: s_bulk_body_def split: if_splits)
  obtain l where l: "grow_argv c = Inr (c\<lparr>c_argv_len := l\<rparr>)"
    using assms grow_argv_keeps [of c] by (cases "grow_argv c") (auto simp: s_bulk_body_def split: if_splits)
  have g: "grow_argv (feed t c) = Inr ((feed t c)\<lparr>c_argv_len := l\<rparr>)"
  proof -
    have "grow_argv (feed t c) = mapr (feed t) (grow_argv c)" by (simp add: grow_argv_def feed_def)
    then show ?thesis by (simp add: l feed_def)
  qed
  show ?thesis
    using assms b by (auto simp: s_bulk_body_def l g push_argv_def split: if_splits) (simp_all add: feed_def)
qed

lemma s_mbulk_loop_feed:
  "(s_mbulk_loop cfg c = Inr (True, d) \<longrightarrow> s_mbulk_loop cfg (feed t c) = Inr (True, feed t d)) \<and>
   (s_mbulk_loop cfg c = Inr (False, d) \<and> \<not> closing d \<longrightarrow>
    s_mbulk_loop cfg (feed t c) = s_mbulk_loop cfg (feed t d) \<and> c_multibulklen d \<noteq> 0)"
proof (induction cfg c rule: s_mbulk_loop.induct)
  case (1 cfg c)
  let ?h = "\<lambda>c. if c_bulklen c = -1 then s_bulk_header cfg c else Go c"
  note e = s_mbulk_loop.simps [of cfg c] s_mbulk_loop.simps [of cfg "feed t c"]
  show ?case
  proof (cases "c_multibulklen c = 0")
    case False
    show ?thesis
    proof (cases "?h c")
      case (Go c1)
      have f: "?h (feed t c) = Go (feed t c1)"
        using Go s_bulk_header_feed [of cfg c c1 t] by (auto split: if_splits)
      have m: "c_multibulklen c1 \<noteq> 0" "c_bulklen c1 \<noteq> -1"
        using Go False by (auto simp: s_bulk_header_def dest!: bulk_line_Line split: line.splits if_splits)
      show ?thesis
      proof (cases "s_bulk_body c1")
        case (Inr x)
        show ?thesis
        proof (cases x)
          case None
          then show ?thesis
            using False Go f m Inr s_mbulk_loop.simps [of cfg "feed t c1"] by (auto simp: e)
        next
          case (Some c2)
          then show ?thesis
            using 1 [OF False Go Inr Some] False Go f Inr s_bulk_body_feed [of c1 c2 t] by (simp add: e)
        qed
      qed (use False Go f in \<open>simp add: e(1)\<close>)
    next
      case (Break c1)
      then have "c1 = c" by (auto simp: s_bulk_header_def split: line.splits if_splits)
      then show ?thesis using False Break by (auto simp: e(1))
    next
      case (Fail c1)
      then have "closing c1" by (auto simp: s_bulk_header_def setProtocolError_def split: line.splits if_splits)
      then show ?thesis using False Fail by (auto simp: e(1))
    qed
  qed (auto simp: s_mbulk_loop.simps)
qed

lemma set_inline_argv_feed: "set_inline_argv (feed t c) p argv = feed t (set_inline_argv c p argv)"
  by (simp add: set_inline_argv_def feed_def Let_def)

definition acked :: "config \<Rightarrow> nat \<Rightarrow> client \<Rightarrow> client" where
  "acked cfg q c = (if q = 0 \<and> is_slave c then c\<lparr>repl_ack_time := unixtime cfg\<rparr> else c)"

lemma acked_simps [simp]:
  "querybuf (acked cfg q c) = querybuf c" "is_master (acked cfg q c) = is_master c"
  "acked cfg q (feed t c) = feed t (acked cfg q c)"
  by (simp_all add: acked_def feed_def)

lemma s_inline_line:
  "inline_end (querybuf c) = Some (q, l) \<Longrightarrow>
   s_inline cfg c =
     (case sdssplitargs (take q (querybuf c)) of
        None \<Rightarrow> (False, protocol_error c ''Protocol error: unbalanced quotes in request'')
      | Some argv \<Rightarrow>
          if q \<noteq> 0 \<and> is_master c then (False, setProtocolError (acked cfg q c))
          else (True, set_inline_argv ((acked cfg q c)\<lparr>querybuf := drop (q + l) (querybuf c)\<rparr>) 0 argv))"
  by (auto simp: s_inline_def Let_def acked_def split: option.splits)

lemma s_inline_feed:
  "(s_inline cfg c = (True, d) \<longrightarrow> s_inline cfg (feed t c) = (True, feed t d)) \<and>
   (s_inline cfg c = (False, d) \<and> \<not> closing d \<longrightarrow> d = c)"
proof (cases "inline_end (querybuf c)")
  case None
  then show ?thesis by (auto simp: s_inline_def setProtocolError_def split: if_splits)
next
  case (Some x)
  then obtain q l where e: "inline_end (querybuf c) = Some (q, l)" by (cases x) auto
  note n = inline_end_Some [OF e]
  have "inline_end (querybuf (feed t c)) = Some (q, l)" using n(3) by simp
  note f = s_inline_line [OF this, of cfg]
  have "(feed t (acked cfg q c))\<lparr>querybuf := drop (q + l) (querybuf (feed t c))\<rparr> =
      feed t ((acked cfg q c)\<lparr>querybuf := drop (q + l) (querybuf c)\<rparr>)"
    using n(1) by (simp add: feed_def)
  then show ?thesis
    using n(1) unfolding s_inline_line [OF e, of cfg] f
    by (cases "sdssplitargs (take q (querybuf c))") (auto simp: set_inline_argv_feed setProtocolError_def split: if_splits)
qed

lemma start_mbulk_feed: "start_mbulk (feed t c) ll = feed t (start_mbulk c ll)"
  by (simp add: start_mbulk_def feed_def)

lemma s_multibulk_feed:
  "(s_multibulk cfg c = Inr (True, d) \<longrightarrow> s_multibulk cfg (feed t c) = Inr (True, feed t d)) \<and>
   (s_multibulk cfg c = Inr (False, d) \<and> \<not> closing d \<longrightarrow> s_multibulk cfg (feed t c) = s_multibulk cfg (feed t d))"
proof (cases "c_multibulklen c = 0")
  case True
  show ?thesis
  proof (cases "mbulk_line c (querybuf c)")
    case (Line n ll)
    define c1 where "c1 = c\<lparr>querybuf := drop (n + 2) (querybuf c)\<rparr>"
    have "(feed t c)\<lparr>querybuf := drop (n + 2) (querybuf (feed t c))\<rparr> = feed t c1"
      using mbulk_line_Line [OF Line] by (simp add: c1_def feed_def)
    then have f: "s_multibulk cfg (feed t c) = (if c_argv c \<noteq> [] then Inl AssertFailed
        else if ll \<le> 0 then Inr (True, feed t c1) else s_mbulk_loop cfg (feed t (start_mbulk c1 ll)))"
      using mbulk_line_more [OF Line, of t] True by (simp add: s_multibulk_def Let_def start_mbulk_feed [symmetric])
    have g: "s_multibulk cfg c = (if c_argv c \<noteq> [] then Inl AssertFailed
        else if ll \<le> 0 then Inr (True, c1) else s_mbulk_loop cfg (start_mbulk c1 ll))"
      using True Line by (simp add: s_multibulk_def Let_def c1_def)
    show ?thesis
      using s_mbulk_loop_feed [of cfg "start_mbulk c1 ll" d t] unfolding f g by (auto simp: s_multibulk_def)
  qed (use True in \<open>auto simp: s_multibulk_def setProtocolError_def split: if_splits\<close>)
next
  case False
  then show ?thesis using s_mbulk_loop_feed [of cfg c d t] by (auto simp: s_multibulk_def)
qed

lemma s_header_reqtype:
  "(if c_bulklen c = -1 then s_bulk_header cfg c else Go c) \<in> {Go d, Break d, Fail d} \<Longrightarrow> c_reqtype d = c_reqtype c"
  by (auto simp: s_bulk_header_def setProtocolError_def addReplyErrorLength_def split: line.splits if_splits)

lemma s_bulk_body_reqtype: "s_bulk_body c = Inr (Some d) \<Longrightarrow> c_reqtype d = c_reqtype c"
  by (auto simp: s_bulk_body_def bindr_eq_Inr dest!: grow_argv_keeps push_argv_keeps split: if_splits)

lemma s_mbulk_loop_reqtype: "s_mbulk_loop cfg c = Inr (b, d) \<Longrightarrow> c_reqtype d = c_reqtype c"
proof (induction cfg c rule: s_mbulk_loop.induct)
  case (1 cfg c)
  let ?h = "if c_bulklen c = -1 then s_bulk_header cfg c else Go c"
  show ?case
  proof (cases "c_multibulklen c = 0")
    case False
    show ?thesis
    proof (cases ?h)
      case (Go c1)
      have "c_reqtype c1 = c_reqtype c" by (rule s_header_reqtype [of c cfg]) (simp add: Go)
      then show ?thesis
        using 1(1) [OF False Go] 1(2) False Go s_bulk_body_reqtype [of c1] unfolding s_mbulk_loop.simps [of cfg c]
        by (auto split: sum.splits option.splits)
    next
      case (Break c1)
      then show ?thesis using 1(2) False s_header_reqtype [of c cfg c1] by (simp add: s_mbulk_loop.simps [of cfg c])
    next
      case (Fail c1)
      then show ?thesis using 1(2) False s_header_reqtype [of c cfg c1] by (simp add: s_mbulk_loop.simps [of cfg c])
    qed
  qed (use 1(2) in \<open>simp add: s_mbulk_loop.simps [of cfg c]\<close>)
qed

lemma s_multibulk_reqtype: "s_multibulk cfg c = Inr (b, d) \<Longrightarrow> c_reqtype d = c_reqtype c"
  by (auto simp: s_multibulk_def start_mbulk_def setProtocolError_def addReplyErrorLength_def Let_def
      dest!: s_mbulk_loop_reqtype split: line.splits if_splits)

lemma s_typed_feed: "querybuf c \<noteq> [] \<or> c_reqtype c \<noteq> REQ_NONE \<Longrightarrow> s_typed (feed t c) = feed t (s_typed c)"
  by (cases "querybuf c") (auto simp: s_typed_def feed_def)

lemma s_finish_feed: "s_finish (feed t c) = feed t (s_finish c)"
  by (simp add: s_finish_def resetClient_def freeClientArgv_def feed_def)

lemma s_request_feed:
  assumes "querybuf c \<noteq> []"
  shows "(s_request cfg c = Inr (True, d) \<longrightarrow> s_request cfg (feed t c) = Inr (True, feed t d)) \<and>
    (s_request cfg c = Inr (False, d) \<and> \<not> closing d \<longrightarrow> s_request cfg (feed t c) = s_request cfg (feed t d))"
proof -
  let ?c = "s_typed c"
  have t: "s_typed (feed t c) = feed t ?c" using assms by (simp add: s_typed_feed)
  have n: "c_reqtype ?c \<noteq> REQ_NONE" by (simp add: s_typed_def)
  have T: "s_parse cfg ?c = Inr (True, x) \<Longrightarrow> s_parse cfg (feed t ?c) = Inr (True, feed t x)" for x
    using s_inline_feed [of cfg ?c x t] s_multibulk_feed [of cfg ?c x t] by (simp add: s_parse_def split: if_splits)
  have F: "s_parse cfg ?c = Inr (False, x) \<Longrightarrow> \<not> closing x \<Longrightarrow>
      s_parse cfg (feed t ?c) = s_parse cfg (feed t x) \<and> c_reqtype x = c_reqtype ?c" for x
    using s_inline_feed [of cfg ?c x t] s_multibulk_feed [of cfg ?c x t] s_multibulk_reqtype [of cfg ?c False x]
    by (auto simp: s_parse_def split: if_splits)
  show ?thesis
  proof (intro conjI impI)
    assume "s_request cfg c = Inr (True, d)"
    then obtain x where "s_parse cfg ?c = Inr (True, x)" "d = s_finish x"
      by (auto simp: s_request_def bindr_eq_Inr split: prod.splits if_splits)
    then show "s_request cfg (feed t c) = Inr (True, feed t d)" using T by (simp add: s_request_def t s_finish_feed)
  next
    assume a: "s_request cfg c = Inr (False, d) \<and> \<not> closing d"
    then have p: "s_parse cfg ?c = Inr (False, d)"
      by (auto simp: s_request_def bindr_eq_Inr split: prod.splits if_splits)
    have q: "s_parse cfg (feed t ?c) = s_parse cfg (feed t d)" "c_reqtype d \<noteq> REQ_NONE" using F [OF p] a n by auto
    then have "s_typed (feed t d) = feed t d" by (simp add: s_typed_def)
    then show "s_request cfg (feed t c) = s_request cfg (feed t d)" by (simp add: s_request_def t q(1))
  qed
qed

lemma s_input_feed:
  "s_input cfg c = Inr d \<Longrightarrow> \<not> closing d \<Longrightarrow> s_input cfg (feed t c) = s_input cfg (feed t d)"
proof (induction cfg c rule: s_input.induct)
  case (1 cfg c)
  show ?case
  proof (cases "querybuf c \<noteq> [] \<and> \<not> closing c")
    case True
    obtain b x where x: "s_request cfg c = Inr (b, x)"
      using 1(2) True by (auto simp: s_input.simps [of cfg c] split: sum.splits)
    note f = s_request_feed [OF conjunct1 [OF True], of cfg x t]
    show ?thesis
    proof (cases b)
      case b: True
      have "s_input cfg (feed t x) = s_input cfg (feed t d)"
        using 1(1) [OF True] x b 1(2,3) True by (simp add: s_input.simps [of cfg c])
      then show ?thesis using True f x b by (simp add: s_input.simps [of cfg "feed t c"])
    next
      case False
      then have [simp]: "x = d" using 1(2) True x by (simp add: s_input.simps [of cfg c])
      have "s_request cfg (feed t c) = s_request cfg (feed t d)" using f x False 1(3) by simp
      moreover have "s_request cfg d = Inr (False, d)"
        using s_request_feed [OF conjunct1 [OF True], of cfg d "[]"] x False 1(3) by simp
      ultimately show ?thesis using True 1(3) x False
        by (cases "t = []") (simp_all add: s_input.simps [of cfg c] s_input.simps [of cfg d]
          s_input.simps [of cfg "feed t c"] s_input.simps [of cfg "feed t d"])
    qed
  next
    case False
    then show ?thesis using 1(2) by (auto simp: s_input.simps [of cfg c])
  qed
qed

section \<open>No bytes crash the parser\<close>

text \<open>Inside a request: the arguments read so far and those to come fit the array and an \<open>int\<close>.\<close>

definition loop_ok :: "config \<Rightarrow> client \<Rightarrow> bool" where
  "loop_ok cfg c \<longleftrightarrow> \<not> is_master c \<and> c_reqtype c = REQ_MULTIBULK \<and>
     int (length (c_argv c) + c_multibulklen c) \<le> INT_MAX \<and> 1 \<le> c_argv_len c \<and> int (length (c_argv c)) \<le> c_argv_len c \<and>
     (c_bulklen c = -1 \<or> 0 \<le> c_bulklen c \<and> c_bulklen c \<le> proto_max_bulk_len cfg)"

definition s_ok :: "config \<Rightarrow> client \<Rightarrow> bool" where
  "s_ok cfg c \<longleftrightarrow>
     (if c_multibulklen c = 0
      then \<not> is_master c \<and> c_argv c = [] \<and> c_bulklen c = -1 \<and>
        (c_reqtype c = REQ_MULTIBULK \<longrightarrow> querybuf c \<noteq> [] \<and> querybuf c ! 0 = CHR ''*'')
      else loop_ok cfg c)"

definition client_ok :: "config \<Rightarrow> client \<Rightarrow> bool" where
  "client_ok cfg c \<longleftrightarrow> buf_ok c \<and> s_ok cfg (flat c)"

lemma protocol_error_keeps [simp]:
  "c_multibulklen (protocol_error c msg) = c_multibulklen c" "c_argv (protocol_error c msg) = c_argv c"
  "c_bulklen (protocol_error c msg) = c_bulklen c" "c_reqtype (protocol_error c msg) = c_reqtype c"
  "querybuf (protocol_error c msg) = querybuf c" "c_argv_len (protocol_error c msg) = c_argv_len c"
  by (simp_all add: setProtocolError_def addReplyErrorLength_def)

lemma s_header_ok:
  assumes "loop_ok cfg c" "h = (if c_bulklen c = -1 then s_bulk_header cfg c else Go c)"
  shows "h \<in> {Break d, Fail d} \<Longrightarrow> loop_ok cfg d \<and> c_multibulklen d = c_multibulklen c"
    "h = Go d \<Longrightarrow> loop_ok cfg d \<and> c_multibulklen d = c_multibulklen c \<and> 0 \<le> c_bulklen d"
proof -
  have l: "bulk_line cfg c (querybuf c) = Line n ll \<Longrightarrow> 0 \<le> ll \<and> ll \<le> proto_max_bulk_len cfg" for n ll
    using assms(1) by (auto simp: bulk_line_def loop_ok_def split: option.splits if_splits)
  show "h \<in> {Break d, Fail d} \<Longrightarrow> loop_ok cfg d \<and> c_multibulklen d = c_multibulklen c"
    using assms by (auto simp: s_bulk_header_def loop_ok_def split: line.splits if_splits)
  show "h = Go d \<Longrightarrow> loop_ok cfg d \<and> c_multibulklen d = c_multibulklen c \<and> 0 \<le> c_bulklen d"
    using assms l by (auto simp: s_bulk_header_def loop_ok_def split: line.splits if_splits)
qed

lemma grow_argv_ok:
  assumes "int (length (c_argv c) + c_multibulklen c) \<le> INT_MAX" "1 \<le> c_argv_len c" "int (length (c_argv c)) \<le> c_argv_len c"
    "c_multibulklen c \<noteq> 0"
  shows "\<exists>l. grow_argv c = Inr (c\<lparr>c_argv_len := l\<rparr>) \<and> int (length (c_argv c)) < l"
proof (cases "int (length (c_argv c)) \<ge> c_argv_len c")
  case True
  define l where "l = min (if c_argv_len c < INT_MAX div 2 then c_argv_len c * 2 else INT_MAX)
    (int (length (c_argv c) + c_multibulklen c))"
  have "int (length (c_argv c)) < l" using True assms by (auto simp: l_def)
  moreover have "grow_argv c = Inr (c\<lparr>c_argv_len := l\<rparr>)" using True assms(1) by (simp add: grow_argv_def l_def)
  ultimately show ?thesis by blast
next
  case False
  then show ?thesis by (intro exI [of _ "c_argv_len c"]) (simp add: grow_argv_def)
qed

lemma s_bulk_body_ok:
  assumes "loop_ok cfg c" "c_multibulklen c \<noteq> 0" "0 \<le> c_bulklen c" "proto_max_bulk_len cfg + 2 \<le> LONG_MAX"
  shows "\<exists>x. s_bulk_body c = Inr x \<and> (\<forall>d. x = Some d \<longrightarrow> loop_ok cfg d)"
proof -
  obtain l where l: "grow_argv c = Inr (c\<lparr>c_argv_len := l\<rparr>)" "int (length (c_argv c)) < l"
    using grow_argv_ok [of c] assms by (auto simp: loop_ok_def)
  then show ?thesis
    using assms by (auto simp: s_bulk_body_def push_argv_def loop_ok_def)
qed

lemma Ex_bool [simp]: "\<exists>b. \<not> b" "\<exists>b. b"
  by auto

lemma s_mbulk_loop_ok:
  assumes "proto_max_bulk_len cfg + 2 \<le> LONG_MAX"
  shows "loop_ok cfg c \<Longrightarrow> \<exists>b d. s_mbulk_loop cfg c = Inr (b, d) \<and> loop_ok cfg d \<and> (\<not> b \<longrightarrow> c_multibulklen d \<noteq> 0)"
  using assms
proof (induction cfg c rule: s_mbulk_loop.induct)
  case (1 cfg c)
  let ?h = "if c_bulklen c = -1 then s_bulk_header cfg c else Go c"
  show ?case
  proof (cases "c_multibulklen c = 0")
    case False
    show ?thesis
    proof (cases ?h)
      case (Go c1)
      have c1: "loop_ok cfg c1" "c_multibulklen c1 \<noteq> 0" "0 \<le> c_bulklen c1"
        using s_header_ok(2) [OF 1(2) refl Go] False by simp_all
      obtain x where x: "s_bulk_body c1 = Inr x" "\<And>d. x = Some d \<Longrightarrow> loop_ok cfg d"
        using s_bulk_body_ok [OF c1 1(3)] by blast
      show ?thesis
      proof (cases x)
        case None
        then have "s_mbulk_loop cfg c = Inr (False, c1)" using False Go x by (simp add: s_mbulk_loop.simps [of cfg c])
        then show ?thesis using c1 by blast
      next
        case (Some c2)
        then show ?thesis using 1(1) [OF False Go x(1) Some x(2) [OF Some] 1(3)] False Go x
          by (simp add: s_mbulk_loop.simps [of cfg c])
      qed
    next
      case (Break c1)
      then show ?thesis using s_header_ok(1) [OF 1(2) refl, of c1] False by (simp add: s_mbulk_loop.simps [of cfg c])
    next
      case (Fail c1)
      then show ?thesis using s_header_ok(1) [OF 1(2) refl, of c1] False by (simp add: s_mbulk_loop.simps [of cfg c])
    qed
  qed (use 1(2) in \<open>simp add: s_mbulk_loop.simps [of cfg c]\<close>)
qed

lemma s_multibulk_ok:
  assumes "s_ok cfg c" "c_reqtype c = REQ_MULTIBULK" "proto_max_bulk_len cfg + 2 \<le> LONG_MAX"
  shows "\<exists>b d. s_multibulk cfg c = Inr (b, d) \<and> \<not> is_master d \<and> (\<not> b \<longrightarrow> s_ok cfg d)"
proof (cases "c_multibulklen c = 0")
  case True
  then have c: "\<not> is_master c" "c_argv c = []" "c_bulklen c = -1" "querybuf c \<noteq> []" "querybuf c ! 0 = CHR ''*''"
    using assms(1,2) by (auto simp: s_ok_def)
  show ?thesis
  proof (cases "mbulk_line c (querybuf c)")
    case (Line n ll)
    let ?c = "start_mbulk (c\<lparr>querybuf := drop (n + 2) (querybuf c)\<rparr>) ll"
    have "0 < ll \<Longrightarrow> loop_ok cfg ?c"
      using c assms(2) mbulk_line_Line [OF Line] by (simp add: loop_ok_def start_mbulk_def)
    then obtain b d where "0 < ll \<Longrightarrow> s_mbulk_loop cfg ?c = Inr (b, d) \<and> loop_ok cfg d \<and> (\<not> b \<longrightarrow> c_multibulklen d \<noteq> 0)"
      using s_mbulk_loop_ok [OF assms(3), of ?c] by blast
    moreover have "loop_ok cfg d \<Longrightarrow> \<not> is_master d" by (simp add: loop_ok_def)
    ultimately show ?thesis using True c Line by (auto simp: s_multibulk_def s_ok_def Let_def)
  next
    case NotArray
    then show ?thesis using c by (auto simp: mbulk_line_def split: option.splits if_splits)
  qed (use True c assms in \<open>simp_all add: s_multibulk_def s_ok_def\<close>)
next
  case False
  then have "loop_ok cfg c" using assms(1) by (simp add: s_ok_def)
  then obtain b d where "s_mbulk_loop cfg c = Inr (b, d)" "loop_ok cfg d" "\<not> b \<longrightarrow> c_multibulklen d \<noteq> 0"
    using s_mbulk_loop_ok [OF assms(3), of c] by blast
  moreover have "loop_ok cfg d \<Longrightarrow> \<not> is_master d" by (simp add: loop_ok_def)
  ultimately show ?thesis using False by (auto simp: s_multibulk_def s_ok_def)
qed

lemma s_inline_ok:
  assumes "s_ok cfg c" "c_reqtype c = REQ_INLINE"
  shows "\<not> is_master (snd (s_inline cfg c)) \<and> (\<not> fst (s_inline cfg c) \<longrightarrow> s_ok cfg (snd (s_inline cfg c)))"
proof -
  have c: "\<not> is_master c" "c_multibulklen c = 0" "c_argv c = []" "c_bulklen c = -1"
    using assms by (auto simp: s_ok_def loop_ok_def split: if_splits)
  then show ?thesis using assms
    by (auto simp: s_inline_def s_ok_def set_inline_argv_def Let_def split: option.splits)
qed

lemma s_request_ok:
  assumes "s_ok cfg c" "querybuf c \<noteq> []" "proto_max_bulk_len cfg + 2 \<le> LONG_MAX"
  shows "\<exists>b d. s_request cfg c = Inr (b, d) \<and> s_ok cfg d"
proof -
  have t: "s_ok cfg (s_typed c)" "c_reqtype (s_typed c) \<noteq> REQ_NONE"
    using assms by (auto simp: s_ok_def s_typed_def loop_ok_def split: if_splits)
  have f: "\<not> is_master d \<Longrightarrow> s_ok cfg (s_finish d)" for d
    by (simp add: s_ok_def s_finish_def resetClient_def freeClientArgv_def)
  obtain b d where "s_parse cfg (s_typed c) = Inr (b, d)" "\<not> is_master d" "\<not> b \<longrightarrow> s_ok cfg d"
  proof (cases "c_reqtype (s_typed c) = REQ_INLINE")
    case True
    then show ?thesis using s_inline_ok [OF t(1) True] that by (cases "s_inline cfg (s_typed c)") (simp add: s_parse_def)
  next
    case False
    then have "c_reqtype (s_typed c) = REQ_MULTIBULK" using t(2) by (cases "c_reqtype (s_typed c)") auto
    then show ?thesis using s_multibulk_ok [OF t(1) _ assms(3)] that by (auto simp: s_parse_def)
  qed
  then show ?thesis using f by (auto simp: s_request_def)
qed

lemma s_input_ok:
  assumes "proto_max_bulk_len cfg + 2 \<le> LONG_MAX"
  shows "s_ok cfg c \<Longrightarrow> \<exists>d. s_input cfg c = Inr d \<and> s_ok cfg d"
  using assms
proof (induction cfg c rule: s_input.induct)
  case (1 cfg c)
  show ?case
  proof (cases "querybuf c \<noteq> [] \<and> \<not> closing c")
    case True
    then obtain b d where d: "s_request cfg c = Inr (b, d)" "s_ok cfg d" using s_request_ok 1(2,3) by blast
    show ?thesis
    proof (cases b)
      case b: True
      then show ?thesis using 1(1) [OF True] d 1(3) True by (simp add: s_input.simps [of cfg c])
    qed (use d True in \<open>simp add: s_input.simps [of cfg c]\<close>)
  next
    case False
    then show ?thesis using 1(2) by (auto simp: s_input.simps [of cfg c])
  qed
qed

section \<open>Requests in the format of the client library\<close>

lemma decimal_no_end: "x \<in> set (decimal n) \<Longrightarrow> x \<noteq> CHR 0x0D \<and> x \<noteq> CHR 0x00"
  using decimal_digits [of n] by (auto simp: is_digit_def)

lemma strchr_resp_line:
  assumes "t \<noteq> CHR 0x0D" "t \<noteq> CHR 0x00"
  shows "strchr_pos (resp_line t n @ r) (CHR 0x0D) = Some (Suc (length (decimal n)))"
proof -
  have "takeWhile (\<lambda>x. x \<noteq> CHR 0x0D \<and> x \<noteq> CHR 0x00) ((t # decimal n) @ CRLF @ r) = t # decimal n"
    using assms decimal_no_end [of _ n] by (subst takeWhile_append2) auto
  then show ?thesis by (simp add: strchr_pos_def resp_line_def nth_append)
qed

lemma string2ll_decimal: "in_ll (int n) \<Longrightarrow> string2ll (decimal n) = Some (int n)"
  using string2ll_fmt_d [of "int n"] by (simp add: fmt_d_def)

lemma bulk_line_resp:
  assumes "int k \<le> proto_max_bulk_len cfg" "proto_max_bulk_len cfg + 2 \<le> LONG_MAX" "auth_required c \<longrightarrow> k \<le> 16384"
  shows "bulk_line cfg c (resp_line (CHR ''$'') k @ r) = Line (Suc (length (decimal k))) (int k)"
proof -
  have "string2ll (decimal k) = Some (int k)" using assms by (intro string2ll_decimal) (simp add: in_ll_def LONG_MIN_def)
  moreover have "take (length (decimal k)) (drop 1 (resp_line (CHR ''$'') k @ r)) = decimal k" by (simp add: resp_line_def)
  ultimately show ?thesis
    using assms strchr_resp_line [of "CHR ''$''" k r] by (simp add: bulk_line_def) (auto simp: resp_line_def)
qed

lemma mbulk_line_resp:
  assumes "int k \<le> INT_MAX" "auth_required c \<longrightarrow> k \<le> 10"
  shows "mbulk_line c (resp_line (CHR ''*'') k @ r) = Line (Suc (length (decimal k))) (int k)"
proof -
  have "string2ll (decimal k) = Some (int k)"
    using assms by (intro string2ll_decimal) (simp add: in_ll_def LONG_MIN_def LONG_MAX_def INT_MAX_def)
  moreover have "take (length (decimal k)) (drop 1 (resp_line (CHR ''*'') k @ r)) = decimal k" by (simp add: resp_line_def)
  ultimately show ?thesis
    using assms strchr_resp_line [of "CHR ''*''" k r] by (simp add: mbulk_line_def) (auto simp: resp_line_def)
qed

text \<open>The limits of the configuration, and those for connections that are not authenticated.\<close>

definition arg_ok :: "config \<Rightarrow> bool \<Rightarrow> string \<Rightarrow> bool" where
  "arg_ok cfg auth a \<longleftrightarrow> int (length a) \<le> proto_max_bulk_len cfg \<and> (auth \<longrightarrow> length a \<le> 16384)"

definition command_ok :: "config \<Rightarrow> bool \<Rightarrow> string list \<Rightarrow> bool" where
  "command_ok cfg auth argv \<longleftrightarrow>
     argv \<noteq> [] \<and> int (length argv) \<le> INT_MAX \<and> (auth \<longrightarrow> length argv \<le> 10) \<and> list_all (arg_ok cfg auth) argv"

lemma drop_resp_line: "drop (Suc (length (decimal k)) + 2) (resp_line t k @ r) = r"
  by (simp add: resp_line_def)

lemma s_mbulk_loop_args:
  assumes "proto_max_bulk_len cfg + 2 \<le> LONG_MAX"
  shows "loop_ok cfg c \<Longrightarrow> c_multibulklen c = length as \<Longrightarrow> c_bulklen c = -1 \<Longrightarrow>
    list_all (arg_ok cfg (auth_required c)) as \<Longrightarrow> querybuf c = concat (map resp_bulk as) @ r \<Longrightarrow>
    \<exists>d. s_mbulk_loop cfg c = Inr (True, d) \<and> c_argv d = c_argv c @ as \<and> executed d = executed c \<and>
      resetClient d = resetClient (c\<lparr>querybuf := r\<rparr>)"
proof (induction as arbitrary: c)
  case Nil
  then show ?case by (simp add: s_mbulk_loop.simps [of cfg c]) (simp add: resetClient_def freeClientArgv_def)
next
  case (Cons a as)
  let ?r = "concat (map resp_bulk as) @ r"
  define c1 where "c1 = c\<lparr>querybuf := a @ CRLF @ ?r, c_bulklen := int (length a)\<rparr>"
  have q: "querybuf c = resp_line (CHR ''$'') (length a) @ a @ CRLF @ ?r" using Cons.prems(5) by (simp add: resp_bulk_def [of a])
  have a: "arg_ok cfg (auth_required c) a" using Cons.prems(4) by simp
  have "bulk_line cfg c (querybuf c) = Line (Suc (length (decimal (length a)))) (int (length a))"
    unfolding q using a assms by (intro bulk_line_resp) (simp_all add: arg_ok_def)
  moreover have "drop (Suc (length (decimal (length a))) + 2) (querybuf c) = a @ CRLF @ ?r"
    unfolding q by (rule drop_resp_line)
  ultimately have h: "s_bulk_header cfg c = Go c1" by (simp add: s_bulk_header_def c1_def)
  have ok1: "loop_ok cfg c1" using Cons.prems(1) a by (simp add: loop_ok_def c1_def arg_ok_def)
  have u: "u64 (int (length a) + 2) = length a + 2"
    using a assms by (simp add: u64_def arg_ok_def LONG_MAX_def nat_add_distrib)
  have le: "int (length a) + 2 \<le> LONG_MAX" using a assms by (simp add: arg_ok_def)
  obtain l where l: "grow_argv c1 = Inr (c1\<lparr>c_argv_len := l\<rparr>)" "int (length (c_argv c1)) < l"
    using grow_argv_ok [of c1] ok1 Cons.prems(2) by (auto simp: loop_ok_def c1_def)
  define c2 where "c2 = c1\<lparr>c_argv_len := l, c_argv := c_argv c @ [a], c_argv_len_sum := c_argv_len_sum c + int (length a),
    querybuf := ?r, c_bulklen := -1, c_multibulklen := length as\<rparr>"
  have b: "s_bulk_body c1 = Inr (Some c2)"
    using u le l Cons.prems(2) by (simp add: s_bulk_body_def push_argv_def c2_def) (simp add: c1_def)
  have "s_mbulk_loop cfg c = s_mbulk_loop cfg c2"
    using Cons.prems(2,3) h b by (simp add: s_mbulk_loop.simps [of cfg c])
  moreover have "loop_ok cfg c2" using ok1 l(2) Cons.prems(2) by (simp add: loop_ok_def c2_def c1_def)
  moreover have "\<exists>d. s_mbulk_loop cfg c2 = Inr (True, d) \<and> c_argv d = c_argv c2 @ as \<and> executed d = executed c2 \<and>
      resetClient d = resetClient (c2\<lparr>querybuf := r\<rparr>)"
    by (rule Cons.IH) (use calculation(2) Cons.prems(4) in \<open>simp_all add: c2_def c1_def\<close>)
  moreover have "resetClient (c2\<lparr>querybuf := r\<rparr>) = resetClient (c\<lparr>querybuf := r\<rparr>)"
    by (simp add: resetClient_def freeClientArgv_def c2_def c1_def)
  ultimately show ?case by (auto simp: c2_def c1_def)
qed

text \<open>A connection between two requests.\<close>

definition idle :: "client \<Rightarrow> bool" where
  "idle c \<longleftrightarrow> resetClient c = c \<and> \<not> is_master c \<and> \<not> closing c"

definition ran :: "string \<Rightarrow> string list list \<Rightarrow> client \<Rightarrow> client" where
  "ran r cmds c = c\<lparr>querybuf := r, executed := executed c @ cmds\<rparr>"

lemma idle_simps:
  assumes "idle c"
  shows "c_argv c = []" "c_multibulklen c = 0" "c_bulklen c = -1" "c_reqtype c = REQ_NONE" "\<not> is_master c" "\<not> closing c"
proof -
  have "c_argv (resetClient c) = []" "c_multibulklen (resetClient c) = 0" "c_bulklen (resetClient c) = -1"
      "c_reqtype (resetClient c) = REQ_NONE"
    by (simp_all add: resetClient_def freeClientArgv_def)
  then show "c_argv c = []" "c_multibulklen c = 0" "c_bulklen c = -1" "c_reqtype c = REQ_NONE" "\<not> is_master c" "\<not> closing c"
    using assms by (simp_all add: idle_def)
qed

lemma idle_ran: "idle c \<Longrightarrow> idle (ran r cmds c)"
  unfolding idle_def ran_def
proof (elim conjE, intro conjI)
  assume "resetClient c = c"
  moreover have "resetClient (c\<lparr>querybuf := r, executed := e\<rparr>) = (resetClient c)\<lparr>querybuf := r, executed := e\<rparr>" for e
    by (simp add: resetClient_def freeClientArgv_def)
  ultimately show "resetClient (c\<lparr>querybuf := r, executed := executed c @ cmds\<rparr>) = c\<lparr>querybuf := r, executed := executed c @ cmds\<rparr>"
    by simp
qed simp_all

lemma s_request_command:
  assumes "proto_max_bulk_len cfg + 2 \<le> LONG_MAX" "idle c" "command_ok cfg (auth_required c) argv"
    "querybuf c = resp_command argv @ r"
  shows "s_request cfg c = Inr (True, ran r [argv] c)"
proof -
  note i = idle_simps [OF assms(2)]
  let ?bs = "concat (map resp_bulk argv) @ r"
  have q: "querybuf c = resp_line (CHR ''*'') (length argv) @ ?bs" using assms(4) by (simp add: resp_command_def)
  have argv: "argv \<noteq> []" "int (length argv) \<le> INT_MAX" "list_all (arg_ok cfg (auth_required c)) argv"
    using assms(3) by (simp_all add: command_ok_def)
  define c1 where "c1 = c\<lparr>c_reqtype := REQ_MULTIBULK\<rparr>"
  define c2 where "c2 = start_mbulk (c1\<lparr>querybuf := ?bs\<rparr>) (int (length argv))"
  have t: "s_typed c = c1" using q i by (simp add: s_typed_def c1_def resp_line_def)
  have "mbulk_line c1 (querybuf c1) = Line (Suc (length (decimal (length argv)))) (int (length argv))"
    using mbulk_line_resp [OF argv(2), of c1 ?bs] assms(3) q by (simp add: c1_def command_ok_def)
  moreover have "drop (Suc (length (decimal (length argv))) + 2) (querybuf c1) = ?bs"
    using drop_resp_line [of "length argv" "CHR ''*''" ?bs] q by (simp add: c1_def)
  ultimately have m: "s_multibulk cfg c1 = s_mbulk_loop cfg c2"
    using i argv(1) by (simp add: s_multibulk_def Let_def c2_def c1_def)
  have "loop_ok cfg c2" using i argv by (simp add: loop_ok_def c2_def c1_def start_mbulk_def Suc_le_eq)
  then obtain d where d: "s_mbulk_loop cfg c2 = Inr (True, d)" "c_argv d = c_argv c2 @ argv" "executed d = executed c2"
      "resetClient d = resetClient (c2\<lparr>querybuf := r\<rparr>)"
    using s_mbulk_loop_args [OF assms(1), of c2 argv r] argv(3) i by (auto simp: c2_def c1_def start_mbulk_def)
  have "s_finish d = (resetClient d)\<lparr>executed := executed c @ [argv]\<rparr>"
    using d(2,3) argv(1) i by (simp add: s_finish_def c2_def c1_def start_mbulk_def) (simp add: resetClient_def freeClientArgv_def)
  also have "\<dots> = (resetClient c)\<lparr>querybuf := r, executed := executed c @ [argv]\<rparr>"
    by (simp add: d(4) c2_def c1_def start_mbulk_def) (simp add: resetClient_def freeClientArgv_def)
  also have "\<dots> = ran r [argv] c" using assms(2) by (simp add: ran_def idle_def)
  finally show ?thesis using m d(1) by (simp add: s_request_def t s_parse_def c1_def)
qed

lemma s_input_commands:
  assumes "proto_max_bulk_len cfg + 2 \<le> LONG_MAX"
  shows "idle c \<Longrightarrow> list_all (command_ok cfg (auth_required c)) cmds \<Longrightarrow>
    querybuf c = concat (map resp_command cmds) @ r \<Longrightarrow> s_input cfg c = s_input cfg (ran r cmds c)"
proof (induction cmds arbitrary: c)
  case Nil
  then show ?case by (auto simp: ran_def)
next
  case (Cons argv cmds)
  let ?r = "concat (map resp_command cmds) @ r"
  have "s_request cfg c = Inr (True, ran ?r [argv] c)"
    by (rule s_request_command [OF assms Cons.prems(1)]) (use Cons.prems(2,3) in simp_all)
  moreover have "querybuf c \<noteq> []" using Cons.prems(3) by (simp add: resp_command_def resp_line_def)
  ultimately have "s_input cfg c = s_input cfg (ran ?r [argv] c)"
    using idle_simps(6) [OF Cons.prems(1)] by (simp add: s_input.simps [of cfg c])
  also have "\<dots> = s_input cfg (ran r cmds (ran ?r [argv] c))"
    by (rule Cons.IH [OF idle_ran [OF Cons.prems(1)]]) (use Cons.prems(2) in \<open>simp_all add: ran_def\<close>)
  finally show ?case by (simp add: ran_def)
qed

lemma strchr_pos_prefix:
  assumes "strchr_pos (s @ t) ch = Some n"
  shows "strchr_pos s ch = (if n < length s then Some n else None)"
proof (cases "strchr_pos s ch")
  case None
  have "\<not> n < length s"
  proof
    assume n: "n < length s"
    let ?P = "\<lambda>x. x \<noteq> ch \<and> x \<noteq> CHR 0x00"
    have m: "n = length (takeWhile ?P (s @ t))" "(s @ t) ! n = ch"
      using assms by (auto simp: strchr_pos_def Let_def split: if_splits)
    have "\<not> list_all ?P s"
    proof
      assume "list_all ?P s"
      then have "takeWhile ?P (s @ t) = s @ takeWhile ?P t" by (intro takeWhile_append2) (simp add: list_all_iff)
      then show False using m(1) n by simp
    qed
    then obtain x where "x \<in> set s" "\<not> ?P x" by (auto simp: list_all_iff)
    then have "takeWhile ?P (s @ t) = takeWhile ?P s" by (rule takeWhile_append1)
    then show False using None n m by (simp add: strchr_pos_def nth_append)
  qed
  then show ?thesis using None by simp
next
  case (Some m)
  then show ?thesis using strchr_pos_Some(1,3) [OF Some] assms by simp
qed

lemma string2ll_short: "string2ll s = Some x \<Longrightarrow> length s < 21"
  by (auto simp: string2ll_def split: if_splits)

lemma bulk_line_prefix:
  assumes "bulk_line cfg c (s @ t) = Line n ll"
  shows "bulk_line cfg c s = More \<or> bulk_line cfg c s = Line n ll"
proof -
  have l: "strchr_pos (s @ t) (CHR 0x0D) = Some n" "n + 2 \<le> length (s @ t)" "(s @ t) ! 0 = CHR ''$''"
      "string2ll (take (n - 1) (drop 1 (s @ t))) = Some ll"
    using assms by (auto simp: bulk_line_def split: option.splits if_splits)
  have "n \<le> 21" using string2ll_short [OF l(4)] l(2) by auto
  show ?thesis
  proof (cases "n + 2 \<le> length s")
    case True
    then show ?thesis using assms l strchr_pos_prefix [OF l(1)] by (cases s) (auto simp: bulk_line_def)
  next
    case False
    then show ?thesis
      using strchr_pos_prefix [OF l(1)] \<open>n \<le> 21\<close> by (auto simp: bulk_line_def PROTO_INLINE_MAX_SIZE_def)
  qed
qed

lemma mbulk_line_prefix:
  assumes "mbulk_line c (s @ t) = Line n ll"
  shows "mbulk_line c s = More \<or> mbulk_line c s = Line n ll"
proof -
  have l: "strchr_pos (s @ t) (CHR 0x0D) = Some n" "n + 2 \<le> length (s @ t)" "(s @ t) ! 0 = CHR ''*''"
      "string2ll (take (n - 1) (drop 1 (s @ t))) = Some ll"
    using assms by (auto simp: mbulk_line_def split: option.splits if_splits)
  have "n \<le> 21" using string2ll_short [OF l(4)] l(2) by auto
  show ?thesis
  proof (cases "n + 2 \<le> length s")
    case True
    then show ?thesis using assms l strchr_pos_prefix [OF l(1)] by (cases s) (auto simp: mbulk_line_def)
  next
    case False
    then show ?thesis
      using strchr_pos_prefix [OF l(1)] \<open>n \<le> 21\<close> by (auto simp: mbulk_line_def PROTO_INLINE_MAX_SIZE_def)
  qed
qed

lemma line_feed [simp]: "bulk_line cfg (feed t c) s = bulk_line cfg c s" "mbulk_line (feed t c) s = mbulk_line c s"
  unfolding bulk_line_def mbulk_line_def feed_simps by (rule refl)+

lemma s_mbulk_loop_prefix:
  "s_mbulk_loop cfg (feed t c) = Inr (True, e) \<Longrightarrow> \<not> closing c \<Longrightarrow> s_mbulk_loop cfg c = Inr (b, d) \<Longrightarrow> \<not> closing d"
proof (induction cfg c rule: s_mbulk_loop.induct)
  case (1 cfg c)
  let ?h = "\<lambda>c. if c_bulklen c = -1 then s_bulk_header cfg c else Go c"
  show ?case
  proof (cases "c_multibulklen c = 0")
    case False
    show ?thesis
    proof (cases "?h c")
      case (Go c1)
      have f: "?h (feed t c) = Go (feed t c1)" using Go s_bulk_header_feed [of cfg c c1 t] by (auto split: if_splits)
      have nc: "\<not> closing c1" using Go 1(3) by (auto simp: s_bulk_header_def split: line.splits if_splits)
      show ?thesis
      proof (cases "s_bulk_body c1")
        case (Inr x)
        show ?thesis
        proof (cases x)
          case (Some c2)
          have "s_bulk_body (feed t c1) = Inr (Some (feed t c2))" using Inr Some s_bulk_body_feed by simp
          then have "s_mbulk_loop cfg (feed t c2) = Inr (True, e)"
            using 1(2) False f by (simp add: s_mbulk_loop.simps [of cfg "feed t c"])
          moreover have "\<not> closing c2"
            using Inr Some nc by (auto simp: s_bulk_body_def bindr_eq_Inr dest!: grow_argv_keeps push_argv_keeps split: if_splits)
          moreover have "s_mbulk_loop cfg c2 = Inr (b, d)"
            using 1(4) False Go Inr Some by (simp add: s_mbulk_loop.simps [of cfg c])
          ultimately show ?thesis using 1(1) [OF False Go Inr Some] by blast
        qed (use 1(4) False Go Inr nc in \<open>simp add: s_mbulk_loop.simps [of cfg c]\<close>)
      qed (use 1(4) False Go in \<open>simp add: s_mbulk_loop.simps [of cfg c]\<close>)
    next
      case (Break c1)
      then have "c1 = c" by (auto simp: s_bulk_header_def split: line.splits if_splits)
      then show ?thesis using 1(3,4) False Break by (simp add: s_mbulk_loop.simps [of cfg c])
    next
      case (Fail c1)
      then obtain msg where bad: "c_bulklen c = -1" "bulk_line cfg c (querybuf c) = Bad msg"
        by (auto simp: s_bulk_header_def split: line.splits if_splits)
      obtain x where "s_bulk_header cfg (feed t c) = Go x"
        using 1(2) False bad(1) by (auto simp: s_mbulk_loop.simps [of cfg "feed t c"] split: step.splits)
      then obtain n ll where "bulk_line cfg c (querybuf c @ t) = Line n ll"
        by (auto simp: s_bulk_header_def split: line.splits)
      then show ?thesis using bulk_line_prefix bad(2) by fastforce
    qed
  qed (use 1 in \<open>simp add: s_mbulk_loop.simps [of cfg c]\<close>)
qed

lemma s_multibulk_prefix:
  assumes "s_multibulk cfg (feed t c) = Inr (True, e)" "\<not> closing c" "s_multibulk cfg c = Inr (b, d)"
  shows "\<not> closing d"
proof (cases "c_multibulklen c = 0")
  case True
  then obtain n ll where l: "mbulk_line c (querybuf c @ t) = Line n ll"
    using assms(1) by (cases "mbulk_line c (querybuf c @ t)") (auto simp: s_multibulk_def split: if_splits)
  consider "mbulk_line c (querybuf c) = More" | "mbulk_line c (querybuf c) = Line n ll" using mbulk_line_prefix [OF l] by blast
  then show ?thesis
  proof cases
    case 1
    then show ?thesis using True assms by (auto simp: s_multibulk_def split: if_splits)
  next
    case 2
    define c1 where "c1 = c\<lparr>querybuf := drop (n + 2) (querybuf c)\<rparr>"
    have "(feed t c)\<lparr>querybuf := drop (n + 2) (querybuf c @ t)\<rparr> = feed t c1"
      using mbulk_line_Line [OF 2] by (simp add: c1_def feed_def)
    then have "0 < ll \<Longrightarrow> s_mbulk_loop cfg (feed t (start_mbulk c1 ll)) = Inr (True, e)"
      using assms(1) True l by (auto simp: s_multibulk_def Let_def start_mbulk_feed [symmetric] split: if_splits)
    moreover have "0 < ll \<Longrightarrow> s_mbulk_loop cfg (start_mbulk c1 ll) = Inr (b, d)"
      using assms(3) True 2 by (auto simp: s_multibulk_def Let_def c1_def split: if_splits)
    moreover have "ll \<le> 0 \<Longrightarrow> d = c1" using assms(3) True 2 by (auto simp: s_multibulk_def Let_def c1_def split: if_splits)
    ultimately show ?thesis
      using s_mbulk_loop_prefix [of cfg t "start_mbulk c1 ll" e b d] assms(2)
      by (cases "ll \<le> 0") (auto simp: c1_def start_mbulk_def)
  qed
next
  case False
  then show ?thesis using assms s_mbulk_loop_prefix [of cfg t c e b d] by (simp add: s_multibulk_def)
qed

lemma idle_ok: "idle c \<Longrightarrow> s_ok cfg c"
  using idle_simps [of c] by (simp add: s_ok_def)

lemma s_request_partial:
  assumes "proto_max_bulk_len cfg + 2 \<le> LONG_MAX" "idle c" "command_ok cfg (auth_required c) argv"
    "resp_command argv = querybuf c @ t" "querybuf c \<noteq> []" "t \<noteq> []"
  shows "\<exists>d. s_request cfg c = Inr (False, d) \<and> \<not> closing d"
proof -
  note i = idle_simps [OF assms(2)]
  have F: "idle (feed t c)"
    using idle_ran [OF assms(2), of "querybuf c @ t" "[]"] by (simp add: ran_def feed_def)
  have R: "s_request cfg (feed t c) = Inr (True, ran [] [argv] (feed t c))"
    by (rule s_request_command [OF assms(1) F]) (use assms(3,4) in simp_all)
  obtain b d where d: "s_request cfg c = Inr (b, d)"
    using s_request_ok [OF idle_ok [OF assms(2)] assms(5,1)] by blast
  have b: "\<not> b"
  proof
    assume b
    then have "s_request cfg (feed t c) = Inr (True, feed t d)" using s_request_feed [OF assms(5), of cfg d t] d by simp
    then have "feed t d = ran [] [argv] (feed t c)" using R by simp
    then have "querybuf (feed t d) = []" by (simp only: ran_def client.simps) simp
    then show False using assms(6) by simp
  qed
  define c1 where "c1 = c\<lparr>c_reqtype := REQ_MULTIBULK\<rparr>"
  have "(querybuf c @ t) ! 0 = CHR ''*''" unfolding assms(4) [symmetric] by (simp add: resp_command_def resp_line_def)
  then have "s_typed c = c1" "s_typed (feed t c) = feed t c1"
    using i assms(5) by (auto simp: s_typed_def c1_def nth_append) (simp add: feed_def)
  then have "s_multibulk cfg c1 = Inr (False, d)" "\<exists>e. s_multibulk cfg (feed t c1) = Inr (True, e)"
    using d b R by (auto simp: s_request_def s_parse_def bindr_eq_Inr c1_def split: prod.splits if_splits)
  then have "\<not> closing d" using s_multibulk_prefix [of cfg t c1 _ False d] i by (auto simp: c1_def)
  then show ?thesis using d b by simp
qed

text \<open>A prefix of a stream of requests never ends the connection.\<close>

lemma s_input_prefix:
  assumes "proto_max_bulk_len cfg + 2 \<le> LONG_MAX"
  shows "idle c \<Longrightarrow> list_all (command_ok cfg (auth_required c)) cmds \<Longrightarrow>
    concat (map resp_command cmds) = querybuf c @ t \<Longrightarrow> \<exists>d. s_input cfg c = Inr d \<and> \<not> closing d"
proof (induction cmds arbitrary: c)
  case Nil
  then show ?case using idle_simps(6) by (simp add: s_input.simps [of cfg c])
next
  case (Cons argv cmds)
  note i = idle_simps [OF Cons.prems(1)]
  have len: "resp_command argv @ concat (map resp_command cmds) = querybuf c @ t" using Cons.prems(3) by simp
  show ?case
  proof (cases "querybuf c = []")
    case True
    then show ?thesis using i by (simp add: s_input.simps [of cfg c])
  next
    case False
    from len consider (part) u where "resp_command argv = querybuf c @ u" "u \<noteq> []"
      | (whole) u where "querybuf c = resp_command argv @ u" "concat (map resp_command cmds) = u @ t"
      unfolding append_eq_append_conv2 by (metis append_Nil append_Nil2)
    then show ?thesis
    proof cases
      case (part u)
      then obtain d where "s_request cfg c = Inr (False, d)" "\<not> closing d"
        using s_request_partial [OF assms Cons.prems(1) _ part(1) False part(2)] Cons.prems(2) by auto
      then show ?thesis using False i by (simp add: s_input.simps [of cfg c])
    next
      case (whole u)
      have "s_request cfg c = Inr (True, ran u [argv] c)"
        by (rule s_request_command [OF assms Cons.prems(1) _ whole(1)]) (use Cons.prems(2) in simp)
      moreover have "\<exists>d. s_input cfg (ran u [argv] c) = Inr d \<and> \<not> closing d"
        by (rule Cons.IH [OF idle_ran [OF Cons.prems(1)]]) (use Cons.prems(2) whole(2) in \<open>simp_all add: ran_def\<close>)
      ultimately show ?thesis using False i by (simp add: s_input.simps [of cfg c])
    qed
  qed
qed

text \<open>What the reference parser leaves alone.\<close>

definition keeps :: "client \<Rightarrow> client \<Rightarrow> bool" where
  "keeps c d \<longleftrightarrow> qb_pos d = qb_pos c \<and> is_master d = is_master c \<and> auth_required d = auth_required c \<and>
     length (querybuf d) \<le> length (querybuf c) \<and> prefix (executed c) (executed d)"

lemma keeps_refl [simp]: "keeps c c"
  by (simp add: keeps_def)

lemma keeps_trans: "keeps c d \<Longrightarrow> keeps d e \<Longrightarrow> keeps c e"
  by (auto simp: keeps_def)

lemma keeps_protocol_error [simp]: "keeps c (protocol_error c msg)"
  by (simp add: keeps_def setProtocolError_def addReplyErrorLength_def)

lemma keeps_header: "(if c_bulklen c = -1 then s_bulk_header cfg c else Go c) \<in> {Go d, Break d, Fail d} \<Longrightarrow> keeps c d"
  by (auto simp: s_bulk_header_def keeps_def setProtocolError_def addReplyErrorLength_def split: line.splits if_splits)

lemma keeps_body: "s_bulk_body c = Inr (Some d) \<Longrightarrow> keeps c d"
  by (auto simp: s_bulk_body_def bindr_eq_Inr keeps_def dest!: grow_argv_keeps push_argv_keeps split: if_splits)

lemma keeps_loop: "s_mbulk_loop cfg c = Inr (b, d) \<Longrightarrow> keeps c d"
proof (induction cfg c rule: s_mbulk_loop.induct)
  case (1 cfg c)
  let ?h = "if c_bulklen c = -1 then s_bulk_header cfg c else Go c"
  show ?case
  proof (cases "c_multibulklen c = 0")
    case False
    show ?thesis
    proof (cases ?h)
      case (Go c1)
      have k: "keeps c c1" by (rule keeps_header [of c cfg]) (simp add: Go)
      show ?thesis
        using 1(1) [OF False Go] 1(2) False Go k keeps_body [of c1] unfolding s_mbulk_loop.simps [of cfg c]
        by (auto intro: keeps_trans split: sum.splits option.splits)
    next
      case (Break c1)
      then show ?thesis using 1(2) False keeps_header [of c cfg c1] by (simp add: s_mbulk_loop.simps [of cfg c])
    next
      case (Fail c1)
      then show ?thesis using 1(2) False keeps_header [of c cfg c1] by (simp add: s_mbulk_loop.simps [of cfg c])
    qed
  qed (use 1(2) in \<open>simp add: s_mbulk_loop.simps [of cfg c]\<close>)
qed

lemma keeps_multibulk: "s_multibulk cfg c = Inr (b, d) \<Longrightarrow> keeps c d"
  by (auto simp: s_multibulk_def Let_def start_mbulk_def dest!: keeps_loop split: line.splits if_splits) (auto simp: keeps_def)

lemma keeps_inline:
  assumes "s_inline cfg c = (b, d)" "qb_pos c = 0"
  shows "keeps c d"
proof (cases "inline_end (querybuf c)")
  case None
  then show ?thesis using assms(1) by (auto simp: s_inline_def split: if_splits)
next
  case (Some x)
  then obtain q l where e: "inline_end (querybuf c) = Some (q, l)" by (cases x) auto
  show ?thesis
    using assms unfolding s_inline_line [OF e, of cfg]
    by (auto simp: keeps_def set_inline_argv_def Let_def acked_def setProtocolError_def addReplyErrorLength_def split: option.splits if_splits)
qed

lemma keeps_request:
  assumes "s_request cfg c = Inr (b, d)" "qb_pos c = 0"
  shows "keeps c d"
proof -
  obtain x where x: "s_parse cfg (s_typed c) = Inr (b, x)" "d = (if b then s_finish x else x)"
    using assms(1) by (auto simp: s_request_def bindr_eq_Inr split: prod.splits)
  have "keeps c (s_typed c)" "qb_pos (s_typed c) = 0" using assms(2) by (simp_all add: keeps_def s_typed_def)
  moreover have "keeps (s_typed c) x"
    using x(1) keeps_inline [of cfg "s_typed c" b x] keeps_multibulk [of cfg "s_typed c" b x] calculation(2)
    by (auto simp: s_parse_def split: if_splits)
  moreover have "keeps x d" by (simp add: x(2) keeps_def s_finish_def resetClient_def freeClientArgv_def)
  ultimately show ?thesis by (blast intro: keeps_trans)
qed

lemma keeps_input: "s_input cfg c = Inr d \<Longrightarrow> qb_pos c = 0 \<Longrightarrow> keeps c d"
proof (induction cfg c rule: s_input.induct)
  case (1 cfg c)
  show ?case
  proof (cases "querybuf c \<noteq> [] \<and> \<not> closing c")
    case True
    then obtain b x where x: "s_request cfg c = Inr (b, x)"
      using 1(2) by (auto simp: s_input.simps [of cfg c] split: sum.splits)
    have k: "keeps c x" by (rule keeps_request [OF x 1(3)])
    show ?thesis
    proof (cases b)
      case b: True
      have "keeps x d" using 1(1) [OF True] 1(2,3) True x b k by (simp add: s_input.simps [of cfg c] keeps_def)
      then show ?thesis using k by (rule keeps_trans [rotated])
    qed (use 1(2) True x k in \<open>simp add: s_input.simps [of cfg c]\<close>)
  qed (use 1(2) in \<open>auto simp: s_input.simps [of cfg c]\<close>)
qed

text \<open>The reads of a connection, one after the other.\<close>

fun read_all :: "config \<Rightarrow> client \<Rightarrow> string list \<Rightarrow> client res" where
  "read_all cfg c [] = Inr c"
| "read_all cfg c (data # ds) = bindr (readQueryFromClient cfg c data) (\<lambda>c. read_all cfg c ds)"

text \<open>A stream within the limits on the query buffer.\<close>

definition stream_ok :: "config \<Rightarrow> bool \<Rightarrow> string \<Rightarrow> bool" where
  "stream_ok cfg auth s \<longleftrightarrow> length s \<le> client_max_querybuf_len cfg \<and> (auth \<longrightarrow> length s \<le> 1024 * 1024) \<and>
     length s < 2 ^ 63 \<and> proto_max_bulk_len cfg + 2 \<le> LONG_MAX"

lemma flat_id: "qb_pos c = 0 \<Longrightarrow> flat c = c"
  by (cases c) (simp add: flat_def unparsed_def)

lemma read_input:
  assumes "qb_pos c = 0" "\<not> is_master c" "data \<noteq> []" "stream_ok cfg (auth_required c) s" "length (querybuf c) + length data \<le> length s"
  shows "readQueryFromClient cfg c data = s_input cfg (feed data c)"
proof -
  have "readQueryFromClient cfg c data = processInputBuffer cfg (feed data c)"
    using assms by (auto simp: readQueryFromClient_def Let_def stream_ok_def feed_def)
  also have "\<dots> = s_input cfg (flat (feed data c))"
    using assms by (intro input_refines) (auto simp: buf_ok_def stream_ok_def)
  finally show ?thesis using assms(1) by (simp add: flat_id)
qed

lemma read_all_commands:
  assumes "idle c" "qb_pos c = 0" "querybuf c = []" "list_all (command_ok cfg (auth_required c)) cmds"
    "stream_ok cfg (auth_required c) s" "s = concat (map resp_command cmds)"
  shows "list_all (\<lambda>d. d \<noteq> []) ds \<Longrightarrow> s_input cfg (feed p c) = Inr x \<Longrightarrow> p @ concat ds = s \<Longrightarrow>
    read_all cfg x ds = s_input cfg (feed s c)"
proof (induction ds arbitrary: p x)
  case (Cons t ds)
  have max: "proto_max_bulk_len cfg + 2 \<le> LONG_MAX" using assms(5) by (simp add: stream_ok_def)
  have i: "idle (feed u c)" for u
    using idle_ran [OF assms(1), of u "[]"] assms(3) by (simp add: ran_def feed_def)
  have pre: "\<exists>d. s_input cfg (feed u c) = Inr d \<and> \<not> closing d" if "s = u @ v" for u v
    by (rule s_input_prefix [OF max i, where cmds = cmds and t = v]) (use assms(3,4,6) that in simp_all)
  have x: "\<not> closing x" using pre [of p "t @ concat ds"] Cons.prems(2,3) by auto
  have k: "keeps (feed p c) x" by (rule keeps_input [OF Cons.prems(2)]) (simp add: assms(2))
  have "length (querybuf x) + length t \<le> length s"
    using k arg_cong [OF Cons.prems(3), of length] assms(3) by (simp add: keeps_def)
  then have "readQueryFromClient cfg x t = s_input cfg (feed t x)"
    using k Cons.prems(1) assms(2,5) idle_simps(5) [OF assms(1)] by (intro read_input [where s = s]) (simp_all add: keeps_def)
  also have "\<dots> = s_input cfg (feed t (feed p c))" by (rule s_input_feed [OF Cons.prems(2) x, symmetric])
  finally have r: "readQueryFromClient cfg x t = s_input cfg (feed (p @ t) c)" by (simp add: feed_def)
  obtain y where y: "s_input cfg (feed (p @ t) c) = Inr y" using pre [of "p @ t" "concat ds"] Cons.prems(3) by auto
  have "read_all cfg y ds = s_input cfg (feed s c)"
    by (rule Cons.IH [OF _ y]) (use Cons.prems(1,3) in simp_all)
  then show ?case by (simp add: r y)
qed auto

section \<open>Properties\<close>

text \<open>
  C10: For every connection that is not a master's, \<open>processInputBuffer\<close> computes exactly what the
  reference parser computes on the unparsed bytes: the read position, the trimming for big
  arguments and the reuse of the query buffer as an argument are invisible.
\<close>
theorem processInputBuffer_refines:
  assumes "buf_ok c" "\<not> is_master c"
  shows "processInputBuffer cfg c = s_input cfg (flat c)"
  by (rule input_refines [OF assms])

definition sample_config :: config where
  "sample_config = \<lparr>proto_max_bulk_len = 512 * 1024 * 1024, client_max_querybuf_len = 1024 * 1024 * 1024, unixtime = 0\<rparr>"

definition new_client :: "string \<Rightarrow> client" where
  "new_client s = \<lparr>querybuf = s, qb_pos = 0, c_reqtype = REQ_NONE, c_multibulklen = 0, c_bulklen = -1, c_argv = [],
     c_argv_len = 0, c_argv_len_sum = 0, is_master = False, is_slave = False, auth_required = False, closing = False,
     freed = False, repl_ack_time = 0, reploff = 0, read_reploff = 0, repl_applied = 0, reply_buf = [],
     propagated = [], executed = []\<rparr>"

lemma sample_max: "proto_max_bulk_len sample_config + 2 \<le> LONG_MAX"
  by (simp add: sample_config_def LONG_MAX_def)

lemma new_client_simps [simp]:
  "qb_pos (new_client s) = 0" "querybuf (new_client s) = s" "auth_required (new_client s) = False"
  "executed (new_client s) = []" "is_master (new_client s) = False"
  by (simp_all add: new_client_def)

lemma new_client_ok: "length s < 2 ^ 63 \<Longrightarrow> client_ok cfg (new_client s)"
  by (simp add: client_ok_def buf_ok_def s_ok_def new_client_def flat_def)

lemma new_client_idle: "idle (new_client s)"
  by (simp add: idle_def new_client_def resetClient_def freeClientArgv_def)

theorem processInputBuffer_refines_witness:
  "buf_ok (new_client ''PING'') \<and> \<not> is_master (new_client ''PING'') \<and>
   processInputBuffer sample_config (new_client ''PING'') = s_input sample_config (flat (new_client ''PING''))"
  using processInputBuffer_refines [of "new_client ''PING''" sample_config] by (simp add: buf_ok_def new_client_def)



text \<open>
  C8: The parser does not depend on how the network cuts the stream. If reading some bytes did not
  end the connection, then parsing the bytes that arrive later from the state reached gives the
  same connection, in every field, as parsing both parts at once.
\<close>
theorem processInputBuffer_chunks:
  assumes "buf_ok (feed t c)" "qb_pos c \<le> length (querybuf c)" "\<not> is_master c"
    "processInputBuffer cfg c = Inr d" "\<not> closing d"
  shows "processInputBuffer cfg (feed t d) = processInputBuffer cfg (feed t c)"
proof -
  have b: "buf_ok c" using assms(1,2) by (simp add: buf_ok_def)
  have d: "s_input cfg (flat c) = Inr d" using input_refines [OF b assms(3), of cfg] assms(4) by simp
  have k: "keeps (flat c) d" by (rule keeps_input [OF d]) simp
  have "buf_ok (feed t d)" using k assms(1) by (auto simp: keeps_def buf_ok_def unparsed_def)
  then have "processInputBuffer cfg (feed t d) = s_input cfg (feed t d)"
    using input_refines [of "feed t d" cfg] k assms(3) by (simp add: keeps_def flat_id)
  also have "\<dots> = s_input cfg (feed t (flat c))" by (rule s_input_feed [OF d assms(5), symmetric])
  also have "feed t (flat c) = flat (feed t c)" using assms(2) by (simp add: flat_def feed_def unparsed_def)
  also have "s_input cfg (flat (feed t c)) = processInputBuffer cfg (feed t c)"
    using input_refines [OF assms(1), of cfg] assms(3) by simp
  finally show ?thesis .
qed

theorem processInputBuffer_chunks_witness:
  "processInputBuffer sample_config (new_client ''*'') = Inr ((new_client ''*'')\<lparr>c_reqtype := REQ_MULTIBULK\<rparr>) \<and>
   processInputBuffer sample_config (feed ''1'' ((new_client ''*'')\<lparr>c_reqtype := REQ_MULTIBULK\<rparr>)) =
     processInputBuffer sample_config (feed ''1'' (new_client ''*''))"
proof -
  have "s_input sample_config (new_client ''*'') = Inr ((new_client ''*'')\<lparr>c_reqtype := REQ_MULTIBULK\<rparr>)"
    by (simp add: s_input.simps s_request_def s_parse_def s_typed_def s_multibulk_def mbulk_line_def strchr_pos_def
        PROTO_INLINE_MAX_SIZE_def new_client_def)
  then have p: "processInputBuffer sample_config (new_client ''*'') = Inr ((new_client ''*'')\<lparr>c_reqtype := REQ_MULTIBULK\<rparr>)"
    using input_refines [of "new_client ''*''" sample_config] by (simp add: buf_ok_def new_client_def flat_id)
  show ?thesis
    using processInputBuffer_chunks [OF _ _ _ p, of "''1''"] p by (simp add: buf_ok_def new_client_def feed_def)
qed

text \<open>The bytes the client library sends for a format and its arguments.\<close>

definition request_bytes :: "fmt_word list \<Rightarrow> string" where
  "request_bytes ws =
     (case redisFormatCommand (\<lambda>f a :: unit fmt_arg. []) (words_fmt ws) (concat (map word_args ws)) of
        Inr (n, Some cmd) \<Rightarrow> cmd | _ \<Rightarrow> [])"

definition words_ok :: "fmt_word list \<Rightarrow> bool" where
  "words_ok ws \<longleftrightarrow> list_all word_ok ws \<and> ws \<noteq> [] \<and> int (length (resp_command (map word_value ws))) \<le> INT_MAX"

lemma request_bytes_resp:
  assumes "words_ok ws"
  shows "request_bytes ws = resp_command (map word_value ws)"
proof -
  have "redisvFormatCommand (\<lambda>f a :: unit fmt_arg. []) (words_fmt ws) (concat (map word_args ws)) =
      Inr (Some (length (resp_command (map word_value ws)), resp_command (map word_value ws)))"
    using assms format_loop_words [of ws _ "[]"] by (intro redisvFormatCommand_writes) (simp_all add: words_ok_def)
  then show ?thesis by (simp add: request_bytes_def redisFormatCommand_def)
qed

text \<open>
  C7: From \<open>redisCommand\<close> to the command table: whatever commands a client formats one after the
  other, and however the network cuts their bytes into non-empty reads, the server executes
  exactly these commands, with these arguments and in this order, and is idle again.
\<close>
theorem commands_delivered:
  assumes "idle c" "qb_pos c = 0" "querybuf c = []" "list_all words_ok wss"
    "list_all (command_ok cfg (auth_required c)) (map (map word_value) wss)"
    "list_all (\<lambda>d. d \<noteq> []) reads" "concat reads = concat (map request_bytes wss)"
    "stream_ok cfg (auth_required c) (concat reads)"
  shows "read_all cfg c reads = Inr (c\<lparr>executed := executed c @ map (map word_value) wss\<rparr>)"
proof -
  let ?cmds = "map (map word_value) wss"
  have s: "concat reads = concat (map resp_command ?cmds)"
    unfolding assms(7) using assms(4) by (induction wss) (simp_all add: request_bytes_resp)
  have max: "proto_max_bulk_len cfg + 2 \<le> LONG_MAX" using assms(8) by (simp add: stream_ok_def)
  have e: "ran [] cs c = c\<lparr>executed := executed c @ cs\<rparr>" for cs using assms(3) by (cases c) (simp add: ran_def)
  have i: "idle (feed u c)" for u
    using idle_ran [OF assms(1), of u "[]"] assms(3) by (simp add: ran_def feed_def)
  have "s_input cfg (feed [] c) = Inr c" using assms(3) by (simp add: s_input.simps [of cfg c])
  then have "read_all cfg c reads = s_input cfg (feed (concat reads) c)"
    using read_all_commands [OF assms(1-3) assms(5,8) s assms(6), of "[]" c] by simp
  also have "\<dots> = s_input cfg (ran [] ?cmds (feed (concat reads) c))"
    by (rule s_input_commands [OF max i]) (use assms(3,5) s in simp_all)
  also have "ran [] ?cmds (feed (concat reads) c) = ran [] ?cmds c" by (simp add: ran_def feed_def)
  also have "s_input cfg \<dots> = Inr (ran [] ?cmds c)" by (simp add: s_input.simps ran_def)
  finally show ?thesis by (simp add: e)
qed

theorem commands_delivered_witness:
  "read_all sample_config (new_client [])
     [''*3'' @ CRLF @ ''$3'' @ CRLF @ ''SE'', ''T'' @ CRLF @ ''$1'' @ CRLF @ ''k'' @ CRLF @ ''$1'' @ [CHR 0x0D], CHR 0x0A # ''5'' @ CRLF] =
   Inr ((new_client [])\<lparr>executed := [[''SET'', ''k'', ''5'']]\<rparr>)"
proof -
  let ?ws = "[Lit ''SET'', Sub ''k'', Sub ''5'']"
  have e: "resp_command [''SET'', ''k'', ''5''] =
      ''*3'' @ CRLF @ ''$3'' @ CRLF @ ''SET'' @ CRLF @ ''$1'' @ CRLF @ ''k'' @ CRLF @ ''$1'' @ CRLF @ ''5'' @ CRLF"
    by (simp add: resp_command_def resp_bulk_def resp_line_def decimal.simps digit_chars [simplified numeral_2_eq_2 numeral_3_eq_3])
  have w: "words_ok ?ws" by (simp add: words_ok_def e INT_MAX_def)
  have "read_all sample_config (new_client [])
      [''*3'' @ CRLF @ ''$3'' @ CRLF @ ''SE'', ''T'' @ CRLF @ ''$1'' @ CRLF @ ''k'' @ CRLF @ ''$1'' @ [CHR 0x0D], CHR 0x0A # ''5'' @ CRLF] =
    Inr ((new_client [])\<lparr>executed := executed (new_client []) @ map (map word_value) [?ws]\<rparr>)"
    by (rule commands_delivered)
       (use w new_client_idle in \<open>simp_all add: request_bytes_resp e stream_ok_def command_ok_def arg_ok_def
          sample_config_def INT_MAX_def LONG_MAX_def\<close>)
  then show ?thesis by simp
qed



end
