(* ===== verification/Spec2Isabelle.thy ===== *)
theory Spec2Isabelle
  imports Concurrent Graph_load Intset Bitmap Requests
begin

text \<open>
  Verification of the distributed graph colouring of this repository.

  \<^bold>\<open>The program.\<close> A modified Redis server (\<open>src/redis\<close>) holds an undirected graph. The command
  \<open>add_graph\<close> (\<open>redis/src/custom.c\<close>) loads it from a file of edges: the neighbours of node \<open>u\<close> as the
  set \<open>node_u_neighbours\<close>, its colour as the string \<open>node_u_color\<close>. Any number of clients
  (\<open>color/1server/color.c\<close> for one server, \<open>color/sync/color.c\<close> for a server with replicas) each
  colour a range of nodes. Two clients whose nodes share an edge exclude each other with
  Peterson's protocol on keys of the server. \<open>color/1server/check_color.py\<close> then checks the result.
  Commands and replies travel through the client library (\<open>redis/deps/hiredis\<close>) and the
  parser of the server (\<open>redis/src/networking.c\<close>).

  \<^bold>\<open>Theories and sources.\<close>

  \<^item> \<open>Prelude\<close>, \<open>Memory\<close>: what the components share. A C function that may go wrong returns a value
    of \<open>crash + 'a\<close>; null dereferences, out-of-bounds accesses, signed overflow and failed
    assertions are errors of this type. \<open>atoi\<close>, \<open>sscanf\<close>, \<open>snprintf\<close>, \<open>fgets\<close>, decimal notation, blocks of
    bytes with bounds-checked access, 32- and 64-bit wrap-around.
  \<^item> \<open>Client\<close>: commands, replies, the keyspace (an association list, \<open>exec_cmd\<close>), and client programs
    as trees of commands and connections (\<open>'a prog\<close>): \<open>exec\<close> runs one against a keyspace, \<open>run\<close> in a
    world of several servers.
  \<^item> \<open>Color_1server\<close>, \<open>Color_sync\<close>: the two clients, one definition per C function, up to \<open>main\<close>.
    Memory from \<open>malloc\<close> is the parameter \<open>fresh\<close>, its contents arbitrary.
  \<^item> \<open>Choice\<close>: the choice of a colour (\<open>getMinimalValueNotInArray\<close>).
  \<^item> \<open>Keys\<close>: the names of the keys of a graph, and that they differ.
  \<^item> \<open>Peterson\<close>: the protocol of one edge as an abstract transition system with its invariant.
  \<^item> \<open>Follow\<close>, \<open>Follow_sync\<close>, \<open>Follow_1server\<close>: every run of a client, whatever replies it gets, follows
    the monitor of every edge. \<open>Interleaving\<close>: several clients that take turns at one server
    (\<open>sys_step\<close>), and the locale \<open>coloring_client\<close>, which carries the protocol invariant over to them.
  \<^item> \<open>Alone\<close>, \<open>Alone_sync\<close>, \<open>Alone_1server\<close>: a client that is alone returns (locale \<open>lone_client\<close>).
    \<open>Small_graph\<close>: a graph with one edge, for witnesses.
  \<^item> \<open>Concurrent\<close>, \<open>Main_program\<close>: the properties of the two clients.
  \<^item> \<open>Glob\<close>: the pattern matcher behind \<open>KEYS\<close> (\<open>redis/src/util.c\<close>).
  \<^item> \<open>Graph_load\<close>: \<open>addGraphCommand\<close>, the checker, and \<open>color/redis_writer.c\<close>.
  \<^item> \<open>Numbers\<close> (\<open>redis/src/util.c\<close>), \<open>Sds\<close> (\<open>redis/src/sds.c\<close>), \<open>Intset\<close> (\<open>redis/src/intset.c\<close>), \<open>Bitmap\<close>
    (\<open>redis/src/bitops.c\<close>): number conversions, strings, the integer sets in which neighbour sets
    are stored, bit fields.
  \<^item> \<open>Hiredis\<close> (\<open>redis/deps/hiredis/hiredis.c\<close>): how a client formats a command. \<open>Protocol\<close>
    (\<open>redis/src/networking.c\<close>): how the server reads commands from a connection. \<open>Requests\<close>: that the
    second undoes the first, however the network cuts the bytes.

  \<^bold>\<open>What is shown.\<close>

  \<^item> Safety of the clients: in every state that clients on disjoint ranges can reach, two
    neighbours whose status is set have different colours; so they have when all clients have
    returned. For \<open>1server\<close> this needs the memory from \<open>malloc\<close> not to spell a key of the graph.
  \<^item> Total correctness of a lone client: \<open>main\<close> ends with exit status 0 and a proper colouring of its
    range with at most degree + 1 colours, with all locks released. Its refusals and the
    out-of-bounds access behind a range that is too large.
  \<^item> From file to check, in this theory: \<open>add_graph\<close>, then one client or several, then \<open>check_color.py\<close>,
    which finds no error. In \<open>Graph_load\<close>: what \<open>add_graph\<close> stores, that a self-loop aborts
    the server, and what the checker counts.
  \<^item> The wire: a read never crashes and keeps the state of the connection well formed; the parser refines
    one that drops the bytes it has consumed; its result does not depend on how the bytes are cut into
    reads; formatted commands are executed exactly, in order and completely.
  \<^item> Data: the glob matcher agrees with the meaning of patterns; \<open>intsetAdd\<close> and \<open>intsetRemove\<close> implement
    insertion and removal; validation accepts exactly the well-formed blocks; numbers, quoted
    strings and bit fields are read back as written; overflow checks are exact.

  \<^bold>\<open>Bounds and fuel.\<close> Only two loops of the clients need not end: waiting for a lock and waiting for
  replicas. They take a fuel argument and give \<open>OutOfFuel\<close> without it. The safety properties hold for every fuel,
  including runs that stop this way; the termination properties hold with any fuel,
  0 included, because a client that is alone never waits. The loops of the parsers take fuel bounded
  by the length of their input, or recurse on a measure. Node numbers are below a billion, so
  that a colour fits the ten bytes of \<open>color_str\<close> and keys fit their buffers.

  \<^bold>\<open>Not modelled.\<close> Of the server: the event loop, sockets, the output
  buffers, threaded I/O, replication, persistence, cluster, modules, scripting, expiry, the commands
  other than those the clients send, hash tables and the list, hash and sorted-set types, and
  \<open>redis-cli\<close>. They are reached by the clients only through the keyspace of
  \<open>Client\<close>, and \<open>WAIT\<close> may reply any number. Of \<open>hiredis\<close>: connections and sockets.
  \<open>KeyDB_1\<close> is an unmodified copy of another server that the clients can be pointed at. The shell scripts under
  \<open>scripts\<close> and \<open>color\<close> start processes; \<open>monitor\<close> samples statistics and plots them. Functions that
  only print (\<open>log_*\<close>, \<open>print_locks_array\<close>) have no state.
\<close>

section \<open>From the file to the check\<close>

text \<open>A server on which only a graph was loaded.\<close>

lemma loaded_graph:
  assumes "permutes_members order" "edges_ok n es" "nodes_of es = {..<n}"
    and "fopen (cstr file) = Some (graph_text es)"
  obtains st' adj where "addGraphCommand order fopen [cmd, file] empty_server = Inr st'"
    "graph_ok n adj" "graph_db n adj (gdb st')" "lists_graph n (gdb st')" "raised (gdb st') = {}" "unstarted n (gdb st')"
    "\<And>u. u < n \<Longrightarrow> adj u \<noteq> []"
proof -
  obtain st' adj where st': "addGraphCommand order fopen [cmd, file] empty_server = Inr st'" "holds_graph ([] @ es) adj (gdb st')"
    using addGraph_run [where order = order and fopen = fopen, OF assms(1,2) empty_server_graph assms(4)] by blast
  have "set (adj u) \<noteq> {}" if "u < n" for u
  proof -
    have "u \<in> nodes_of es" using assms(3) that by simp
    then have "nbrs es u \<noteq> {}" unfolding nodes_of_def nbrs_def by force
    then show ?thesis using st'(2) by (simp add: holds_graph_def)
  qed
  then show thesis using that [OF st'(1)] holds_graph_ready [OF st'(2)] assms(2,3) by auto
qed

text \<open>
  C4: a whole experiment with one client. \<open>add_graph\<close> loads a file whose edges connect the nodes
  \<open>0..<n\<close> into an empty server, the program of \<open>sync/color.c\<close> is started on all nodes with no
  replica required, and ends with exit status 0; \<open>check_color.py\<close> then finds no error.
\<close>

theorem experiment_alone:
  assumes "permutes_members order" "edges_ok n es" "nodes_of es = {..<n}" "0 < n"
    and "fopen (cstr file) = Some (graph_text es)" "atoi reps \<le> 0" "ip \<noteq> monitor_host"
  shows "\<exists>st' w' db'. addGraphCommand order fopen [cmd, file] empty_server = Inr st' \<and>
    run (Color_sync.color_main fuel fresh t [prog, decimal 0, decimal (n - 1), ip, logf, host, reps])
      \<lparr>servers = [(ip, gdb st')], conn = None, answers = None\<rparr> = (Inr 0, w') \<and>
    map_of (servers w') ip = Some db' \<and> is_coloring_valid db' = Inr 0"
proof -
  obtain st' adj where st': "addGraphCommand order fopen [cmd, file] empty_server = Inr st'"
    "graph_ok n adj" "graph_db n adj (gdb st')" "lists_graph n (gdb st')" "raised (gdb st') = {}"
    by (rule loaded_graph [where fopen = fopen, OF assms(1-3,5)]) blast
  obtain w' db' where run: "run (Color_sync.color_main fuel fresh t [prog, decimal 0, decimal (n - 1), ip, logf, host, reps])
      \<lparr>servers = [(ip, gdb st')], conn = None, answers = None\<rparr> = (Inr 0, w')" "map_of (servers w') ip = Some db'"
      "range_done n adj (int 0) (int (n - 1) + 1) (gdb st') db'"
    using sync_main_run [OF st'(2-5), of 0 "n - 1" reps "\<lparr>servers = [(ip, gdb st')], conn = None, answers = None\<rparr>" ip
      fuel fresh t prog logf host] assms(4,6,7) by auto
  have "is_coloring_valid db' = Inr 0"
  proof (rule is_coloring_valid_proper)
    show "graph_db n adj db'" using run(3) by (simp add: range_done_def)
    fix u v assume "u < n" "v \<in> set (adj u)"
    then have "color_of db' v \<noteq> color_of db' u" using run(3) by (simp add: range_done_def node_done_def)
    then show "color_of db' u \<noteq> color_of db' v" by simp
  qed
  with st'(1) run(1,2) show ?thesis by blast
qed

theorem experiment_alone_witness:
  "\<exists>st' w' db'. addGraphCommand rev (\<lambda>_. Some (graph_text [(0, 1), (2, 1)])) [''add_graph'', ''g.txt''] empty_server = Inr st' \<and>
    run (Color_sync.color_main 0 (\<lambda>_. zero_lock) (Some ''10:00:00'') [''color'', decimal 0, decimal (3 - 1), ''graph'', ''log'', ''host'', ''0''])
      \<lparr>servers = [(''graph'', gdb st')], conn = None, answers = None\<rparr> = (Inr 0, w') \<and>
    map_of (servers w') ''graph'' = Some db' \<and> is_coloring_valid db' = Inr 0"
proof (rule experiment_alone [where n = 3 and es = "[(0, 1), (2, 1)]", OF rev_permutes])
  show "atoi ''0'' \<le> 0" by code_simp
  show "nodes_of [(0, 1), (2, 1)] = {..<3}" by (auto simp: nodes_of_def)
qed (simp_all add: edges_ok_def monitor_host_def)

text \<open>
  C3: a whole experiment with any number of clients. After \<open>add_graph\<close> has loaded a file whose
  edges connect the nodes \<open>0..<n\<close> into an empty server, clients of \<open>sync/color.c\<close> run on disjoint
  ranges that cover all nodes, their commands interleaved in any order, with any number of
  required replicas and any \<open>WAIT\<close> replies. When all of them have returned,
  \<open>check_color.py\<close> finds no error.
\<close>

theorem experiment_concurrent:
  assumes "permutes_members order" "edges_ok n es" "nodes_of es = {..<n}" "0 < n"
    and "fopen (cstr file) = Some (graph_text es)" "addGraphCommand order fopen [cmd, file] empty_server = Inr st'"
    and "disjoint_tasks ts" "{..<n} \<subseteq> Collect (owned ts)"
    and "sys_reach (gdb st', clients (sync_loop fuel fresh reps tmo) n ts) (db', ps)" "list_all returned ps"
  shows "is_coloring_valid db' = Inr 0"
proof -
  obtain adj where g: "graph_ok n adj" "graph_db n adj (gdb st')" "unstarted n (gdb st')" "\<And>u. u < n \<Longrightarrow> adj u \<noteq> []"
    by (rule loaded_graph [where fopen = fopen and cmd = cmd, OF assms(1-3,5)]) (use assms(6) in auto)
  note fin = sync_finished [OF g(1-3) assms(7,9)]
  have own: "owned ts u" if "u < n" for u using assms(8) that by blast
  have nb: "v < n" if "u < n" "v \<in> set (adj u)" for u v using graph_okD(3) [OF g(1) that] .
  show ?thesis
  proof (rule is_coloring_valid_proper)
    obtain v where "v \<in> set (adj 0)" using g(4) [OF assms(4)] by fastforce
    then show "graph_db n adj db'" using fin(1) [OF assms(4)] own nb assms(4) by blast
    show "color_of db' u \<noteq> color_of db' v" if "u < n" "v \<in> set (adj u)" for u v
      using fin(2) [OF that] own nb that assms(10) by blast
  qed
qed

text \<open>Two clients on a loaded file with one edge.\<close>

definition loaded :: gstate where
  "loaded = (case addGraphCommand rev (\<lambda>_. Some (graph_text [(0, 1)])) [''add_graph'', ''g.txt''] empty_server of Inr st \<Rightarrow> st)"

abbreviation loaded_run :: system where
  "loaded_run \<equiv> run_schedule (replicate 18 0 @ replicate 18 1) (gdb loaded, edge_clients)"

lemma loaded_eq: "addGraphCommand rev (\<lambda>_. Some (graph_text [(0, 1)])) [''add_graph'', ''g.txt''] empty_server = Inr loaded"
  by code_simp

lemma loaded_returned: "list_all returned (snd loaded_run)"
  by code_simp

theorem experiment_concurrent_witness:
  "list_all returned (snd loaded_run) \<and> is_coloring_valid (fst loaded_run) = Inr 0"
proof
  show "is_coloring_valid (fst loaded_run) = Inr 0"
  proof (rule experiment_concurrent [OF rev_permutes _ _ _ _ loaded_eq edge_tasks(1) _ _ loaded_returned])
    show "nodes_of [(0, 1)] = {..<2}" by (auto simp: nodes_of_def)
    show "{..<2} \<subseteq> Collect (owned [(0, 0), (1, 1)])" using edge_tasks by (auto simp: less_2_cases_iff)
    show "sys_reach (gdb loaded, edge_clients) (fst loaded_run, snd loaded_run)" using run_schedule_reach by simp
  qed (simp_all add: edges_ok_def)
qed (rule loaded_returned)

end
